(* ===== verification/Prelude.thy ===== *)
theory Prelude
  imports "HOL-Library.State_Monad" "HOL-Library.Word"
begin

text \<open>
  Shared vocabulary of the development: the machine types of the program, its faults, the
  combinators of the state monad in which the code with system calls is written, and the Hoare
  style rules by which the components prove what such code keeps.

  \<^item> \<open>addr\<close> is \<open>uint64_t\<close>, \<open>pid\<close> is \<open>pid_t\<close> (an \<open>int\<close>), \<open>size_t\<close> is
    \<open>nat\<close> for sizes of containers, \<open>64 word\<close> for counters that the code increments.
  \<^item> A C++ exception, or undefined behaviour the code runs into, is a value of \<open>fault\<close>; a
    function that can throw returns \<open>fault + 'a\<close>.
  \<^item> \<open>valid P m Q\<close> is the Hoare triple of a monadic program, \<open>preserves I m\<close> the case of an
    invariant. The rules in the collection \<open>keeps\<close> follow the structure of a do block.
\<close>

type_synonym addr = "64 word"
type_synonym pid = int

datatype fault =
    Invalid_argument         \<comment> \<open>\<open>std::invalid_argument\<close>, thrown by \<open>std::stoi\<close>\<close>
  | Out_of_range             \<comment> \<open>\<open>std::out_of_range\<close>, thrown by \<open>std::stoi\<close> and \<open>substr\<close>\<close>
  | Iterator_invalidated     \<comment> \<open>undefined: a range-for advances an iterator whose node was erased\<close>

text \<open>The largest \<open>size_t\<close>, which the code writes as \<open>-1\<close> for \<open>no group\<close>.\<close>

definition size_max :: nat where
  "size_max = 18446744073709551615"

named_theorems keeps \<open>rules for \<open>preserves\<close>, one per program construct\<close>

subsection \<open>Combinators\<close>

definition ret :: "'a \<Rightarrow> ('s, 'a) state" where
  "ret x = State_Monad.return x"

definition gets :: "('s \<Rightarrow> 'a) \<Rightarrow> ('s, 'a) state" where
  "gets f = State (\<lambda>s. (f s, s))"

definition modify :: "('s \<Rightarrow> 's) \<Rightarrow> ('s, unit) state" where
  "modify f = State (\<lambda>s. ((), f s))"

lemma run_ret [simp]: "run_state (ret x) s = (x, s)"
  by (simp add: ret_def)

lemma run_gets [simp]: "run_state (gets f) s = (f s, s)"
  by (simp add: gets_def)

lemma run_modify [simp]: "run_state (modify f) s = ((), f s)"
  by (simp add: modify_def)

text \<open>\<open>for (x : xs) body(x)\<close>, and the same loop with an accumulator (a counter, a result list).\<close>

fun for_each :: "'a list \<Rightarrow> ('a \<Rightarrow> ('s, unit) state) \<Rightarrow> ('s, unit) state" where
  "for_each [] f = ret ()"
| "for_each (x # xs) f = do { f x; for_each xs f }"

fun for_acc :: "'a list \<Rightarrow> 'b \<Rightarrow> ('a \<Rightarrow> 'b \<Rightarrow> ('s, 'b) state) \<Rightarrow> ('s, 'b) state" where
  "for_acc [] b f = ret b"
| "for_acc (x # xs) b f = do { b' \<leftarrow> f x b; for_acc xs b' f }"

subsection \<open>Hoare triples\<close>

definition valid :: "('s \<Rightarrow> bool) \<Rightarrow> ('s, 'a) state \<Rightarrow> ('a \<Rightarrow> 's \<Rightarrow> bool) \<Rightarrow> bool" where
  "valid P m Q \<longleftrightarrow> (\<forall>s. P s \<longrightarrow> Q (fst (run_state m s)) (snd (run_state m s)))"

definition preserves :: "('s \<Rightarrow> bool) \<Rightarrow> ('s, 'a) state \<Rightarrow> bool" where
  "preserves I m \<longleftrightarrow> valid I m (\<lambda>_. I)"

lemma validI: "(\<And>s. P s \<Longrightarrow> Q (fst (run_state m s)) (snd (run_state m s))) \<Longrightarrow> valid P m Q"
  by (simp add: valid_def)

lemma validD: "valid P m Q \<Longrightarrow> P s \<Longrightarrow> Q (fst (run_state m s)) (snd (run_state m s))"
  by (simp add: valid_def)

lemma valid_run: "valid P m Q \<Longrightarrow> P s \<Longrightarrow> run_state m s = (a, s') \<Longrightarrow> Q a s'"
  by (force simp: valid_def)

lemma valid_bind: "valid P m R \<Longrightarrow> (\<And>a. valid (R a) (f a) Q) \<Longrightarrow> valid P (State_Monad.bind m f) Q"
  by (fastforce simp: valid_def split: prod.splits)

lemma valid_ret: "valid (Q x) (ret x) Q"
  by (simp add: valid_def)

lemma valid_weaken: "valid P m Q \<Longrightarrow> (\<And>s. P' s \<Longrightarrow> P s) \<Longrightarrow> (\<And>a s. Q a s \<Longrightarrow> Q' a s) \<Longrightarrow> valid P' m Q'"
  by (simp add: valid_def)

lemma preservesI: "(\<And>s. I s \<Longrightarrow> I (snd (run_state m s))) \<Longrightarrow> preserves I m"
  by (simp add: preserves_def valid_def)

lemma preservesD: "preserves I m \<Longrightarrow> I s \<Longrightarrow> I (snd (run_state m s))"
  by (simp add: preserves_def valid_def)

lemma preserves_ret [keeps]: "preserves I (ret x)"
  by (simp add: preserves_def valid_def)

lemma preserves_gets [keeps]: "preserves I (gets f)"
  by (simp add: preserves_def valid_def)

lemma preserves_modify: "(\<And>s. I s \<Longrightarrow> I (f s)) \<Longrightarrow> preserves I (modify f)"
  by (simp add: preserves_def valid_def)

lemma preserves_bind [keeps]:
  "preserves I m \<Longrightarrow> (\<And>a. preserves I (f a)) \<Longrightarrow> preserves I (State_Monad.bind m f)"
  unfolding preserves_def by (rule valid_bind)

lemma preserves_if [keeps]:
  "(b \<Longrightarrow> preserves I m) \<Longrightarrow> (\<not> b \<Longrightarrow> preserves I n) \<Longrightarrow> preserves I (if b then m else n)"
  by simp

lemma preserves_option [keeps]:
  "preserves I m \<Longrightarrow> (\<And>x. preserves I (f x)) \<Longrightarrow> preserves I (case_option m f v)"
  by (cases v) simp_all

lemma preserves_sum [keeps]:
  "(\<And>x. preserves I (f x)) \<Longrightarrow> (\<And>x. preserves I (g x)) \<Longrightarrow> preserves I (case_sum f g v)"
  by (cases v) simp_all

lemma preserves_prod [keeps]:
  "(\<And>x y. preserves I (f x y)) \<Longrightarrow> preserves I (case_prod f v)"
  by (cases v) simp

lemma valid_if: "valid P m Q \<Longrightarrow> valid P n Q \<Longrightarrow> valid P (if b then m else n) Q"
  by simp

lemma valid_prod: "(\<And>x y. valid P (f x y) Q) \<Longrightarrow> valid P (case_prod f v) Q"
  by (cases v) simp

lemma preserves_both: "preserves I m \<Longrightarrow> preserves J m \<Longrightarrow> preserves (\<lambda>s. I s \<and> J s) m"
  by (simp add: preserves_def valid_def)

lemma preserves_for_each [keeps]:
  "(\<And>x. preserves I (f x)) \<Longrightarrow> preserves I (for_each xs f)"
  by (induction xs) (simp_all add: preserves_ret preserves_bind)

lemma preserves_for_acc [keeps]:
  "(\<And>x b. preserves I (f x b)) \<Longrightarrow> preserves I (for_acc xs b f)"
  by (induction xs arbitrary: b) (simp_all add: preserves_ret preserves_bind)

lemma for_acc_append:
  "for_acc (xs @ ys) b f = State_Monad.bind (for_acc xs b f) (\<lambda>c. for_acc ys c f)"
  by (induction xs arbitrary: b) (simp_all add: ret_def)

text \<open>\<open>returns Q m\<close>: whatever the state, the result of \<open>m\<close> satisfies \<open>Q\<close>.\<close>

definition returns :: "('a \<Rightarrow> bool) \<Rightarrow> ('s, 'a) state \<Rightarrow> bool" where
  "returns Q m \<longleftrightarrow> (\<forall>s. Q (fst (run_state m s)))"

lemma returnsD: "returns Q m \<Longrightarrow> Q (fst (run_state m s))"
  by (simp add: returns_def)

lemma returns_ret: "Q x \<Longrightarrow> returns Q (ret x)"
  by (simp add: returns_def)

lemma returns_bind: "(\<And>x. returns Q (f x)) \<Longrightarrow> returns Q (State_Monad.bind m f)"
  by (simp add: returns_def split: prod.splits)

lemma returns_step: "returns R m \<Longrightarrow> (\<And>x. R x \<Longrightarrow> returns Q (f x)) \<Longrightarrow> returns Q (State_Monad.bind m f)"
  by (simp add: returns_def split: prod.splits) (metis fst_conv)

lemma returns_if: "(c \<Longrightarrow> returns Q m) \<Longrightarrow> (\<not> c \<Longrightarrow> returns Q n) \<Longrightarrow> returns Q (if c then m else n)"
  by simp

lemma returns_option:
  "(v = None \<Longrightarrow> returns Q m) \<Longrightarrow> (\<And>x. v = Some x \<Longrightarrow> returns Q (f x)) \<Longrightarrow> returns Q (case_option m f v)"
  by (cases v) simp_all

lemma returns_sum:
  "(\<And>x. v = Inl x \<Longrightarrow> returns Q (f x)) \<Longrightarrow> (\<And>x. v = Inr x \<Longrightarrow> returns Q (g x)) \<Longrightarrow> returns Q (case_sum f g v)"
  by (cases v) simp_all

lemma returns_prod: "(\<And>x y. v = (x, y) \<Longrightarrow> returns Q (f x y)) \<Longrightarrow> returns Q (case_prod f v)"
  by (cases v) simp

lemma preserves_step:
  "returns R m \<Longrightarrow> preserves I m \<Longrightarrow> (\<And>x. R x \<Longrightarrow> preserves I (f x)) \<Longrightarrow> preserves I (State_Monad.bind m f)"
  unfolding preserves_def valid_def returns_def by (auto split: prod.splits) (metis fst_conv snd_conv)

lemmas returns_rules = returns_if returns_option returns_sum returns_prod returns_bind

subsection \<open>Lists\<close>

lemma map_of_filter_neq: "map_of (filter (\<lambda>p. fst p \<noteq> k) m) = (map_of m)(k := None)"
  by (induction m) (auto simp: fun_eq_iff)

lemma distinct_map_fst_filter: "distinct (map fst m) \<Longrightarrow> distinct (map fst (filter P m))"
  by (induction m) auto

lemma map_of_map_key:
  "map_of (map (\<lambda>(k, v). (k, g k v)) m) k = map_option (g k) (map_of m k)"
  by (induction m) auto

lemma map_of_map_snd: "map_of (map (\<lambda>(k, v). (k, f v)) m) k = map_option f (map_of m k)"
  by (induction m) auto

lemma map_fst_map_snd: "map fst (map (\<lambda>(k, v). (k, f v)) m) = map fst m"
  by (induction m) (auto split: prod.splits)

lemma set_removeAll_subset: "set (removeAll x xs) \<subseteq> set xs"
  by auto

lemma distinct_insert_front: "distinct xs \<Longrightarrow> distinct (if x \<in> set xs then xs else x # xs)"
  by simp

end
