(* ===== verification/Containers.thy ===== *)
theory Containers
  imports Prelude
begin

text \<open>
  The containers of the C++ standard library, as the program uses them. An \<open>unordered_map\<close> is
  the list of its nodes in iteration order, with distinct keys; an \<open>unordered_set\<close> is the
  list of its elements in iteration order, without duplicates. Assigning to a key that is there
  keeps its node; a new node is put in front. The order of an unordered container is the
  library's choice, so \<open>um_sim\<close> and \<open>set\<close> equality say when two containers hold the same,
  and the state machine of \<open>Main_Loop\<close> lets the order change between any two events.

  What a client relies on is the interface \<open>assoc_container\<close>; its lemmas are proved once there
  and reach the components through the interpretation \<open>um\<close>.
\<close>

type_synonym ('k, 'v) umap = "('k \<times> 'v) list"
type_synonym 'a uset = "'a list"

subsection \<open>The operations\<close>

text \<open>\<open>find\<close> and \<open>count\<close>.\<close>

definition um_find :: "('k, 'v) umap \<Rightarrow> 'k \<Rightarrow> 'v option" where
  "um_find m k = map_of m k"

definition um_count :: "('k, 'v) umap \<Rightarrow> 'k \<Rightarrow> bool" where
  "um_count m k = (um_find m k \<noteq> None)"

text \<open>\<open>m[k] = v\<close>.\<close>

definition um_put :: "'k \<Rightarrow> 'v \<Rightarrow> ('k, 'v) umap \<Rightarrow> ('k, 'v) umap" where
  "um_put k v m =
     (if k \<in> set (map fst m) then map (\<lambda>(k', v'). (k', if k' = k then v else v')) m
      else (k, v) # m)"

text \<open>\<open>m.erase(k)\<close>.\<close>

definition um_erase :: "'k \<Rightarrow> ('k, 'v) umap \<Rightarrow> ('k, 'v) umap" where
  "um_erase k m = filter (\<lambda>p. fst p \<noteq> k) m"

text \<open>The value of \<open>m[k]\<close>, which is \<open>d\<close> (the value-initialised one) for a new node.\<close>

definition um_at :: "'v \<Rightarrow> ('k, 'v) umap \<Rightarrow> 'k \<Rightarrow> 'v" where
  "um_at d m k = (case um_find m k of None \<Rightarrow> d | Some v \<Rightarrow> v)"

text \<open>\<open>m[k]\<close> used as a reference: the node is created when it is missing, then updated by \<open>f\<close>.\<close>

definition um_adjust :: "'k \<Rightarrow> 'v \<Rightarrow> ('v \<Rightarrow> 'v) \<Rightarrow> ('k, 'v) umap \<Rightarrow> ('k, 'v) umap" where
  "um_adjust k d f m = um_put k (f (um_at d m k)) m"

text \<open>\<open>for (auto& kv : m) kv.second = f(kv.second)\<close>.\<close>

definition um_map_values :: "('v \<Rightarrow> 'v) \<Rightarrow> ('k, 'v) umap \<Rightarrow> ('k, 'v) umap" where
  "um_map_values f m = map (\<lambda>(k, v). (k, f v)) m"

definition um_keys :: "('k, 'v) umap \<Rightarrow> 'k list" where
  "um_keys m = map fst m"

definition um_ok :: "('k, 'v) umap \<Rightarrow> bool" where
  "um_ok m = distinct (um_keys m)"

text \<open>The same nodes in any order.\<close>

definition um_sim :: "('k, 'v) umap \<Rightarrow> ('k, 'v) umap \<Rightarrow> bool" where
  "um_sim m m' \<longleftrightarrow> um_ok m \<and> um_ok m' \<and> um_find m = um_find m'"

definition us_insert :: "'a \<Rightarrow> 'a uset \<Rightarrow> 'a uset" where
  "us_insert x s = (if x \<in> set s then s else x # s)"

text \<open>
  \<open>s.erase(x)\<close> of a set, and the erase-remove idiom of a vector, both take out every occurrence:
  they are the library's \<open>removeAll\<close>.
\<close>

subsection \<open>The interface\<close>

locale assoc_container =
  fixes find :: "'m \<Rightarrow> 'k \<Rightarrow> 'v option"
    and put :: "'k \<Rightarrow> 'v \<Rightarrow> 'm \<Rightarrow> 'm"
    and erase :: "'k \<Rightarrow> 'm \<Rightarrow> 'm"
    and empty :: 'm
    and ok :: "'m \<Rightarrow> bool"
  assumes find_empty: "find empty = (\<lambda>_. None)"
    and find_put: "find (put k v m) = (find m)(k \<mapsto> v)"
    and find_erase: "find (erase k m) = (find m)(k := None)"
    and ok_empty: "ok empty"
    and ok_put: "ok m \<Longrightarrow> ok (put k v m)"
    and ok_erase: "ok m \<Longrightarrow> ok (erase k m)"
begin

lemma find_put_same: "find (put k v m) k = Some v"
  by (simp add: find_put)

lemma find_put_other: "k' \<noteq> k \<Longrightarrow> find (put k v m) k' = find m k'"
  by (simp add: find_put)

lemma dom_put: "dom (find (put k v m)) = insert k (dom (find m))"
  by (simp add: find_put)

lemma dom_erase: "dom (find (erase k m)) = dom (find m) - {k}"
  by (simp add: find_erase)

lemma erase_absent: "find m k = None \<Longrightarrow> find (erase k m) = find m"
  by (auto simp: find_erase)

lemma put_shadows: "find (put k v (put k w m)) = find (put k v m)"
  by (simp add: find_put)

lemma find_put_erase: "find (erase k (put k v m)) = find (erase k m)"
  by (simp add: find_put find_erase)

lemma ok_puts: "ok m \<Longrightarrow> ok (foldr (\<lambda>(k, v). put k v) kvs m)"
  by (induction kvs) (auto intro: ok_put)

end

lemma um_find_put [simp]: "um_find (um_put k v m) = (um_find m)(k \<mapsto> v)"
proof -
  have "map_of (um_put k v m) x = ((map_of m)(k \<mapsto> v)) x" for x
  proof (cases "k \<in> set (map fst m)")
    case True
    then have "map_of m k \<noteq> None" by (simp add: map_of_eq_None_iff)
    with True show ?thesis
      by (cases "map_of m x") (auto simp: um_put_def map_of_map_key)
  next
    case False
    then show ?thesis by (simp add: um_put_def)
  qed
  then show ?thesis by (simp add: um_find_def fun_eq_iff)
qed

lemma um_keys_put: "um_keys (um_put k v m) = (if k \<in> set (um_keys m) then um_keys m else k # um_keys m)"
  by (auto simp: um_keys_def um_put_def)

lemma um_ok_put [simp]: "um_ok m \<Longrightarrow> um_ok (um_put k v m)"
  by (simp add: um_ok_def um_keys_put)

lemma um_find_erase [simp]: "um_find (um_erase k m) = (um_find m)(k := None)"
  by (auto simp: um_find_def um_erase_def map_of_filter_neq)

lemma um_ok_erase [simp]: "um_ok m \<Longrightarrow> um_ok (um_erase k m)"
  by (simp add: um_ok_def um_keys_def um_erase_def distinct_map_fst_filter)

interpretation um: assoc_container um_find um_put um_erase "[]" um_ok
  by unfold_locales (simp_all add: um_find_put um_find_erase, simp_all add: um_find_def um_ok_def um_keys_def fun_eq_iff)

subsection \<open>Derived operations\<close>

lemma um_find_Nil [simp]: "um_find [] k = None"
  by (simp add: um_find_def)

lemma um_ok_Nil [simp]: "um_ok []"
  by (rule um.ok_empty)

lemma um_at_put [simp]: "um_at d (um_put k v m) k' = (if k' = k then v else um_at d m k')"
  by (simp add: um_at_def)

lemma um_at_erase [simp]: "um_at d (um_erase k m) k' = (if k' = k then d else um_at d m k')"
  by (simp add: um_at_def)

lemma um_find_adjust [simp]: "um_find (um_adjust k d f m) = (um_find m)(k \<mapsto> f (um_at d m k))"
  by (simp add: um_adjust_def)

lemma um_at_adjust [simp]:
  "um_at d' (um_adjust k d f m) k' = (if k' = k then f (um_at d m k) else um_at d' m k')"
  by (simp add: um_adjust_def)

lemma um_ok_adjust [simp]: "um_ok m \<Longrightarrow> um_ok (um_adjust k d f m)"
  by (simp add: um_adjust_def)

lemma um_find_map_values [simp]: "um_find (um_map_values f m) k = map_option f (um_find m k)"
  by (simp add: um_find_def um_map_values_def map_of_map_snd)

lemma um_keys_map_values [simp]: "um_keys (um_map_values f m) = um_keys m"
  by (simp only: um_keys_def um_map_values_def map_fst_map_snd)

lemma um_ok_map_values [simp]: "um_ok (um_map_values f m) = um_ok m"
  by (simp add: um_ok_def)

lemma um_at_map_values: "f d = d \<Longrightarrow> um_at d (um_map_values f m) k = f (um_at d m k)"
  by (simp add: um_at_def split: option.splits)

lemma um_find_in_set: "um_find m k = Some v \<Longrightarrow> (k, v) \<in> set m"
  by (simp add: um_find_def map_of_SomeD)

lemma in_set_um_find: "um_ok m \<Longrightarrow> (k, v) \<in> set m \<longleftrightarrow> um_find m k = Some v"
  by (simp add: um_find_def um_ok_def um_keys_def)

lemma um_keys_find: "k \<in> set (um_keys m) \<longleftrightarrow> um_find m k \<noteq> None"
  by (auto simp: um_keys_def um_find_def map_of_eq_None_iff)

lemma um_count_keys: "um_count m k \<longleftrightarrow> k \<in> set (um_keys m)"
  by (simp add: um_count_def um_keys_find)

lemma um_keys_erase: "um_keys (um_erase k m) = removeAll k (um_keys m)"
  by (induction m) (auto simp: um_keys_def um_erase_def)

lemma um_sim_refl: "um_ok m \<Longrightarrow> um_sim m m"
  by (simp add: um_sim_def)

lemma um_sim_sym: "um_sim m m' \<Longrightarrow> um_sim m' m"
  by (simp add: um_sim_def)

lemma um_sim_trans: "um_sim m m' \<Longrightarrow> um_sim m' m'' \<Longrightarrow> um_sim m m''"
  by (simp add: um_sim_def)

lemma um_sim_set: "um_sim m m' \<Longrightarrow> set m = set m'"
  by (force simp: um_sim_def simp flip: in_set_um_find dest: in_set_um_find)

lemma set_us_insert [simp]: "set (us_insert x s) = insert x (set s)"
  by (auto simp: us_insert_def)

lemma distinct_us_insert [simp]: "distinct s \<Longrightarrow> distinct (us_insert x s)"
  by (simp add: us_insert_def)

lemma us_insert_nonempty [simp]: "us_insert x s \<noteq> []"
  by (auto simp: us_insert_def)

end
