(* ===== verification/Digraph.thy ===== *)
theory Digraph
  imports Containers
begin

text \<open>
  Directed graphs given by successor lists, as the wait-for graph of the threads and the graph of
  the groups are. \<open>digraph\<close> is what the three depth-first searches of the program rely on: their
  termination measure and the bookkeeping of finished nodes are proved once here.
\<close>

definition edges :: "('a \<Rightarrow> 'a list) \<Rightarrow> ('a \<times> 'a) set" where
  "edges succs = {(u, v). v \<in> set (succs u)}"

definition targets :: "('a \<Rightarrow> 'a list) \<Rightarrow> 'a set" where
  "targets succs = (\<Union>u. set (succs u))"

text \<open>Consecutive elements of a walk are joined by edges.\<close>

definition walk :: "('a \<Rightarrow> 'a list) \<Rightarrow> 'a list \<Rightarrow> bool" where
  "walk succs p = successively (\<lambda>u v. v \<in> set (succs u)) p"

text \<open>A set of nodes is settled when no edge leaves it and no cycle goes through it.\<close>

definition settled :: "('a \<Rightarrow> 'a list) \<Rightarrow> 'a set \<Rightarrow> bool" where
  "settled succs B \<longleftrightarrow> (\<forall>u \<in> B. set (succs u) \<subseteq> B \<and> (u, u) \<notin> (edges succs)\<^sup>+)"

text \<open>How many nodes a search over the successors \<open>ns\<close> can still visit.\<close>

definition unvisited :: "('a \<Rightarrow> 'a list) \<Rightarrow> 'a list \<Rightarrow> 'a set \<Rightarrow> nat" where
  "unvisited succs ns V = card ((targets succs \<union> set ns) - V)"

lemma walk_simps [simp]:
  "walk succs []" "walk succs [u]"
  "walk succs (u # v # p) \<longleftrightarrow> v \<in> set (succs u) \<and> walk succs (v # p)"
  by (simp_all add: walk_def)

lemma walk_Cons: "walk succs (u # p) \<longleftrightarrow> p = [] \<or> hd p \<in> set (succs u) \<and> walk succs p"
  by (cases p) auto

lemma walk_append:
  "walk succs (p @ q) \<longleftrightarrow> walk succs p \<and> walk succs q \<and>
     (p = [] \<or> q = [] \<or> hd q \<in> set (succs (last p)))"
  by (auto simp: walk_def successively_append_iff)

lemma walk_rtrancl: "walk succs p \<Longrightarrow> p \<noteq> [] \<Longrightarrow> (hd p, last p) \<in> (edges succs)\<^sup>*"
proof (induction p)
  case (Cons u p)
  then show ?case
    by (cases p) (auto simp: edges_def intro: converse_rtrancl_into_rtrancl)
qed simp

lemma walk_trancl: "walk succs (u # p) \<Longrightarrow> p \<noteq> [] \<Longrightarrow> (u, last p) \<in> (edges succs)\<^sup>+"
  using walk_rtrancl [of succs p] by (auto simp: walk_Cons edges_def intro: rtrancl_into_trancl2)

lemma walk_butlast: "walk succs p \<Longrightarrow> u \<in> set (butlast p) \<Longrightarrow> succs u \<noteq> []"
  by (induction p) (auto simp: walk_Cons split: if_splits)

text \<open>A walk whose last node occurs before its end goes through a cycle.\<close>

lemma closed_walk_cycle:
  assumes "walk succs p" "p \<noteq> []" "last p \<in> set (butlast p)"
  shows "(last p, last p) \<in> (edges succs)\<^sup>+"
proof -
  from assms(3) obtain xs ys where b: "butlast p = xs @ last p # ys"
    by (auto simp: in_set_conv_decomp)
  with assms(2) have "p = xs @ (last p # ys @ [last p])"
    by (metis append_Cons append_assoc append_butlast_last_id)
  with assms(1) have "walk succs (last p # ys @ [last p])" by (metis walk_append)
  then show ?thesis using walk_trancl [of succs "last p" "ys @ [last p]"] by simp
qed

lemma settled_empty [simp]: "settled succs {}"
  by (simp add: settled_def)

lemma settled_reach: "settled succs B \<Longrightarrow> u \<in> B \<Longrightarrow> (u, v) \<in> (edges succs)\<^sup>* \<Longrightarrow> v \<in> B"
  by (erule rtrancl_induct) (auto simp: settled_def edges_def)

lemma settled_insert:
  assumes B: "settled succs B" and t: "t \<notin> B" and succ: "set (succs t) \<subseteq> B"
  shows "settled succs (insert t B)"
proof -
  have "(t, t) \<notin> (edges succs)\<^sup>+"
  proof
    assume "(t, t) \<in> (edges succs)\<^sup>+"
    then obtain u where "(t, u) \<in> edges succs" "(u, t) \<in> (edges succs)\<^sup>*"
      by (meson tranclD)
    with succ have "u \<in> B" by (auto simp: edges_def)
    with B \<open>(u, t) \<in> (edges succs)\<^sup>*\<close> t show False by (blast dest: settled_reach)
  qed
  with B succ show ?thesis by (auto simp: settled_def)
qed

lemma settled_no_cycle: "settled succs B \<Longrightarrow> u \<in> B \<Longrightarrow> (u, v) \<in> (edges succs)\<^sup>* \<Longrightarrow> (v, v) \<notin> (edges succs)\<^sup>+"
  using settled_reach [of succs B u v] by (auto simp: settled_def)

subsection \<open>The interface of the searches\<close>

locale digraph =
  fixes succs :: "'a \<Rightarrow> 'a list"
  assumes finite_targets: "finite (targets succs)"
begin

lemma succs_targets: "set (succs u) \<subseteq> targets succs"
  by (auto simp: targets_def)

lemma finite_unvisited: "finite ((targets succs \<union> set ns) - V)"
  by (simp add: finite_targets)

lemma unvisited_mono: "V \<subseteq> V' \<Longrightarrow> set ns \<subseteq> set ns' \<Longrightarrow> unvisited succs ns V' \<le> unvisited succs ns' V"
  unfolding unvisited_def by (intro card_mono finite_unvisited) auto

lemma unvisited_tl: "V \<subseteq> V' \<Longrightarrow> unvisited succs ns V' \<le> unvisited succs (n # ns) V"
  by (rule unvisited_mono) auto

lemma unvisited_hd: "unvisited succs [n] V \<le> unvisited succs (n # ns) V"
  by (rule unvisited_mono) auto

lemma unvisited_visit: "t \<notin> V \<Longrightarrow> unvisited succs (succs t) (insert t V) < unvisited succs [t] V"
  unfolding unvisited_def
  by (rule psubset_card_mono) (use succs_targets [of t] finite_targets in auto)

lemma unvisited_again: "t \<in> V \<Longrightarrow> unvisited succs (succs t) (insert t V) = unvisited succs [t] V"
  unfolding unvisited_def using succs_targets [of t] by (auto intro: arg_cong [where f = card])

lemma acyclic_if_covered:
  assumes "settled succs B" and "\<And>u. succs u \<noteq> [] \<Longrightarrow> u \<in> B"
  shows "acyclic (edges succs)"
proof (rule acyclicI, rule allI, rule notI)
  fix u assume c: "(u, u) \<in> (edges succs)\<^sup>+"
  then obtain v where "(u, v) \<in> edges succs" by (meson tranclD)
  then have "succs u \<noteq> []" by (auto simp: edges_def)
  with assms c show False by (auto simp: settled_def)
qed

end

text \<open>The adjacency maps of the program are such graphs.\<close>

lemma targets_um_at: "targets (um_at [] g) \<subseteq> set (concat (map snd g))"
proof
  fix x assume "x \<in> targets (um_at [] g)"
  then obtain u where u: "x \<in> set (um_at [] g u)" by (auto simp: targets_def)
  then obtain vs where "um_find g u = Some vs" "x \<in> set vs"
    by (cases "um_find g u") (simp_all add: um_at_def)
  then show "x \<in> set (concat (map snd g))"
    by (force dest!: um_find_in_set)
qed

interpretation adj: digraph "um_at [] g" for g :: "('a, 'a list) umap"
  by unfold_locales (rule finite_subset [OF targets_um_at], simp)

end
