(* ===== verification/Text_Parsing.thy ===== *)
theory Text_Parsing
  imports Prelude
begin

text \<open>
  The string functions of the C and C++ library that the program uses: number formatting and
  parsing, \<open>find\<close> and \<open>substr\<close>, and the line reader \<open>fgets\<close>. Texts of \<open>/proc\<close> hold no
  NUL byte, so \<open>strncmp\<close> and \<open>strchr\<close> see the whole line.
\<close>

subsection \<open>Numbers in base 10 and 16\<close>

definition digit_char :: "nat \<Rightarrow> char" where
  "digit_char d = (if d < 10 then char_of (48 + d) else char_of (87 + d))"

definition char_digit :: "char \<Rightarrow> nat" where
  "char_digit c = (let n = of_char c in if n < 58 then n - 48 else n - 87)"

fun digits_of :: "nat \<Rightarrow> nat \<Rightarrow> nat list" where
  "digits_of b n = (if n < b \<or> b < 2 then [n] else digits_of b (n div b) @ [n mod b])"

declare digits_of.simps [simp del]

definition digits_value :: "nat \<Rightarrow> nat list \<Rightarrow> nat" where
  "digits_value b ds = foldl (\<lambda>a d. b * a + d) 0 ds"

lemma digits_value_snoc: "digits_value b (ds @ [d]) = b * digits_value b ds + d"
  by (simp add: digits_value_def)

lemma digits_value_single: "digits_value b [n] = n"
  by (simp add: digits_value_def)

lemma digits_value_of: "digits_value b (digits_of b n) = n"
proof (induction b n rule: digits_of.induct)
  case (1 b n)
  then show ?case
    by (subst digits_of.simps) (auto simp: digits_value_snoc digits_value_single)
qed

lemma digits_of_bound: "2 \<le> b \<Longrightarrow> d \<in> set (digits_of b n) \<Longrightarrow> d < b"
proof (induction b n rule: digits_of.induct)
  case (1 b n)
  then show ?case
    by (subst (asm) (2) digits_of.simps) (auto split: if_splits)
qed

lemma digits_of_nonempty: "digits_of b n \<noteq> []"
  by (subst digits_of.simps) simp

lemma char_digit_char: "d < 16 \<Longrightarrow> char_digit (digit_char d) = d"
  by (auto simp: char_digit_def digit_char_def)

lemma map_char_digit: "(\<And>d. d \<in> set ds \<Longrightarrow> d < 16) \<Longrightarrow> map char_digit (map digit_char ds) = ds"
  by (induction ds) (auto simp: char_digit_char)

definition is_digit :: "char \<Rightarrow> bool" where
  "is_digit c = (48 \<le> (of_char c :: nat) \<and> (of_char c :: nat) \<le> 57)"

definition is_space :: "char \<Rightarrow> bool" where
  "is_space c = (let n = (of_char c :: nat) in n = 32 \<or> 9 \<le> n \<and> n \<le> 13)"

lemma is_digit_digit_char: "d < 10 \<Longrightarrow> is_digit (digit_char d)"
  by (auto simp: is_digit_def digit_char_def)

lemma is_digit_simps [simp]:
  "\<not> is_digit (CHR ''['')" "\<not> is_digit (CHR '']'')" "\<not> is_digit (CHR ''-'')" "\<not> is_digit (CHR ''+'')"
  by (simp_all add: is_digit_def)

lemma is_digit_not_space: "is_digit c \<Longrightarrow> \<not> is_space c"
  by (auto simp: is_digit_def is_space_def Let_def)

text \<open>\<open>std::to_string(int)\<close>.\<close>

definition to_string :: "int \<Rightarrow> string" where
  "to_string i = (if i < 0 then CHR ''-'' # map digit_char (digits_of 10 (nat (- i)))
                  else map digit_char (digits_of 10 (nat i)))"

text \<open>The number that \<open>strtol\<close> reads in base 10, \<open>None\<close> when no conversion can be made.\<close>

definition strtol :: "string \<Rightarrow> int option" where
  "strtol s =
     (let t = dropWhile is_space s;
          neg = (case t of c # _ \<Rightarrow> c = CHR ''-'' | [] \<Rightarrow> False);
          signed = (case t of c # _ \<Rightarrow> c = CHR ''-'' \<or> c = CHR ''+'' | [] \<Rightarrow> False);
          ds = takeWhile is_digit (if signed then tl t else t);
          v = int (digits_value 10 (map char_digit ds))
      in if ds = [] then None else Some (if neg then - v else v))"

text \<open>\<open>std::stoi\<close>: it throws where nothing can be converted, and outside the range of \<open>int\<close>.\<close>

definition stoi :: "string \<Rightarrow> fault + int" where
  "stoi s = (case strtol s of None \<Rightarrow> Inl Invalid_argument
             | Some v \<Rightarrow> if - 2147483648 \<le> v \<and> v \<le> 2147483647 then Inr v else Inl Out_of_range)"

text \<open>\<open>atoi\<close>: 0 when nothing can be converted. (Out of range it is undefined in C; the numbers it
  is applied to are process ids printed by the kernel.)\<close>

definition atoi :: "string \<Rightarrow> int" where
  "atoi s = (case strtol s of None \<Rightarrow> 0 | Some v \<Rightarrow> v)"

lemma strtol_digits:
  assumes "ds \<noteq> []" and "\<And>d. d \<in> set ds \<Longrightarrow> d < 10" and "rest = [] \<or> \<not> is_digit (hd rest)"
  shows "strtol (map digit_char ds @ rest) = Some (int (digits_value 10 ds))"
    and "strtol (CHR ''-'' # map digit_char ds @ rest) = Some (- int (digits_value 10 ds))"
proof -
  let ?t = "map digit_char ds @ rest"
  from assms(1) obtain d ds' where ds: "ds = d # ds'" by (cases ds) auto
  have dig: "is_digit (digit_char d)" using assms(2) ds by (simp add: is_digit_digit_char)
  then have h: "digit_char d \<noteq> CHR ''-''" "digit_char d \<noteq> CHR ''+''" "\<not> is_space (digit_char d)"
    by (auto dest: is_digit_not_space)
  have tw: "takeWhile is_digit ?t = map digit_char ds"
    using assms(2,3) by (cases rest) (auto simp: takeWhile_append is_digit_digit_char)
  have mc: "map char_digit (map digit_char ds) = ds"
    using assms(2) by (intro map_char_digit) fastforce
  show "strtol ?t = Some (int (digits_value 10 ds))"
    unfolding strtol_def Let_def using h tw mc by (simp add: ds)
  show "strtol (CHR ''-'' # ?t) = Some (- int (digits_value 10 ds))"
    unfolding strtol_def Let_def using tw mc by (simp add: ds is_space_def)
qed

lemma strtol_to_string:
  assumes "rest = [] \<or> \<not> is_digit (hd rest)"
  shows "strtol (to_string i @ rest) = Some i"
proof (cases "i < 0")
  case True
  have "strtol (CHR ''-'' # map digit_char (digits_of 10 (nat (- i))) @ rest)
        = Some (- int (digits_value 10 (digits_of 10 (nat (- i)))))"
    using assms by (intro strtol_digits) (auto simp: digits_of_nonempty dest: digits_of_bound [rotated])
  with True show ?thesis by (simp add: to_string_def digits_value_of)
next
  case False
  have "strtol (map digit_char (digits_of 10 (nat i)) @ rest)
        = Some (int (digits_value 10 (digits_of 10 (nat i))))"
    using assms by (intro strtol_digits) (auto simp: digits_of_nonempty dest: digits_of_bound [rotated])
  with False show ?thesis by (simp add: to_string_def digits_value_of)
qed

lemma stoi_to_string:
  "- 2147483648 \<le> i \<Longrightarrow> i \<le> 2147483647 \<Longrightarrow> rest = [] \<or> \<not> is_digit (hd rest) \<Longrightarrow>
     stoi (to_string i @ rest) = Inr i"
  by (simp add: stoi_def strtol_to_string)

lemma to_string_chars: "c \<in> set (to_string i) \<Longrightarrow> is_digit c \<or> c = CHR ''-''"
  by (auto simp: to_string_def is_digit_digit_char dest!: digits_of_bound [rotated] split: if_splits)

lemma to_string_no_bracket: "CHR ''['' \<notin> set (to_string i)" "CHR '']'' \<notin> set (to_string i)"
  using to_string_chars [of "CHR ''[''" i] to_string_chars [of "CHR '']''" i] by auto

text \<open>\<open>atoi\<close> of a printed number, as it stands in \<open>/proc\<close>, is that number.\<close>

lemma atoi_to_string: "rest = [] \<or> \<not> is_digit (hd rest) \<Longrightarrow> atoi (to_string i @ rest) = i"
  by (simp add: atoi_def strtol_to_string)

lemma to_string_inj: "to_string i = to_string j \<Longrightarrow> i = j"
  using strtol_to_string [of "[]" i] strtol_to_string [of "[]" j] by simp

subsection \<open>Searching and cutting strings\<close>

text \<open>\<open>s.find(c)\<close>: \<open>None\<close> is \<open>npos\<close>.\<close>

fun str_find :: "char \<Rightarrow> string \<Rightarrow> nat option" where
  "str_find c [] = None"
| "str_find c (x # xs) = (if x = c then Some 0 else map_option Suc (str_find c xs))"

text \<open>\<open>s.find(sub) != npos\<close>.\<close>

fun str_contains :: "string \<Rightarrow> string \<Rightarrow> bool" where
  "str_contains sub [] = (sub = [])"
| "str_contains sub (x # xs) = (take (length sub) (x # xs) = sub \<or> str_contains sub xs)"

text \<open>\<open>s.substr(pos, n)\<close>: it throws when \<open>pos\<close> is past the end, and stops at the end.\<close>

definition substr :: "nat \<Rightarrow> nat \<Rightarrow> string \<Rightarrow> fault + string" where
  "substr pos n s = (if length s < pos then Inl Out_of_range else Inr (take n (drop pos s)))"

lemma str_find_append: "c \<notin> set xs \<Longrightarrow> str_find c (xs @ c # ys) = Some (length xs)"
  by (induction xs) auto

lemma str_find_None: "str_find c s = None \<longleftrightarrow> c \<notin> set s"
  by (induction s) auto

lemma str_find_Some:
  "str_find c s = Some i \<longleftrightarrow> (\<exists>xs ys. s = xs @ c # ys \<and> c \<notin> set xs \<and> length xs = i)"
proof (induction s arbitrary: i)
  case Nil
  then show ?case by simp
next
  case (Cons x s)
  show ?case
  proof (cases "x = c")
    case True
    then show ?thesis by (auto simp: Cons_eq_append_conv)
  next
    case False
    then have "(\<exists>xs ys. x # s = xs @ c # ys \<and> c \<notin> set xs \<and> length xs = i)
        \<longleftrightarrow> (\<exists>j. i = Suc j \<and> (\<exists>xs ys. s = xs @ c # ys \<and> c \<notin> set xs \<and> length xs = j))"
      by (fastforce simp: Cons_eq_append_conv)
    with False Cons.IH show ?thesis by auto
  qed
qed

lemma str_contains_iff: "str_contains sub s \<longleftrightarrow> (\<exists>xs ys. s = xs @ sub @ ys)"
proof (induction s)
  case Nil
  then show ?case by simp
next
  case (Cons x s)
  have "take (length sub) (x # s) = sub \<longleftrightarrow> (\<exists>ys. x # s = sub @ ys)"
    by (metis append_eq_conv_conj)
  with Cons show ?case by (auto simp: Cons_eq_append_conv)
qed

subsection \<open>Lines of a file\<close>

text \<open>One \<open>fgets\<close> with room for \<open>n\<close> characters: it stops after a newline.\<close>

fun fgets :: "nat \<Rightarrow> string \<Rightarrow> string \<times> string" where
  "fgets 0 s = ([], s)"
| "fgets (Suc n) [] = ([], [])"
| "fgets (Suc n) (c # s) =
     (if c = CHR 0x0A then ([c], s) else (let (l, r) = fgets n s in (c # l, r)))"

lemma fgets_append: "fst (fgets n s) @ snd (fgets n s) = s"
  by (induction n s rule: fgets.induct) (auto split: prod.splits)

lemma fgets_length: "length (fst (fgets n s)) \<le> n"
  by (induction n s rule: fgets.induct) (auto split: prod.splits)

lemma fgets_progress: "s \<noteq> [] \<Longrightarrow> 0 < n \<Longrightarrow> length (snd (fgets n s)) < length s"
proof -
  assume "s \<noteq> []" "0 < n"
  then have "fst (fgets n s) \<noteq> []"
    by (cases n; cases s) (auto split: prod.splits)
  then show ?thesis
    using fgets_append [of n s] by (metis length_append length_greater_0_conv less_add_same_cancel2)
qed

text \<open>What \<open>while (fgets(line, size, f))\<close> sees: \<open>size - 1\<close> characters at most in each line.\<close>

function fgets_lines :: "nat \<Rightarrow> string \<Rightarrow> string list" where
  "fgets_lines n s =
     (if s = [] \<or> n < 2 then []
      else fst (fgets (n - 1) s) # fgets_lines n (snd (fgets (n - 1) s)))"
  by pat_completeness auto
termination
  by (relation "measure (\<lambda>(n, s). length s)") (auto simp: fgets_progress)

declare fgets_lines.simps [simp del]

lemma concat_fgets_lines: "2 \<le> n \<Longrightarrow> concat (fgets_lines n s) = s"
proof (induction n s rule: fgets_lines.induct)
  case (1 n s)
  then show ?case
    by (subst fgets_lines.simps) (auto simp: fgets_append)
qed

lemma fgets_lines_bound: "l \<in> set (fgets_lines n s) \<Longrightarrow> length l < n"
proof (induction n s rule: fgets_lines.induct)
  case (1 n s)
  have "length (fst (fgets (n - 1) s)) \<le> n - 1" by (rule fgets_length)
  with 1 show ?case
    by (subst (asm) (2) fgets_lines.simps) (auto split: if_splits)
qed

text \<open>\<open>strncmp(line, prefix, n) == 0\<close> with \<open>n\<close> the length of the prefix.\<close>

definition starts_with :: "string \<Rightarrow> string \<Rightarrow> bool" where
  "starts_with prefix line = (take (length prefix) line = prefix)"

end
