(* ===== verification/Global_State.thy ===== *)
theory Global_State
  imports Containers Text_Parsing
begin

text \<open>
  The data types of \<open>deadlock_resolver.h\<close> and \<open>helpers.h\<close>, and the global variables of
  \<open>global_state.cpp\<close> (and \<open>is_resolving\<close> of \<open>main.cpp\<close>) as one record. Its last field, \<open>trace\<close>, is not a variable of the
  program: it is the list of the system calls made so far with their results, newest first, and
  all that the operating system's next answer can depend on (see \<open>Os_Calls\<close>).
  The mutexes protect single-threaded code here and are left out; \<open>shadow_processes\<close>,
  \<open>resolution_history\<close> and the output streams are declared by the source and never used.
\<close>

type_synonym time = nat

datatype user_regs = User_Regs (orig_rax: "64 word") (rdi: "64 word") (rsi: "64 word") (rip: "64 word")

record MemoryRegion =
  region_start :: addr
  region_end :: addr
  perms :: string
  region_name :: string

record ConflictGroup =
  group_id :: nat
  threads :: "string uset"
  locks_held :: "addr uset"
  locks_wanted :: "addr uset"
  conflicting_groups :: "nat uset"

record GroupResolution =
  res_group_id :: nat
  res_threads :: "string uset"
  held_locks :: "addr uset"
  wanted_locks :: "addr uset"
  res_conflicting_groups :: "nat uset"
  selected_victim :: string
  victim_tid :: pid

record GroupDeadlockInfo =
  group_cycle :: "nat list"
  thread_cycle :: "string list"
  group_involved_locks :: "addr list"
  group_resolutions :: "GroupResolution list"

text \<open>\<open>avg_wait_time_ns\<close> is a \<open>double\<close> that is only ever set to 0; it is left out.\<close>

record LockStats =
  lock_address :: addr
  current_owner :: string
  total_acquisitions :: "64 word"
  waiters_count :: nat
  waiting_threads :: "string list"
  first_seen_time :: time
  last_acquire_time :: time

record DeadlockInfo =
  cycle :: "string list"
  involved_locks :: "addr list"
  detection_time :: time
  deadlock_id :: "64 word"
  resolved :: bool

record ThreadInfo =
  info_tid :: pid
  info_name :: string
  info_pid :: pid

text \<open>
  The calls to the operating system that the program makes, with what they return. An error
  number of 0 is success.
\<close>

datatype ptrace_request =
    PTRACE_ATTACH | PTRACE_DETACH int | PTRACE_CONT | PTRACE_SYSCALL
  | PTRACE_SETOPTIONS nat | PTRACE_INTERRUPT | PTRACE_SETREGS user_regs
  | PTRACE_POKEDATA addr "64 word"

datatype protection = Prot_none | Prot_read | Prot_read_write

datatype event =
    Ptrace ptrace_request pid int
  | Getregs pid "user_regs option"
  | Peekdata pid addr "64 word option"
  | Kill pid int int
  | Tgkill pid pid int int
  | Waitpid pid int "pid \<times> int"
  | Fork pid
  | Usleep nat
  | Read_file string "string option"
  | List_dir string "string list option"
  | Access string bool
  | Vm_readv pid addr "32 word option"
  | Vm_writev pid addr "32 word" bool
  | Pread string addr "32 word option option"
  | Pwrite string addr "32 word" "bool option"
  | Futex_wake addr
  | Steady_clock time
  | System_clock time
  | Write_file string string bool
  | System string
  | Open string bool
  | Setsid
  | Close int
  | Unlink string
  | Sigaction bool
  | Mprotect addr protection bool
  | Mmap_fixed addr bool
  | Store addr "32 word"
  | Load_page addr "8 word list"
  | Store_page addr "8 word list"

record gstate =
  target_pid :: pid
  thread_info_cache :: "(pid, ThreadInfo) umap"
  world_stopped :: bool
  monitoring_active :: bool
  g_protected_regions :: "MemoryRegion list"
  futex_waiters :: "(addr, string list) umap"
  wait_start_times :: "(string, (addr, time) umap) umap"
  waits_for :: "(string, string uset) umap"
  thread_locks :: "(string, addr uset) umap"
  lock_owners :: "(addr, string) umap"
  lock_stats :: "(addr, LockStats) umap"
  detected_deadlocks :: "DeadlockInfo list"
  deadlock_counter :: "64 word"
  is_resolving :: bool
  trace :: "event list"

type_synonym 'a prog = "(gstate, 'a) state"

text \<open>The initial values of the globals.\<close>

definition initial_state :: gstate where
  "initial_state = \<lparr>target_pid = 0, thread_info_cache = [], world_stopped = False,
     monitoring_active = True, g_protected_regions = [], futex_waiters = [],
     wait_start_times = [], waits_for = [], thread_locks = [], lock_owners = [],
     lock_stats = [], detected_deadlocks = [], deadlock_counter = 0, is_resolving = False, trace = []\<rparr>"

text \<open>The threads that a thread waits for, and the locks that it holds.\<close>

abbreviation waits_of :: "gstate \<Rightarrow> string \<Rightarrow> string list" where
  "waits_of s t \<equiv> um_at [] (waits_for s) t"

abbreviation locks_of :: "gstate \<Rightarrow> string \<Rightarrow> addr list" where
  "locks_of s t \<equiv> um_at [] (thread_locks s) t"

abbreviation waiters_of :: "gstate \<Rightarrow> addr \<Rightarrow> string list" where
  "waiters_of s a \<equiv> um_at [] (futex_waiters s) a"

end
