(* ===== verification/Os_Calls.thy ===== *)
theory Os_Calls
  imports Global_State
begin

text \<open>
  The operating system is a parameter: a record of functions from the trace of all calls made so
  far to the answer to the next one. A theorem about every \<open>os\<close> therefore holds for every
  behaviour of the kernel, of the traced process and of the clock. Reading a file of \<open>/proc\<close>
  (\<open>fopen\<close>, the \<open>fgets\<close> loop, \<open>fclose\<close>) is one call that gives its whole text.

  \<open>env_frame\<close> is the contract between the calls and an invariant of the program's own
  variables: no call writes them.
\<close>

record os =
  os_ptrace :: "event list \<Rightarrow> ptrace_request \<Rightarrow> pid \<Rightarrow> int"
  os_getregs :: "event list \<Rightarrow> pid \<Rightarrow> user_regs option"
  os_peekdata :: "event list \<Rightarrow> pid \<Rightarrow> addr \<Rightarrow> 64 word option"
  os_kill :: "event list \<Rightarrow> pid \<Rightarrow> int \<Rightarrow> int"
  os_tgkill :: "event list \<Rightarrow> pid \<Rightarrow> pid \<Rightarrow> int \<Rightarrow> int"
  os_waitpid :: "event list \<Rightarrow> pid \<Rightarrow> int \<Rightarrow> pid \<times> int"
  os_fork :: "event list \<Rightarrow> pid"
  os_getpid :: "event list \<Rightarrow> pid"
  os_file :: "event list \<Rightarrow> string \<Rightarrow> string option"
  os_dir :: "event list \<Rightarrow> string \<Rightarrow> string list option"
  os_access :: "event list \<Rightarrow> string \<Rightarrow> bool"
  os_vm_readv :: "event list \<Rightarrow> pid \<Rightarrow> addr \<Rightarrow> 32 word option"
  os_vm_writev :: "event list \<Rightarrow> pid \<Rightarrow> addr \<Rightarrow> 32 word \<Rightarrow> bool"
  os_pread :: "event list \<Rightarrow> string \<Rightarrow> addr \<Rightarrow> 32 word option option"
  os_pwrite :: "event list \<Rightarrow> string \<Rightarrow> addr \<Rightarrow> 32 word \<Rightarrow> bool option"
  os_steady_clock :: "event list \<Rightarrow> time"
  os_system_clock :: "event list \<Rightarrow> time"
  os_random :: "event list \<Rightarrow> nat"
  os_create :: "event list \<Rightarrow> string \<Rightarrow> bool"
  os_open :: "event list \<Rightarrow> string \<Rightarrow> bool"
  os_interrupted :: "event list \<Rightarrow> bool"
  os_page_size :: "64 word"
  os_sigaction :: "event list \<Rightarrow> bool"
  os_mprotect :: "event list \<Rightarrow> addr \<Rightarrow> protection \<Rightarrow> bool"
  os_mmap :: "event list \<Rightarrow> addr \<Rightarrow> bool"
  os_page :: "event list \<Rightarrow> addr \<Rightarrow> 8 word list"

definition call :: "(event list \<Rightarrow> 'r) \<Rightarrow> ('r \<Rightarrow> event) \<Rightarrow> 'r prog" where
  "call answer ev =
     State (\<lambda>s. let r = answer (trace s) in (r, s\<lparr>trace := ev r # trace s\<rparr>))"

lemma run_call: "run_state (call answer ev) s
    = (answer (trace s), s\<lparr>trace := ev (answer (trace s)) # trace s\<rparr>)"
  by (simp add: call_def Let_def)

definition ptrace :: "os \<Rightarrow> ptrace_request \<Rightarrow> pid \<Rightarrow> int prog" where
  "ptrace os r p = call (\<lambda>tr. os_ptrace os tr r p) (Ptrace r p)"

definition ptrace_getregs :: "os \<Rightarrow> pid \<Rightarrow> user_regs option prog" where
  "ptrace_getregs os p = call (\<lambda>tr. os_getregs os tr p) (Getregs p)"

definition ptrace_peekdata :: "os \<Rightarrow> pid \<Rightarrow> addr \<Rightarrow> 64 word option prog" where
  "ptrace_peekdata os p a = call (\<lambda>tr. os_peekdata os tr p a) (Peekdata p a)"

definition kill :: "os \<Rightarrow> pid \<Rightarrow> int \<Rightarrow> int prog" where
  "kill os p sig = call (\<lambda>tr. os_kill os tr p sig) (Kill p sig)"

definition tgkill :: "os \<Rightarrow> pid \<Rightarrow> pid \<Rightarrow> int \<Rightarrow> int prog" where
  "tgkill os g p sig = call (\<lambda>tr. os_tgkill os tr g p sig) (Tgkill g p sig)"

definition waitpid :: "os \<Rightarrow> pid \<Rightarrow> int \<Rightarrow> (pid \<times> int) prog" where
  "waitpid os p opts = call (\<lambda>tr. os_waitpid os tr p opts) (Waitpid p opts)"

definition fork :: "os \<Rightarrow> pid prog" where
  "fork os = call (os_fork os) Fork"

definition getpid :: "os \<Rightarrow> pid prog" where
  "getpid os = gets (\<lambda>s. os_getpid os (trace s))"

definition usleep :: "nat \<Rightarrow> unit prog" where
  "usleep us = call (\<lambda>_. ()) (\<lambda>_. Usleep us)"

definition read_file :: "os \<Rightarrow> string \<Rightarrow> string option prog" where
  "read_file os path = call (\<lambda>tr. os_file os tr path) (Read_file path)"

definition list_dir :: "os \<Rightarrow> string \<Rightarrow> string list option prog" where
  "list_dir os path = call (\<lambda>tr. os_dir os tr path) (List_dir path)"

definition access :: "os \<Rightarrow> string \<Rightarrow> bool prog" where
  "access os path = call (\<lambda>tr. os_access os tr path) (Access path)"

definition process_vm_readv :: "os \<Rightarrow> pid \<Rightarrow> addr \<Rightarrow> 32 word option prog" where
  "process_vm_readv os p a = call (\<lambda>tr. os_vm_readv os tr p a) (Vm_readv p a)"

definition process_vm_writev :: "os \<Rightarrow> pid \<Rightarrow> addr \<Rightarrow> 32 word \<Rightarrow> bool prog" where
  "process_vm_writev os p a v = call (\<lambda>tr. os_vm_writev os tr p a v) (Vm_writev p a v)"

text \<open>\<open>open\<close>, \<open>pread\<close> or \<open>pwrite\<close> of four bytes, \<open>close\<close>: \<open>None\<close> when \<open>open\<close> fails.\<close>

definition pread :: "os \<Rightarrow> string \<Rightarrow> addr \<Rightarrow> 32 word option option prog" where
  "pread os path a = call (\<lambda>tr. os_pread os tr path a) (Pread path a)"

definition pwrite :: "os \<Rightarrow> string \<Rightarrow> addr \<Rightarrow> 32 word \<Rightarrow> bool option prog" where
  "pwrite os path a v = call (\<lambda>tr. os_pwrite os tr path a v) (Pwrite path a v)"

definition futex_wake :: "addr \<Rightarrow> unit prog" where
  "futex_wake a = call (\<lambda>_. ()) (\<lambda>_. Futex_wake a)"

definition steady_clock_now :: "os \<Rightarrow> time prog" where
  "steady_clock_now os = call (os_steady_clock os) Steady_clock"

definition system_clock_now :: "os \<Rightarrow> time prog" where
  "system_clock_now os = call (os_system_clock os) System_clock"

text \<open>\<open>std::ofstream\<close> on a path, and all that is written to it.\<close>

definition write_file :: "os \<Rightarrow> string \<Rightarrow> string \<Rightarrow> bool prog" where
  "write_file os path content = call (\<lambda>tr. os_create os tr path) (Write_file path content)"

text \<open>\<open>open\<close> for reading and writing, where several writes follow.\<close>

definition open_rw :: "os \<Rightarrow> string \<Rightarrow> bool prog" where
  "open_rw os path = call (\<lambda>tr. os_open os tr path) (Open path)"

text \<open>The calls for the program's own pages: the handler of \<open>SIGSEGV\<close>, the protection of one page, a fresh page
in place of an old one, and a page's content.\<close>

definition sigaction_segv :: "os \<Rightarrow> bool prog" where
  "sigaction_segv os = call (os_sigaction os) Sigaction"

definition mprotect :: "os \<Rightarrow> addr \<Rightarrow> protection \<Rightarrow> bool prog" where
  "mprotect os page prot = call (\<lambda>tr. os_mprotect os tr page prot) (Mprotect page prot)"

definition mmap_fixed :: "os \<Rightarrow> addr \<Rightarrow> bool prog" where
  "mmap_fixed os page = call (\<lambda>tr. os_mmap os tr page) (Mmap_fixed page)"

definition load_page :: "os \<Rightarrow> addr \<Rightarrow> 8 word list prog" where
  "load_page os page = call (\<lambda>tr. os_page os tr page) (Load_page page)"

text \<open>Calls whose result the program does not use.\<close>

definition emit :: "event \<Rightarrow> unit prog" where
  "emit ev = call (\<lambda>_. ()) (\<lambda>_. ev)"

text \<open>Whether a signal handler has set \<open>should_exit\<close>, which can happen between any two calls.\<close>

definition interrupted :: "os \<Rightarrow> bool prog" where
  "interrupted os = gets (\<lambda>s. os_interrupted os (trace s))"

text \<open>A draw of \<open>std::uniform_int_distribution(lo, hi)\<close>: some number of the closed interval.\<close>

definition uniform_int :: "os \<Rightarrow> int \<Rightarrow> int \<Rightarrow> int prog" where
  "uniform_int os lo hi = gets (\<lambda>s. lo + int (os_random os (trace s)) mod (hi - lo + 1))"

lemmas os_call_defs = ptrace_def ptrace_getregs_def ptrace_peekdata_def kill_def tgkill_def
  waitpid_def fork_def usleep_def read_file_def list_dir_def access_def process_vm_readv_def
  process_vm_writev_def pread_def pwrite_def futex_wake_def steady_clock_now_def
  system_clock_now_def write_file_def open_rw_def emit_def
  sigaction_segv_def mprotect_def mmap_fixed_def load_page_def

text \<open>The constants of the Linux interface.\<close>

abbreviation SIGKILL :: int where "SIGKILL \<equiv> 9"
abbreviation SIGCONT :: int where "SIGCONT \<equiv> 18"
abbreviation SIGSTOP :: int where "SIGSTOP \<equiv> 19"
abbreviation EPERM :: int where "EPERM \<equiv> 1"
abbreviation ESRCH :: int where "ESRCH \<equiv> 3"

text \<open>An operating system on which every call fails: it starts the examples.\<close>

definition dead_os :: os where
  "dead_os = \<lparr>os_ptrace = \<lambda>_ _ _. ESRCH, os_getregs = \<lambda>_ _. None, os_peekdata = \<lambda>_ _ _. None,
     os_kill = \<lambda>_ _ _. ESRCH, os_tgkill = \<lambda>_ _ _ _. ESRCH, os_waitpid = \<lambda>_ _ _. (- 1, 0),
     os_fork = \<lambda>_. - 1, os_getpid = \<lambda>_. 100, os_file = \<lambda>_ _. None, os_dir = \<lambda>_ _. None,
     os_access = \<lambda>_ _. False, os_vm_readv = \<lambda>_ _ _. None, os_vm_writev = \<lambda>_ _ _ _. False,
     os_pread = \<lambda>_ _ _. None, os_pwrite = \<lambda>_ _ _ _. None, os_steady_clock = length,
     os_system_clock = length, os_random = length, os_create = \<lambda>_ _. False, os_open = \<lambda>_ _. False,
     os_interrupted = \<lambda>_. False, os_page_size = 4096, os_sigaction = \<lambda>_. False,
     os_mprotect = \<lambda>_ _ _. False, os_mmap = \<lambda>_ _. False, os_page = \<lambda>_ _. []\<rparr>"


subsection \<open>Calls leave the program's variables alone\<close>

locale env_frame =
  fixes I :: "gstate \<Rightarrow> bool"
  assumes frame: "I (s\<lparr>trace := t\<rparr>) = I s"
begin

lemma call_keeps: "preserves I (call answer ev)"
  by (rule preservesI) (simp add: run_call frame)

lemma calls_keep [keeps]:
  "preserves I (ptrace os r p)" "preserves I (ptrace_getregs os p)"
  "preserves I (ptrace_peekdata os p a)" "preserves I (kill os p sig)"
  "preserves I (tgkill os g p sig)" "preserves I (waitpid os p opts)" "preserves I (fork os)"
  "preserves I (usleep us)" "preserves I (read_file os path)" "preserves I (list_dir os path)"
  "preserves I (access os path)" "preserves I (process_vm_readv os p a)"
  "preserves I (process_vm_writev os p a v)" "preserves I (pread os path a)"
  "preserves I (pwrite os path a v)" "preserves I (futex_wake a)"
  "preserves I (steady_clock_now os)" "preserves I (system_clock_now os)"
  "preserves I (write_file os path content)" "preserves I (open_rw os path)" "preserves I (emit ev)"
  "preserves I (sigaction_segv os)" "preserves I (mprotect os page prot)" "preserves I (mmap_fixed os page)"
  "preserves I (load_page os page)"
  by (simp_all add: os_call_defs call_keeps)

lemma getpid_keeps [keeps]: "preserves I (getpid os)"
  by (simp add: getpid_def preserves_gets)

lemma uniform_int_keeps [keeps]: "preserves I (uniform_int os lo hi)"
  by (simp add: uniform_int_def preserves_gets)

lemma interrupted_keeps [keeps]: "preserves I (interrupted os)"
  by (simp add: interrupted_def preserves_gets)

end

text \<open>Every predicate of the variables alone meets the contract; here, the variables' values.\<close>

definition vars :: "gstate \<Rightarrow> gstate" where
  "vars s = s\<lparr>trace := []\<rparr>"

interpretation vars_frame: env_frame "\<lambda>s. vars s = v" for v
  by unfold_locales (simp add: vars_def)

lemma vars_fields [simp]:
  "target_pid (vars s) = target_pid s" "thread_info_cache (vars s) = thread_info_cache s"
  "world_stopped (vars s) = world_stopped s" "monitoring_active (vars s) = monitoring_active s"
  "futex_waiters (vars s) = futex_waiters s" "waits_for (vars s) = waits_for s"
  "thread_locks (vars s) = thread_locks s" "lock_owners (vars s) = lock_owners s"
  "lock_stats (vars s) = lock_stats s" "detected_deadlocks (vars s) = detected_deadlocks s"
  "deadlock_counter (vars s) = deadlock_counter s"
  by (simp_all add: vars_def)

lemma vars_eq_iff: "vars s = vars s' \<longleftrightarrow> (\<exists>t. s = s'\<lparr>trace := t\<rparr>)"
proof
  assume "vars s = vars s'"
  then have "s = s'\<lparr>trace := trace s\<rparr>" by (cases s; cases s') (simp add: vars_def)
  then show "\<exists>t. s = s'\<lparr>trace := t\<rparr>" ..
qed (auto simp: vars_def)

text \<open>Calls are only ever added to the trace.\<close>

definition grows :: "'a prog \<Rightarrow> bool" where
  "grows m \<longleftrightarrow> (\<forall>s. \<exists>new. trace (snd (run_state m s)) = new @ trace s)"

lemma growsD: "grows m \<Longrightarrow> \<exists>new. trace (snd (run_state m s)) = new @ trace s"
  by (simp add: grows_def)

lemma grows_call: "grows (call answer ev)"
  by (simp add: grows_def run_call)

lemma grows_bind: "grows m \<Longrightarrow> (\<And>x. grows (f x)) \<Longrightarrow> grows (State_Monad.bind m f)"
  unfolding grows_def
proof
  fix s
  assume m: "\<forall>s. \<exists>new. trace (snd (run_state m s)) = new @ trace s"
    and f: "\<And>x. \<forall>s. \<exists>new. trace (snd (run_state (f x) s)) = new @ trace s"
  obtain x s1 where r: "run_state m s = (x, s1)" by (metis prod.collapse)
  obtain new where "trace s1 = new @ trace s" using m r by (metis snd_conv)
  moreover obtain more where "trace (snd (run_state (f x) s1)) = more @ trace s1" using f by blast
  ultimately have "trace (snd (run_state (State_Monad.bind m f) s)) = (more @ new) @ trace s" using r by simp
  then show "\<exists>new. trace (snd (run_state (State_Monad.bind m f) s)) = new @ trace s" by blast
qed

lemma grows_steps:
  "grows (ret x)" "grows (gets g)" "(\<And>s. trace (h s) = trace s) \<Longrightarrow> grows (modify h)"
  "grows n \<Longrightarrow> grows k \<Longrightarrow> grows (if b then n else k)"
  "grows n \<Longrightarrow> (\<And>x. grows (p x)) \<Longrightarrow> grows (case_option n p v)"
  "(\<And>x y. grows (q x y)) \<Longrightarrow> grows (case_prod q w)"
  "(\<And>x. grows (i x)) \<Longrightarrow> (\<And>x. grows (j x)) \<Longrightarrow> grows (case_sum i j z)"
  by (simp_all add: grows_def split: option.split prod.split sum.split)

lemma grows_for_each: "(\<And>x. grows (f x)) \<Longrightarrow> grows (for_each xs f)"
  by (induction xs) (auto intro: grows_steps grows_bind)

lemma grows_for_acc: "(\<And>x b. grows (f x b)) \<Longrightarrow> grows (for_acc xs b f)"
  by (induction xs arbitrary: b) (auto intro: grows_steps grows_bind)

lemma grows_calls:
  "grows (ptrace os r p)" "grows (ptrace_getregs os p)"
  "grows (ptrace_peekdata os p a)" "grows (kill os p sig)"
  "grows (tgkill os q p sig)" "grows (waitpid os p opts)" "grows (fork os)"
  "grows (usleep us)" "grows (read_file os path)" "grows (list_dir os path)"
  "grows (access os path)" "grows (process_vm_readv os p a)"
  "grows (process_vm_writev os p a v)" "grows (pread os path a)"
  "grows (pwrite os path a v)" "grows (futex_wake a)"
  "grows (steady_clock_now os)" "grows (system_clock_now os)"
  "grows (write_file os path content)" "grows (open_rw os path)" "grows (emit ev)"
  "grows (sigaction_segv os)" "grows (mprotect os page prot)" "grows (mmap_fixed os page)" "grows (load_page os page)"
  "grows (getpid os)" "grows (uniform_int os lo hi)" "grows (interrupted os)"
  by (simp_all add: os_call_defs grows_call getpid_def uniform_int_def interrupted_def grows_steps)

lemmas grows_rules = grows_calls grows_bind grows_steps grows_for_each grows_for_acc

text \<open>A program that keeps the variables changes the trace only.\<close>

definition silent :: "'a prog \<Rightarrow> bool" where
  "silent m \<longleftrightarrow> (\<forall>v. preserves (\<lambda>s. vars s = v) m) \<and> grows m"

lemma silent_grows: "silent m \<Longrightarrow> grows m"
  by (simp add: silent_def)

lemma silentD: "silent m \<Longrightarrow> vars (snd (run_state m s)) = vars s"
  by (simp add: silent_def preserves_def valid_def)

lemma silent_run: "silent m \<Longrightarrow> \<exists>t. snd (run_state m s) = s\<lparr>trace := t\<rparr>"
  by (simp add: silentD flip: vars_eq_iff)

context env_frame
begin

lemma silent_keeps: "silent m \<Longrightarrow> preserves I m"
  by (rule preservesI) (metis silent_run frame)

end

lemma silent_calls:
  "silent (ptrace os r p)" "silent (ptrace_getregs os p)" "silent (ptrace_peekdata os p a)"
  "silent (kill os p sig)" "silent (tgkill os q p sig)" "silent (waitpid os p opts)"
  "silent (fork os)" "silent (usleep us)" "silent (read_file os path)" "silent (list_dir os path)"
  "silent (access os path)" "silent (process_vm_readv os p a)"
  "silent (process_vm_writev os p a v)" "silent (pread os path a)" "silent (pwrite os path a v)"
  "silent (futex_wake a)" "silent (steady_clock_now os)" "silent (system_clock_now os)"
  "silent (getpid os)" "silent (uniform_int os lo hi)"
  "silent (write_file os path content)" "silent (open_rw os path)" "silent (emit ev)" "silent (interrupted os)"
  "silent (sigaction_segv os)" "silent (mprotect os page prot)" "silent (mmap_fixed os page)" "silent (load_page os page)"
  by (simp_all add: silent_def vars_frame.calls_keep vars_frame.getpid_keeps vars_frame.uniform_int_keeps
      vars_frame.interrupted_keeps grows_calls)

lemma silent_steps:
  "silent (ret x)" "silent (gets f)"
  "silent m \<Longrightarrow> (\<And>a. silent (g a)) \<Longrightarrow> silent (State_Monad.bind m g)"
  "silent n \<Longrightarrow> silent k \<Longrightarrow> silent (if b then n else k)"
  "silent n \<Longrightarrow> (\<And>x. silent (h x)) \<Longrightarrow> silent (case_option n h v)"
  "(\<And>x y. silent (q x y)) \<Longrightarrow> silent (case_prod q w)"
  "(\<And>x. silent (e x)) \<Longrightarrow> silent (for_each xs e)"
  "(\<And>x b. silent (c x b)) \<Longrightarrow> silent (for_acc xs b0 c)"
  by (simp_all add: silent_def keeps grows_rules)

lemmas silent_rules = silent_calls silent_steps

text \<open>\<open>runs_from v m Q\<close>: a run of \<open>m\<close> with the variables \<open>v\<close> ends with a result and variables that
satisfy \<open>Q\<close>. Silent steps are skipped.\<close>

definition runs_from :: "gstate \<Rightarrow> 'a prog \<Rightarrow> ('a \<Rightarrow> gstate \<Rightarrow> bool) \<Rightarrow> bool" where
  "runs_from v m Q \<longleftrightarrow> valid (\<lambda>s. vars s = v) m (\<lambda>r s. Q r (vars s))"

lemma runs_fromD: "runs_from (vars s) m Q \<Longrightarrow> run_state m s = (r, s') \<Longrightarrow> Q r (vars s')"
  unfolding runs_from_def by (drule validD [where s = s]) simp_all

lemma runs_ret: "Q x v \<Longrightarrow> runs_from v (ret x) Q"
  by (simp add: runs_from_def valid_def)

lemma runs_silent:
  assumes "silent m" "returns R m" "\<And>x. R x \<Longrightarrow> runs_from v (f x) Q"
  shows "runs_from v (State_Monad.bind m f) Q"
  unfolding runs_from_def
proof (rule valid_bind)
  show "valid (\<lambda>s. vars s = v) m (\<lambda>x s. R x \<and> vars s = v)"
    using assms(1,2) by (auto simp: valid_def returns_def dest: silentD)
  show "valid (\<lambda>s. R x \<and> vars s = v) (f x) (\<lambda>r s. Q r (vars s))" for x
    using assms(3) [of x] by (auto simp: runs_from_def valid_def)
qed

lemma runs_skip:
  assumes "silent m" "\<And>x. runs_from v (f x) Q"
  shows "runs_from v (State_Monad.bind m f) Q"
  by (rule runs_silent [where R = "\<lambda>_. True"]) (simp_all add: assms returns_def)

lemma runs_last:
  assumes "silent m" "returns R m" "\<And>x. R x \<Longrightarrow> Q x v"
  shows "runs_from v m Q"
  unfolding runs_from_def
proof (rule validI)
  fix s assume "vars s = v"
  then show "Q (fst (run_state m s)) (vars (snd (run_state m s)))"
    using silentD [OF assms(1), of s] returnsD [OF assms(2), of s] assms(3) by simp
qed

lemma runs_modify:
  assumes g: "\<And>s. vars (g s) = vars (g (vars s))"
    and f: "runs_from (vars (g v)) (f ()) Q"
  shows "runs_from v (State_Monad.bind (modify g) f) Q"
  unfolding runs_from_def
proof (rule validI)
  fix s assume "vars s = v"
  then have "vars (g s) = vars (g v)" using g [of s] by simp
  then show "Q (fst (run_state (State_Monad.bind (modify g) f) s)) (vars (snd (run_state (State_Monad.bind (modify g) f) s)))"
    using validD [OF f [unfolded runs_from_def], of "g s"] by simp
qed

lemma runs_weaken: "runs_from v m Q \<Longrightarrow> (\<And>r v'. Q r v' \<Longrightarrow> Q' r v') \<Longrightarrow> runs_from v m Q'"
  unfolding runs_from_def valid_def by blast

subsection \<open>Counting calls\<close>

text \<open>\<open>costs P n m\<close>: a run of \<open>m\<close> makes at most \<open>n\<close> calls that satisfy \<open>P\<close>. With \<open>n = 0\<close> it makes
  none.\<close>

definition calls_made :: "(event \<Rightarrow> bool) \<Rightarrow> gstate \<Rightarrow> nat" where
  "calls_made P s = length (filter P (trace s))"

definition costs :: "(event \<Rightarrow> bool) \<Rightarrow> nat \<Rightarrow> 'a prog \<Rightarrow> bool" where
  "costs P n m \<longleftrightarrow> (\<forall>s. calls_made P (snd (run_state m s)) \<le> calls_made P s + n)"

lemma costsD: "costs P n m \<Longrightarrow> calls_made P (snd (run_state m s)) \<le> calls_made P s + n"
  by (simp add: costs_def)

lemma costs_weaken: "costs P n m \<Longrightarrow> n \<le> n' \<Longrightarrow> costs P n' m"
  unfolding costs_def by (meson add_left_mono le_trans)

lemma costs_ret: "costs P 0 (ret x)"
  by (simp add: costs_def)

lemma costs_gets: "costs P 0 (gets f)"
  by (simp add: costs_def)

lemma costs_modify: "(\<And>s. trace (f s) = trace s) \<Longrightarrow> costs P 0 (modify f)"
  by (simp add: costs_def calls_made_def)

lemma costs_bind: "costs P a m \<Longrightarrow> (\<And>x. costs P b (f x)) \<Longrightarrow> costs P (a + b) (State_Monad.bind m f)"
  unfolding costs_def
proof
  fix s
  assume m: "\<forall>s. calls_made P (snd (run_state m s)) \<le> calls_made P s + a"
    and f: "\<And>x. \<forall>s. calls_made P (snd (run_state (f x) s)) \<le> calls_made P s + b"
  obtain x s' where r: "run_state m s = (x, s')" by (cases "run_state m s")
  have "calls_made P (snd (run_state (f x) s')) \<le> calls_made P s' + b" using f by blast
  also have "calls_made P s' \<le> calls_made P s + a" using m r by (metis snd_conv)
  finally show "calls_made P (snd (run_state (State_Monad.bind m f) s)) \<le> calls_made P s + (a + b)"
    by (simp add: r)
qed

lemma costs_step:
  assumes "returns R m" "costs P a m" "\<And>x. R x \<Longrightarrow> costs P b (f x)"
  shows "costs P (a + b) (State_Monad.bind m f)"
  unfolding costs_def
proof
  fix s
  obtain x s' where r: "run_state m s = (x, s')" by (cases "run_state m s")
  have "R x" using returnsD [OF assms(1), of s] r by simp
  then have "calls_made P (snd (run_state (f x) s')) \<le> calls_made P s' + b"
    using assms(3) by (blast intro: costsD)
  also have "calls_made P s' \<le> calls_made P s + a" using costsD [OF assms(2), of s] r by simp
  finally show "calls_made P (snd (run_state (State_Monad.bind m f) s)) \<le> calls_made P s + (a + b)"
    by (simp add: r)
qed

lemma costs_if: "costs P a m \<Longrightarrow> costs P b n \<Longrightarrow> costs P (max a b) (if c then m else n)"
  using costs_weaken [of P a m "max a b"] costs_weaken [of P b n "max a b"] by simp

lemma costs_option:
  assumes "costs P a m" and "\<And>x. costs P b (f x)"
  shows "costs P (max a b) (case_option m f v)"
proof (cases v)
  case None
  then show ?thesis using costs_weaken [OF assms(1), of "max a b"] by simp
next
  case (Some x)
  then show ?thesis using costs_weaken [OF assms(2), of "max a b" x] by simp
qed

lemma costs_prod: "(\<And>x y. costs P a (f x y)) \<Longrightarrow> costs P a (case_prod f v)"
  by (cases v) simp

lemma costs_call1: "costs P 1 (call answer ev)"
  by (simp add: costs_def calls_made_def run_call)

lemma costs_call0: "(\<And>r. \<not> P (ev r)) \<Longrightarrow> costs P 0 (call answer ev)"
  by (simp add: costs_def calls_made_def run_call)

lemma costs_for_each: "(\<And>x. x \<in> set xs \<Longrightarrow> costs P n (f x)) \<Longrightarrow> costs P (length xs * n) (for_each xs f)"
proof (induction xs)
  case (Cons x xs)
  have "costs P (n + length xs * n) (for_each (x # xs) f)"
    using Cons by (simp add: costs_bind)
  then show ?case by simp
qed (simp add: costs_ret)

lemma costs_for_acc:
  "(\<And>x b. x \<in> set xs \<Longrightarrow> costs P n (f x b)) \<Longrightarrow> costs P (length xs * n) (for_acc xs b f)"
proof (induction xs arbitrary: b)
  case (Cons x xs)
  have "costs P (n + length xs * n) (for_acc (x # xs) b f)"
    using Cons by (simp add: costs_bind)
  then show ?case by simp
qed (simp add: costs_ret)

lemma call_costs:
  "costs P 1 (ptrace os r p)" "costs P 1 (ptrace_getregs os p)" "costs P 1 (ptrace_peekdata os p a)"
  "costs P 1 (kill os p sig)" "costs P 1 (tgkill os p q sig)" "costs P 1 (waitpid os p opts)"
  "costs P 1 (fork os)" "costs P 1 (usleep us)" "costs P 1 (read_file os path)"
  "costs P 1 (list_dir os path)" "costs P 1 (access os path)" "costs P 1 (process_vm_readv os p a)"
  "costs P 1 (process_vm_writev os p a v)" "costs P 1 (pread os path a)"
  "costs P 1 (pwrite os path a v)" "costs P 1 (futex_wake a)" "costs P 1 (steady_clock_now os)"
  "costs P 1 (system_clock_now os)" "costs P 1 (write_file os path content)" "costs P 1 (open_rw os path)" "costs P 1 (emit ev)"
  "costs P 1 (sigaction_segv os)" "costs P 1 (mprotect os page prot)" "costs P 1 (mmap_fixed os page)"
  "costs P 1 (load_page os page)"
  by (simp_all add: os_call_defs costs_call1 [unfolded One_nat_def])

text \<open>Calls of another kind than those counted are free.\<close>

lemma call_free:
  "(\<And>x. \<not> P (Ptrace r p x)) \<Longrightarrow> costs P 0 (ptrace os r p)"
  "(\<And>x. \<not> P (Waitpid p opts x)) \<Longrightarrow> costs P 0 (waitpid os p opts)"
  "(\<And>x. \<not> P (Kill p sig x)) \<Longrightarrow> costs P 0 (kill os p sig)"
  "\<not> P (Usleep us) \<Longrightarrow> costs P 0 (usleep us)"
  "(\<And>x. \<not> P (Read_file path x)) \<Longrightarrow> costs P 0 (read_file os path)"
  "(\<And>x. \<not> P (List_dir path x)) \<Longrightarrow> costs P 0 (list_dir os path)"
  "(\<And>x. \<not> P (Access path x)) \<Longrightarrow> costs P 0 (access os path)"
  "(\<And>x. \<not> P (Vm_readv p a x)) \<Longrightarrow> costs P 0 (process_vm_readv os p a)"
  "(\<And>x. \<not> P (Vm_writev p a v x)) \<Longrightarrow> costs P 0 (process_vm_writev os p a v)"
  "(\<And>x. \<not> P (Pread path a x)) \<Longrightarrow> costs P 0 (pread os path a)"
  "(\<And>x. \<not> P (Pwrite path a v x)) \<Longrightarrow> costs P 0 (pwrite os path a v)"
  "\<not> P (Futex_wake a) \<Longrightarrow> costs P 0 (futex_wake a)"
  "(\<And>x. \<not> P (Steady_clock x)) \<Longrightarrow> costs P 0 (steady_clock_now os)"
  "(\<And>x. \<not> P (System_clock x)) \<Longrightarrow> costs P 0 (system_clock_now os)"
  by (simp_all add: os_call_defs costs_call0)

lemma costs_getpid: "costs P 0 (getpid os)"
  by (simp add: getpid_def costs_gets)

lemma uniform_int_range:
  assumes "lo \<le> hi"
  shows "returns (\<lambda>r. lo \<le> r \<and> r \<le> hi) (uniform_int os lo hi)"
proof -
  have "int k mod (hi - lo + 1) \<le> hi - lo" for k
    using pos_mod_bound [of "hi - lo + 1" "int k"] assms by linarith
  then show ?thesis
    using assms by (simp add: returns_def uniform_int_def algebra_simps)
qed

lemmas costs_rules = costs_ret costs_gets costs_bind costs_if costs_option costs_prod costs_getpid

end
