(* ===== verification/Helpers.thy ===== *)
theory Helpers
  imports Os_Calls
begin

text \<open>
  \<open>helpers.cpp\<close>: thread names and identifiers, the address filter, and what is read from
  \<open>/proc\<close>. The word-wise memory access through ptrace and the parser of \<open>/proc/pid/maps\<close>
  have theories of their own, \<open>Process_Memory\<close> and \<open>Process_Maps\<close>.
\<close>

subsection \<open>Formatting and filtering addresses\<close>

text \<open>
  The program has two external functions \<open>to_hex_string(uint64_t)\<close>: the stream version of
  \<open>helpers.cpp\<close> and the \<open>snprintf\<close> version of \<open>futex_unlocker.h\<close>.
\<close>

definition to_hex_string :: "addr \<Rightarrow> string" where
  "to_hex_string value = ''0x'' @ map digit_char (digits_of 16 (unat value))"

definition to_hex_string_padded :: "addr \<Rightarrow> string" where
  "to_hex_string_padded addr =
     (let ds = map digit_char (digits_of 16 (unat addr))
      in ''0x'' @ replicate (16 - length ds) (CHR ''0'') @ ds)"

definition hex_value :: "string \<Rightarrow> nat" where
  "hex_value s = digits_value 16 (map char_digit s)"

definition junk_addr :: "addr \<Rightarrow> bool" where
  "junk_addr addr =
     (if addr = 0 then True
      else if addr < 0x10000 then True
      else if addr > 0x7fffffffffff then True
      else False)"

lemma junk_addr_iff: "junk_addr a \<longleftrightarrow> unat a < 65536 \<or> 140737488355327 < unat a"
  by (auto simp: junk_addr_def word_less_nat_alt unat_eq_0)

lemma hex_value_digits: "hex_value (map digit_char (digits_of 16 n)) = n"
proof -
  have "map char_digit (map digit_char (digits_of 16 n)) = digits_of 16 n"
    by (intro map_char_digit) (simp add: digits_of_bound)
  then show ?thesis by (simp add: hex_value_def digits_value_of)
qed

lemma hex_value_zeros: "hex_value (replicate k (CHR ''0'') @ s) = hex_value s"
proof -
  have "foldl (\<lambda>a d. 16 * a + d) 0 (replicate k (0::nat)) = 0" by (induction k) simp_all
  then show ?thesis
    by (simp add: hex_value_def digits_value_def char_digit_def)
qed

subsection \<open>Thread names and identifiers\<close>

definition comm_name :: "string option \<Rightarrow> string" where
  "comm_name content =
     (case content of None \<Rightarrow> []
      | Some text \<Rightarrow> filter (\<lambda>c. c \<noteq> CHR 0x0A \<and> c \<noteq> CHR 0x0D) (fst (fgets 255 text)))"

definition get_thread_name :: "os \<Rightarrow> pid \<Rightarrow> string prog" where
  "get_thread_name os tid = do {
     cached \<leftarrow> gets (\<lambda>s. um_find (thread_info_cache s) tid);
     case cached of
       Some info \<Rightarrow> ret (info_name info)
     | None \<Rightarrow> do {
         comm \<leftarrow> read_file os (''/proc/'' @ to_string tid @ ''/comm'');
         target \<leftarrow> gets target_pid;
         name \<leftarrow> (if comm_name comm = [] \<and> target > 0
           then do {
             comm2 \<leftarrow> read_file os
               (''/proc/'' @ to_string target @ ''/task/'' @ to_string tid @ ''/comm'');
             ret (comm_name comm2)
           } else ret (comm_name comm));
         (let thread_name = (if name = [] then ''thread-'' @ to_string tid else name)
          in do {
            modify (\<lambda>s. s\<lparr>thread_info_cache :=
              um_put tid \<lparr>info_tid = tid, info_name = thread_name, info_pid = target\<rparr>
                (thread_info_cache s)\<rparr>);
            ret thread_name
          })
       }
   }"

definition thread_identifier :: "string \<Rightarrow> pid \<Rightarrow> string" where
  "thread_identifier name tid = name @ ''['' @ to_string tid @ '']''"

definition get_thread_identifier :: "os \<Rightarrow> pid \<Rightarrow> string prog" where
  "get_thread_identifier os tid = do {
     name \<leftarrow> get_thread_name os tid;
     ret (thread_identifier name tid)
   }"

text \<open>The count passed to \<open>substr\<close> is computed in \<open>size_t\<close> and wraps below 0.\<close>

definition extract_tid_from_identifier :: "string \<Rightarrow> fault + pid" where
  "extract_tid_from_identifier ident =
     (case (str_find (CHR ''['') ident, str_find (CHR '']'') ident) of
        (Some bracket_pos, Some end_bracket) \<Rightarrow>
          (case substr (bracket_pos + 1)
                  ((end_bracket + 18446744073709551616 - bracket_pos - 1) mod 18446744073709551616)
                  ident of
             Inl f \<Rightarrow> Inl f
           | Inr tid_str \<Rightarrow> stoi tid_str)
      | _ \<Rightarrow> Inr 0)"

text \<open>The text between the first brackets decides, whatever follows.\<close>

lemma extract_tid_between:
  assumes "CHR ''['' \<notin> set p" "CHR '']'' \<notin> set p" "CHR '']'' \<notin> set q"
    and "length q < 18446744073709551616"
  shows "extract_tid_from_identifier (p @ ''['' @ q @ '']'' @ r) = stoi q"
proof -
  have b: "str_find (CHR ''['') (p @ ''['' @ q @ '']'' @ r) = Some (length p)"
    using assms(1) by (simp add: str_find_append)
  have "str_find (CHR '']'') ((p @ ''['' @ q) @ CHR '']'' # r) = Some (length (p @ ''['' @ q))"
    using assms(2,3) by (intro str_find_append) auto
  then have e: "str_find (CHR '']'') (p @ ''['' @ q @ '']'' @ r) = Some (length p + Suc (length q))"
    by simp
  show ?thesis
    using assms(4) unfolding extract_tid_from_identifier_def b e by (simp add: substr_def)
qed

lemma length_digits_of: "length (digits_of 10 n) \<le> Suc n"
proof (induction "10::nat" n rule: digits_of.induct)
  case (1 n)
  then show ?case by (subst digits_of.simps) auto
qed

lemma length_to_string: "\<bar>i\<bar> \<le> 2147483648 \<Longrightarrow> length (to_string i) < 18446744073709551616"
  using length_digits_of [of "nat i"] length_digits_of [of "nat (- i)"]
  by (auto simp: to_string_def)

lemma extract_tid_identifier:
  assumes "CHR ''['' \<notin> set name" "CHR '']'' \<notin> set name"
    and "- 2147483648 \<le> tid" "tid \<le> 2147483647"
  shows "extract_tid_from_identifier (thread_identifier name tid) = Inr tid"
proof -
  have "extract_tid_from_identifier (name @ ''['' @ to_string tid @ '']'' @ []) = stoi (to_string tid)"
    using assms by (intro extract_tid_between) (auto simp: to_string_no_bracket intro: length_to_string)
  also have "\<dots> = Inr tid" using stoi_to_string [of tid "[]"] assms by simp
  finally show ?thesis by (simp add: thread_identifier_def)
qed

subsection \<open>Reading \<open>/proc\<close>\<close>

definition status_path :: "pid \<Rightarrow> string" where
  "status_path tid = ''/proc/'' @ to_string tid @ ''/status''"

text \<open>Two identifiers for the examples.\<close>

lemma small_numbers: "to_string 1 = ''1''" "to_string 2 = ''2''"
  by code_simp+

lemma sample_names: "''a[1]'' = thread_identifier ''a'' 1" "''b[2]'' = thread_identifier ''b'' 2"
  "status_path 1 = ''/proc/1/status''"
  by (simp_all add: thread_identifier_def status_path_def small_numbers)

lemma sample_ids:
  "extract_tid_from_identifier ''a[1]'' = Inr 1" "extract_tid_from_identifier ''b[2]'' = Inr 2"
  unfolding sample_names by (rule extract_tid_identifier; simp)+

definition thread_exists :: "os \<Rightarrow> pid \<Rightarrow> bool prog" where
  "thread_exists os tid = access os (status_path tid)"

text \<open>The first line with a given prefix decides, as the loops with an early return do.\<close>

definition first_line :: "string \<Rightarrow> string \<Rightarrow> string option" where
  "first_line prefix content = find (starts_with prefix) (fgets_lines 256 content)"

definition get_tracer_pid :: "os \<Rightarrow> pid \<Rightarrow> int prog" where
  "get_tracer_pid os tid = do {
     content \<leftarrow> read_file os (status_path tid);
     ret (case content of
            None \<Rightarrow> - 1
          | Some text \<Rightarrow> (case first_line ''TracerPid:'' text of
                None \<Rightarrow> - 1
              | Some line \<Rightarrow> atoi (drop 10 line)))
   }"

definition is_thread_stopped :: "os \<Rightarrow> pid \<Rightarrow> bool prog" where
  "is_thread_stopped os tid = do {
     content \<leftarrow> read_file os (status_path tid);
     ret (case content of
            None \<Rightarrow> False
          | Some text \<Rightarrow> (case first_line ''State:'' text of
                None \<Rightarrow> False
              | Some line \<Rightarrow> CHR ''T'' \<in> set line))
   }"

definition list_tids :: "string list option \<Rightarrow> pid list" where
  "list_tids dir =
     (case dir of None \<Rightarrow> []
      | Some names \<Rightarrow> map atoi (filter (\<lambda>n. case n of [] \<Rightarrow> True | c # _ \<Rightarrow> c \<noteq> CHR ''.'') names))"

definition list_threads :: "os \<Rightarrow> pid \<Rightarrow> pid list prog" where
  "list_threads os pid = do {
     dir \<leftarrow> list_dir os (''/proc/'' @ to_string pid @ ''/task'');
     ret (list_tids dir)
   }"

subsection \<open>Frames\<close>

text \<open>The readers of \<open>/proc\<close> change nothing; a name lookup may fill the name cache.\<close>

lemma silent_helpers [simp]:
  "silent (thread_exists os tid)" "silent (get_tracer_pid os tid)"
  "silent (is_thread_stopped os tid)" "silent (list_threads os p)"
  unfolding thread_exists_def get_tracer_pid_def is_thread_stopped_def list_threads_def
  by ((rule silent_rules)+)+

locale cache_frame = env_frame I for I +
  assumes cache: "I (s\<lparr>thread_info_cache := c\<rparr>) = I s"
begin

lemma get_thread_name_keeps [keeps]: "preserves I (get_thread_name os tid)"
  unfolding get_thread_name_def Let_def
  by (intro keeps preserves_modify) (simp_all add: cache)

lemma get_thread_identifier_keeps [keeps]: "preserves I (get_thread_identifier os tid)"
  unfolding get_thread_identifier_def by (intro keeps)

end

text \<open>All variables but the cache.\<close>

definition core :: "gstate \<Rightarrow> gstate" where
  "core s = s\<lparr>trace := [], thread_info_cache := []\<rparr>"

interpretation core_frame: cache_frame "\<lambda>s. core s = v" for v
  by unfold_locales (simp_all add: core_def)

lemma identifier_run:
  "\<exists>name. fst (run_state (get_thread_identifier os tid) s) = thread_identifier name tid
     \<and> core (snd (run_state (get_thread_identifier os tid) s)) = core s"
proof -
  have "core (snd (run_state (get_thread_identifier os tid) s)) = core s"
    using core_frame.get_thread_identifier_keeps [of "core s" os tid] by (auto dest: preservesD)
  moreover have "\<exists>name. fst (run_state (get_thread_identifier os tid) s) = thread_identifier name tid"
    by (auto simp: get_thread_identifier_def split: prod.splits)
  ultimately show ?thesis by blast
qed

text \<open>Once looked up, a thread keeps its identifier and no further call is made for it.\<close>

lemma get_thread_name_cached:
  "um_find (thread_info_cache s) tid = Some info \<Longrightarrow>
     run_state (get_thread_name os tid) s = (info_name info, s)"
  by (simp add: get_thread_name_def)

lemma get_thread_name_caches:
  "run_state (get_thread_name os tid) s = (name, s') \<Longrightarrow>
     \<exists>info. um_find (thread_info_cache s') tid = Some info \<and> info_name info = name"
  by (auto simp: get_thread_name_def os_call_defs run_call Let_def
        split: option.splits if_splits)

lemma get_thread_identifier_twice:
  assumes "run_state (get_thread_identifier os tid) s = (ident, s')"
  shows "run_state (get_thread_identifier os tid) s' = (ident, s')"
proof -
  from assms obtain name where n: "run_state (get_thread_name os tid) s = (name, s')"
    and i: "ident = thread_identifier name tid"
    by (auto simp: get_thread_identifier_def split: prod.splits)
  from n obtain info where "um_find (thread_info_cache s') tid = Some info" "info_name info = name"
    by (blast dest: get_thread_name_caches)
  then show ?thesis by (simp add: get_thread_identifier_def get_thread_name_cached i)
qed

subsection \<open>Properties\<close>

text \<open>C39: The number in the identifier that \<open>get_thread_identifier\<close> builds is read back by
\<open>extract_tid_from_identifier\<close>, for every \<open>pid_t\<close> and every thread name without brackets.\<close>

theorem identifier_roundtrip:
  assumes "CHR ''['' \<notin> set name" and "CHR '']'' \<notin> set name"
    and "- 2147483648 \<le> tid" and "tid \<le> 2147483647"
  shows "extract_tid_from_identifier (thread_identifier name tid) = Inr tid"
  by (rule extract_tid_identifier [OF assms])

theorem identifier_roundtrip_witness:
  "extract_tid_from_identifier (thread_identifier ''worker'' 4242) = Inr 4242"
  by (rule identifier_roundtrip) simp_all

text \<open>A thread may choose a name with brackets; then not the thread's number is read but what stands
between the first brackets, so another thread is taken for it or \<open>stoi\<close> throws.\<close>

theorem identifier_of_bracketed_name:
  assumes "CHR ''['' \<notin> set p" and "CHR '']'' \<notin> set p" and "CHR '']'' \<notin> set q"
    and "length q < 18446744073709551616"
  shows "extract_tid_from_identifier (thread_identifier (p @ ''['' @ q @ '']'' @ r) tid) = stoi q"
  using extract_tid_between [OF assms, of "r @ ''['' @ to_string tid @ '']''"]
  by (simp add: thread_identifier_def)

theorem identifier_of_bracketed_name_witness:
  "extract_tid_from_identifier (thread_identifier ''pool[io]'' 7) = Inl Invalid_argument"
proof -
  have "extract_tid_from_identifier (thread_identifier (''pool'' @ ''['' @ ''io'' @ '']'' @ []) 7) = stoi ''io''"
    by (rule identifier_of_bracketed_name) simp_all
  moreover have "stoi ''io'' = Inl Invalid_argument" by code_simp
  ultimately show ?thesis by simp
qed

lemma length_hex_digits: "n < 16 ^ Suc k \<Longrightarrow> length (digits_of 16 n) \<le> Suc k"
proof (induction k arbitrary: n)
  case 0
  then show ?case by (simp add: digits_of.simps [of 16 n])
next
  case (Suc k)
  then have "n div 16 < 16 ^ Suc k" by (simp add: less_mult_imp_div_less mult.commute)
  from Suc.IH [OF this] show ?case by (subst digits_of.simps) auto
qed

lemma length_hex_address: "length (digits_of 16 (unat (a :: addr))) \<le> 16"
  using length_hex_digits [of "unat a" 15] unsigned_less [of a, where 'a = nat] by simp

text \<open>The two functions with the name \<open>to_hex_string\<close> print every address so that it can be read back;
the one of \<open>futex_unlocker.h\<close> always prints sixteen digits.\<close>

theorem to_hex_string_decodes:
  "hex_value (drop 2 (to_hex_string a)) = unat a \<and> hex_value (drop 2 (to_hex_string_padded a)) = unat a
   \<and> length (to_hex_string_padded a) = 18"
  using length_hex_address [of a]
  by (simp add: to_hex_string_def to_hex_string_padded_def Let_def hex_value_digits hex_value_zeros)

text \<open>They disagree on every address below \<open>2 ^ 60\<close>, so which one the linker keeps is visible.\<close>

lemma to_hex_strings_differ: "to_hex_string 0x10000 \<noteq> to_hex_string_padded 0x10000"
proof -
  have "length (digits_of 16 65536) \<le> 5" using length_hex_digits [of 65536 4] by simp
  then have "length (to_hex_string 0x10000) \<le> 7" by (simp add: to_hex_string_def)
  moreover have "length (to_hex_string_padded 0x10000) = 18"
    using length_hex_address [of "0x10000"] by (simp add: to_hex_string_padded_def Let_def)
  ultimately show ?thesis by auto
qed

text \<open>A listing of \<open>/proc/pid/task\<close> gives back the thread numbers that the kernel put there, without
the entries \<open>.\<close> and \<open>..\<close>.\<close>

theorem list_tids_roundtrip:
  "list_tids (Some (''.'' # ''..'' # map to_string tids)) = tids"
proof -
  have "filter (\<lambda>n. case n of [] \<Rightarrow> True | c # _ \<Rightarrow> c \<noteq> CHR ''.'') (map to_string tids) = map to_string tids"
  proof (rule filter_True, rule ballI)
    fix n assume "n \<in> set (map to_string tids)"
    then obtain i where n: "n = to_string i" by auto
    show "case n of [] \<Rightarrow> True | c # _ \<Rightarrow> c \<noteq> CHR ''.''"
      using to_string_chars [of "CHR ''.''" i] by (auto simp: n is_digit_def split: list.splits)
  qed
  moreover have "map atoi (map to_string tids) = tids"
    using atoi_to_string [of "[]"] by (simp add: map_idI)
  ultimately show ?thesis by (simp add: list_tids_def)
qed

text \<open>Once a thread's identifier has been looked up, looking it up again gives the same identifier
without any system call and without any change of the state, whatever the thread has renamed
itself to.\<close>

theorem identifier_is_cached:
  assumes "run_state (get_thread_identifier os tid) s = (ident, s')"
  shows "run_state (get_thread_identifier os tid) s' = (ident, s')"
  by (rule get_thread_identifier_twice [OF assms])

theorem identifier_is_cached_witness:
  "\<exists>ident s'. run_state (get_thread_identifier dead_os 7) initial_state = (ident, s')
     \<and> run_state (get_thread_identifier dead_os 7) s' = (ident, s')"
proof -
  obtain ident s' where r: "run_state (get_thread_identifier dead_os 7) initial_state = (ident, s')"
    by (metis prod.collapse)
  with identifier_is_cached [OF r] show ?thesis by blast
qed

text \<open>An address is junk exactly when it lies in the first 64 KiB or above the user half of the
canonical addresses.\<close>

theorem junk_addr_range: "junk_addr a \<longleftrightarrow> unat a < 2 ^ 16 \<or> 2 ^ 47 \<le> unat a"
  by (simp add: junk_addr_iff) linarith

end
