(* ===== verification/Monitoring.thy ===== *)
theory Monitoring
  imports Helpers
begin

unbundle bit_operations_syntax

text \<open>
  \<open>monitoring.cpp\<close>: the handlers that turn the futex system calls of the traced threads into
  the lock tables and the wait-for graph. After the handlers comes the abstract monitor (\<open>amon\<close>):
  finite maps and sets instead of containers with an iteration order. Every handler refines one
  step of the abstract monitor; the invariants that the handlers keep are in \<open>Monitor_Invariants\<close>.
\<close>

subsection \<open>The handlers\<close>

definition stats_update :: "addr \<Rightarrow> string \<Rightarrow> time \<Rightarrow> gstate \<Rightarrow> gstate" where
  "stats_update addr new_owner system_now s =
     (let fw = um_adjust addr [] (\<lambda>w. w) (futex_waiters s);
          w = um_at [] fw addr
      in s\<lparr>futex_waiters := fw,
           lock_stats := um_put addr
             (case um_find (lock_stats s) addr of
                None \<Rightarrow> \<lparr>lock_address = addr, current_owner = new_owner, total_acquisitions = 1,
                  waiters_count = length w, waiting_threads = w, first_seen_time = system_now,
                  last_acquire_time = system_now\<rparr>
              | Some stats \<Rightarrow> stats\<lparr>current_owner := new_owner,
                  total_acquisitions := total_acquisitions stats + 1,
                  waiters_count := length w, waiting_threads := w,
                  last_acquire_time := system_now\<rparr>)
             (lock_stats s)\<rparr>)"

definition update_lock_stats :: "os \<Rightarrow> addr \<Rightarrow> string \<Rightarrow> unit prog" where
  "update_lock_stats os addr new_owner = do {
     now \<leftarrow> steady_clock_now os;
     system_now \<leftarrow> system_clock_now os;
     modify (stats_update addr new_owner system_now)
   }"

definition lock_update :: "string \<Rightarrow> addr \<Rightarrow> gstate \<Rightarrow> gstate" where
  "lock_update thread_name addr s = s\<lparr>
     lock_owners := um_put addr thread_name (lock_owners s),
     thread_locks := um_adjust thread_name [] (us_insert addr) (thread_locks s),
     waits_for := um_map_values (removeAll thread_name) (waits_for s),
     futex_waiters := um_map_values (removeAll thread_name) (futex_waiters s)\<rparr>"

definition on_lock :: "os \<Rightarrow> pid \<Rightarrow> addr \<Rightarrow> unit prog" where
  "on_lock os tid addr =
     (if junk_addr addr then ret ()
      else do {
        thread_name \<leftarrow> get_thread_identifier os tid;
        modify (lock_update thread_name addr);
        update_lock_stats os addr thread_name
      })"

text \<open>The edge that a wait adds to the graph, and the copy of the wait list in the statistics.\<close>

definition wait_edge :: "string \<Rightarrow> addr \<Rightarrow> gstate \<Rightarrow> gstate" where
  "wait_edge thread_name addr s =
     (case um_find (lock_owners s) addr of
        None \<Rightarrow> s
      | Some owner \<Rightarrow>
          if owner \<noteq> thread_name
          then s\<lparr>waits_for := um_adjust thread_name [] (us_insert owner) (waits_for s)\<rparr>
          else s)"

definition refresh_waiters :: "addr \<Rightarrow> gstate \<Rightarrow> gstate" where
  "refresh_waiters addr s =
     (case um_find (lock_stats s) addr of
        None \<Rightarrow> s
      | Some stats \<Rightarrow>
          (let w = um_at [] (futex_waiters s) addr
           in s\<lparr>lock_stats := um_put addr
                  (stats\<lparr>waiters_count := length w, waiting_threads := w\<rparr>) (lock_stats s)\<rparr>))"

definition on_wait :: "os \<Rightarrow> pid \<Rightarrow> addr \<Rightarrow> unit prog" where
  "on_wait os tid addr =
     (if junk_addr addr then ret ()
      else do {
        thread_name \<leftarrow> get_thread_identifier os tid;
        modify (\<lambda>s. s\<lparr>futex_waiters :=
          um_adjust addr [] (\<lambda>w. w @ [thread_name]) (futex_waiters s)\<rparr>);
        now \<leftarrow> steady_clock_now os;
        modify (\<lambda>s. s\<lparr>wait_start_times :=
          um_adjust thread_name [] (um_put addr now) (wait_start_times s)\<rparr>);
        modify (wait_edge thread_name addr);
        modify (refresh_waiters addr)
      })"

definition on_wake :: "os \<Rightarrow> pid \<Rightarrow> addr \<Rightarrow> unit prog" where
  "on_wake os tid addr = do {
     thread_name \<leftarrow> get_thread_identifier os tid;
     known \<leftarrow> gets (\<lambda>s. um_count (futex_waiters s) addr);
     if \<not> known then ret ()
     else do {
       modify (\<lambda>s. s\<lparr>futex_waiters := um_erase addr (futex_waiters s)\<rparr>);
       modify (\<lambda>s. case um_find (lock_stats s) addr of
           None \<Rightarrow> s
         | Some stats \<Rightarrow> s\<lparr>lock_stats := um_put addr
             (stats\<lparr>waiters_count := 0, waiting_threads := []\<rparr>) (lock_stats s)\<rparr>)
     }
   }"

text \<open>
  \<open>SYS_futex\<close> is 202 on x86-64. \<open>FUTEX_CMD_MASK\<close> clears the private and the clock flag
  (\<open>0x180\<close>); the result is truncated to \<open>int\<close>.
\<close>

definition futex_op :: "64 word \<Rightarrow> 32 word" where
  "futex_op op = ucast (op AND NOT 0x180)"

definition handle_syscall :: "os \<Rightarrow> pid \<Rightarrow> unit prog" where
  "handle_syscall os tid = do {
     regs \<leftarrow> ptrace_getregs os tid;
     case regs of
       None \<Rightarrow> ret ()
     | Some r \<Rightarrow>
         if orig_rax r = 202 then
           (let uaddr = rdi r; op = futex_op (rsi r)
            in if op = 0 then on_wait os tid uaddr
               else if op = 1 then do { on_wake os tid uaddr; on_lock os tid uaddr }
               else if op = 9 \<or> op = 10 then on_wait os tid uaddr
               else ret ())
         else ret ()
   }"

subsection \<open>The abstract monitor\<close>

record amon =
  a_owners :: "addr \<Rightarrow> string option"
  a_holds :: "string \<Rightarrow> addr set option"
  a_waits :: "string \<Rightarrow> string set option"
  a_waiters :: "addr \<Rightarrow> string list option"
  a_stats :: "addr \<Rightarrow> (string \<times> 64 word \<times> string list) option"

definition stats_view :: "LockStats \<Rightarrow> string \<times> 64 word \<times> string list" where
  "stats_view st = (current_owner st, total_acquisitions st, waiting_threads st)"

definition abs_mon :: "gstate \<Rightarrow> amon" where
  "abs_mon s = \<lparr>
     a_owners = um_find (lock_owners s),
     a_holds = (\<lambda>t. map_option set (um_find (thread_locks s) t)),
     a_waits = (\<lambda>t. map_option set (um_find (waits_for s) t)),
     a_waiters = um_find (futex_waiters s),
     a_stats = (\<lambda>a. map_option stats_view (um_find (lock_stats s) a))\<rparr>"

definition orElse :: "'a option \<Rightarrow> 'a \<Rightarrow> 'a" where
  "orElse v d = (case v of None \<Rightarrow> d | Some x \<Rightarrow> x)"

text \<open>Thread \<open>t\<close> becomes the owner of \<open>a\<close>, and stops being waited for and being a waiter.\<close>

definition a_lock :: "string \<Rightarrow> addr \<Rightarrow> amon \<Rightarrow> amon" where
  "a_lock t a m =
     (let ws = (\<lambda>b. map_option (removeAll t) (a_waiters m b)); w = orElse (ws a) []
      in m\<lparr>a_owners := (a_owners m)(a \<mapsto> t),
           a_holds := (a_holds m)(t \<mapsto> insert a (orElse (a_holds m t) {})),
           a_waits := (\<lambda>u. map_option (\<lambda>ts. ts - {t}) (a_waits m u)),
           a_waiters := ws(a \<mapsto> w),
           a_stats := (a_stats m)(a \<mapsto>
             (t, (case a_stats m a of None \<Rightarrow> 1 | Some (_, n, _) \<Rightarrow> n + 1), w))\<rparr>)"

text \<open>\<open>t\<close> queues on \<open>a\<close>, and waits for the owner of \<open>a\<close> unless that is \<open>t\<close> itself.\<close>

definition a_wait :: "string \<Rightarrow> addr \<Rightarrow> amon \<Rightarrow> amon" where
  "a_wait t a m =
     (let w = orElse (a_waiters m a) [] @ [t]
      in m\<lparr>a_waiters := (a_waiters m)(a \<mapsto> w),
           a_waits := (case a_owners m a of
               Some u \<Rightarrow> if u \<noteq> t then (a_waits m)(t \<mapsto> insert u (orElse (a_waits m t) {}))
                         else a_waits m
             | None \<Rightarrow> a_waits m),
           a_stats := (case a_stats m a of None \<Rightarrow> a_stats m
             | Some (u, n, _) \<Rightarrow> (a_stats m)(a \<mapsto> (u, n, w)))\<rparr>)"

text \<open>The wait list of \<open>a\<close> is dropped.\<close>

definition a_wake :: "addr \<Rightarrow> amon \<Rightarrow> amon" where
  "a_wake a m =
     (if a_waiters m a = None then m
      else m\<lparr>a_waiters := (a_waiters m)(a := None),
             a_stats := (case a_stats m a of None \<Rightarrow> a_stats m
               | Some (u, n, _) \<Rightarrow> (a_stats m)(a \<mapsto> (u, n, [])))\<rparr>)"

definition a_syscall :: "user_regs option \<Rightarrow> string \<Rightarrow> amon \<Rightarrow> amon" where
  "a_syscall regs t m =
     (case regs of None \<Rightarrow> m
      | Some r \<Rightarrow>
          (let lock = (\<lambda>m. if junk_addr (rdi r) then m else a_lock t (rdi r) m);
               wait = (\<lambda>m. if junk_addr (rdi r) then m else a_wait t (rdi r) m)
           in if orig_rax r \<noteq> 202 then m
              else if futex_op (rsi r) \<in> {0, 9, 10} then wait m
              else if futex_op (rsi r) = 1 then lock (a_wake (rdi r) m)
              else m))"

subsection \<open>Refinement\<close>

lemma abs_mon_core: "core s = core s' \<Longrightarrow> abs_mon s = abs_mon s'"
  by (cases s; cases s') (simp add: core_def abs_mon_def)

lemma abs_mon_trace [simp]:
  "abs_mon (s\<lparr>trace := t\<rparr>) = abs_mon s" "abs_mon (s\<lparr>thread_info_cache := c\<rparr>) = abs_mon s"
  "abs_mon (s\<lparr>wait_start_times := w\<rparr>) = abs_mon s"
  by (simp_all add: abs_mon_def)

lemma map_option_um_at: "orElse (map_option f (um_find m k)) (f d) = f (um_at d m k)"
  by (simp add: orElse_def um_at_def split: option.splits)

lemma orElse_um_find: "orElse (um_find m k) d = um_at d m k"
  by (simp add: orElse_def um_at_def)

lemmas orElse_um = map_option_um_at [where f = set and d = "[]", simplified]
  map_option_um_at [where f = "removeAll t" and d = "[]" for t, simplified]
  orElse_um_find

lemma abs_lock: "abs_mon (stats_update a t now (lock_update t a s)) = a_lock t a (abs_mon s)"
  by (auto simp: abs_mon_def a_lock_def lock_update_def stats_update_def Let_def fun_eq_iff
        orElse_um stats_view_def um_at_map_values option.map_comp comp_def
        split: option.splits)

lemma abs_wait:
  "abs_mon (refresh_waiters a (wait_edge t a
      (s\<lparr>futex_waiters := um_adjust a [] (\<lambda>w. w @ [t]) (futex_waiters s), trace := tr,
         wait_start_times := ts\<rparr>)))
   = a_wait t a (abs_mon s)"
  by (auto simp: abs_mon_def a_wait_def wait_edge_def refresh_waiters_def Let_def fun_eq_iff
        orElse_um stats_view_def split: option.splits)

lemma abs_wake:
  "um_count (futex_waiters s) a \<Longrightarrow>
   abs_mon (case um_find (lock_stats s) a of
       None \<Rightarrow> s\<lparr>futex_waiters := um_erase a (futex_waiters s)\<rparr>
     | Some stats \<Rightarrow> s\<lparr>futex_waiters := um_erase a (futex_waiters s), lock_stats := um_put a
         (stats\<lparr>waiters_count := 0, waiting_threads := []\<rparr>) (lock_stats s)\<rparr>)
   = a_wake a (abs_mon s)"
  by (auto simp: abs_mon_def a_wake_def um_count_def stats_view_def fun_eq_iff split: option.splits)

lemma update_trace [simp]:
  "stats_update a t now (s\<lparr>trace := tr\<rparr>) = (stats_update a t now s)\<lparr>trace := tr\<rparr>"
  "lock_update t a (s\<lparr>trace := tr\<rparr>) = (lock_update t a s)\<lparr>trace := tr\<rparr>"
  "wait_edge t a (s\<lparr>trace := tr\<rparr>) = (wait_edge t a s)\<lparr>trace := tr\<rparr>"
  "refresh_waiters a (s\<lparr>trace := tr\<rparr>) = (refresh_waiters a s)\<lparr>trace := tr\<rparr>"
  by (simp_all add: stats_update_def lock_update_def wait_edge_def refresh_waiters_def Let_def
        split: option.splits)

lemma update_trace_cache [simp]:
  "thread_info_cache (stats_update a t now s) = thread_info_cache s"
  "thread_info_cache (lock_update t a s) = thread_info_cache s"
  "thread_info_cache (wait_edge t a s) = thread_info_cache s"
  "thread_info_cache (refresh_waiters a s) = thread_info_cache s"
  by (simp_all add: stats_update_def lock_update_def wait_edge_def refresh_waiters_def Let_def
        split: option.splits)

text \<open>The identifier that a handler gets for its thread in state \<open>s\<close>.\<close>

definition ident_of :: "os \<Rightarrow> pid \<Rightarrow> gstate \<Rightarrow> string" where
  "ident_of os tid s = fst (run_state (get_thread_identifier os tid) s)"

lemma ident_runE:
  obtains s1 where "run_state (get_thread_identifier os tid) s = (ident_of os tid s, s1)"
    and "core s1 = core s"
proof -
  obtain t s1 where r: "run_state (get_thread_identifier os tid) s = (t, s1)"
    by (cases "run_state (get_thread_identifier os tid) s")
  with identifier_run [of os tid s] have "core s1 = core s" by auto
  with r that show thesis by (simp add: ident_of_def)
qed

lemma on_lock_abs:
  "abs_mon (snd (run_state (on_lock os tid a) s)) =
     (if junk_addr a then abs_mon s else a_lock (ident_of os tid s) a (abs_mon s))"
proof -
  obtain s1 where "run_state (get_thread_identifier os tid) s = (ident_of os tid s, s1)"
    and "core s1 = core s" by (rule ident_runE)
  then show ?thesis
    using abs_lock abs_mon_core [of s1 s]
    by (simp add: on_lock_def update_lock_stats_def os_call_defs run_call)
qed

lemma on_wait_abs:
  "abs_mon (snd (run_state (on_wait os tid a) s)) =
     (if junk_addr a then abs_mon s else a_wait (ident_of os tid s) a (abs_mon s))"
proof -
  obtain s1 where "run_state (get_thread_identifier os tid) s = (ident_of os tid s, s1)"
    and "core s1 = core s" by (rule ident_runE)
  then show ?thesis
    using abs_wait [where s = s1] abs_mon_core [of s1 s]
    by (simp add: on_wait_def os_call_defs run_call)
qed

lemma on_wake_abs:
  "abs_mon (snd (run_state (on_wake os tid a) s)) = a_wake a (abs_mon s)"
proof -
  obtain s1 where r: "run_state (get_thread_identifier os tid) s = (ident_of os tid s, s1)"
    and c: "core s1 = core s" by (rule ident_runE)
  show ?thesis
  proof (cases "um_count (futex_waiters s1) a")
    case True
    have e: "snd (run_state (on_wake os tid a) s) =
      (case um_find (lock_stats s1) a of
         None \<Rightarrow> s1\<lparr>futex_waiters := um_erase a (futex_waiters s1)\<rparr>
       | Some stats \<Rightarrow> s1\<lparr>futex_waiters := um_erase a (futex_waiters s1), lock_stats := um_put a
           (stats\<lparr>waiters_count := 0, waiting_threads := []\<rparr>) (lock_stats s1)\<rparr>)"
      using r True by (simp add: on_wake_def split: option.split)
    show ?thesis unfolding e abs_wake [OF True] abs_mon_core [OF c] ..
  next
    case False
    then have "a_waiters (abs_mon s1) a = None" by (simp add: abs_mon_def um_count_def)
    then show ?thesis
      using r False abs_mon_core [OF c] by (simp add: on_wake_def a_wake_def)
  qed
qed

lemma on_wake_cache:
  "thread_info_cache (snd (run_state (on_wake os tid a) s))
     = thread_info_cache (snd (run_state (get_thread_identifier os tid) s))"
  by (auto simp: on_wake_def split: prod.splits option.splits)

text \<open>The second lookup of a thread in one event gives the same identifier.\<close>

lemma ident_after_wake: "ident_of os tid (snd (run_state (on_wake os tid a) s)) = ident_of os tid s"
proof -
  obtain name s1 where n: "run_state (get_thread_name os tid) s = (name, s1)"
    by (cases "run_state (get_thread_name os tid) s")
  then obtain info where i: "um_find (thread_info_cache s1) tid = Some info" "info_name info = name"
    by (blast dest: get_thread_name_caches)
  from n have r: "run_state (get_thread_identifier os tid) s = (thread_identifier name tid, s1)"
    by (simp add: get_thread_identifier_def)
  let ?s2 = "snd (run_state (on_wake os tid a) s)"
  have "um_find (thread_info_cache ?s2) tid = Some info"
    using i r by (simp add: on_wake_cache)
  then show ?thesis
    using r i by (simp add: ident_of_def get_thread_identifier_def get_thread_name_cached)
qed

definition regs_seen :: "os \<Rightarrow> pid \<Rightarrow> gstate \<Rightarrow> user_regs option" where
  "regs_seen os tid s = os_getregs os (trace s) tid"

definition after_regs :: "os \<Rightarrow> pid \<Rightarrow> gstate \<Rightarrow> gstate" where
  "after_regs os tid s = s\<lparr>trace := Getregs tid (regs_seen os tid s) # trace s\<rparr>"

lemma handle_syscall_abs:
  "abs_mon (snd (run_state (handle_syscall os tid) s)) =
     a_syscall (regs_seen os tid s) (ident_of os tid (after_regs os tid s)) (abs_mon s)"
proof (cases "regs_seen os tid s")
  case None
  then show ?thesis
    by (simp add: handle_syscall_def ptrace_getregs_def run_call regs_seen_def a_syscall_def)
next
  case (Some r)
  let ?s = "after_regs os tid s" and ?t = "ident_of os tid (after_regs os tid s)" and ?a = "rdi r"
  have abs: "abs_mon ?s = abs_mon s" by (simp add: after_regs_def)
  have run: "run_state (handle_syscall os tid) s = run_state
     (if orig_rax r = 202 then
        (if futex_op (rsi r) = 0 then on_wait os tid ?a
         else if futex_op (rsi r) = 1 then do { on_wake os tid ?a; on_lock os tid ?a }
         else if futex_op (rsi r) = 9 \<or> futex_op (rsi r) = 10 then on_wait os tid ?a
         else ret ()) else ret ()) ?s"
    using Some by (simp add: handle_syscall_def ptrace_getregs_def run_call regs_seen_def
        after_regs_def Let_def)
  have wl: "abs_mon (snd (run_state (do { on_wake os tid ?a; on_lock os tid ?a }) ?s)) =
      (if junk_addr ?a then a_wake ?a (abs_mon s) else a_lock ?t ?a (a_wake ?a (abs_mon s)))"
    using on_lock_abs [of os tid ?a "snd (run_state (on_wake os tid ?a) ?s)"]
      on_wake_abs [of os tid ?a ?s] ident_after_wake [of os tid ?a ?s] abs
    by (simp add: split_beta)
  show ?thesis
    unfolding run using wl
    by (auto simp: a_syscall_def Some Let_def on_wait_abs abs)
qed

subsection \<open>Properties\<close>

text \<open>C1: Handling a syscall stop refines one step of the abstract monitor, for every content of the
tables and every answer of the kernel: a futex wait queues the thread and adds an edge to the
lock's owner, a wake drops the wait list and makes the waking thread the owner, a junk address and
any other call change nothing.\<close>

theorem handle_syscall_refines:
  "abs_mon (snd (run_state (handle_syscall os tid) s)) =
     a_syscall (regs_seen os tid s) (ident_of os tid (after_regs os tid s)) (abs_mon s)"
  by (rule handle_syscall_abs)

lemma a_wait_twice: "orElse (a_waiters (a_wait t a m) a) [] = orElse (a_waiters m a) [] @ [t]"
  by (simp add: a_wait_def Let_def orElse_def)

lemma waiters_abs: "waiters_of s a = orElse (a_waiters (abs_mon s) a) []"
  by (simp add: abs_mon_def orElse_um_find)

lemma ident_after_wait: "ident_of os tid (snd (run_state (on_wait os tid a) s)) = ident_of os tid s"
proof (cases "junk_addr a")
  case True
  then show ?thesis by (simp add: on_wait_def)
next
  case False
  obtain name s1 where n: "run_state (get_thread_name os tid) s = (name, s1)"
    by (cases "run_state (get_thread_name os tid) s")
  then obtain info where i: "um_find (thread_info_cache s1) tid = Some info" "info_name info = name"
    by (blast dest: get_thread_name_caches)
  from n have r: "run_state (get_thread_identifier os tid) s = (thread_identifier name tid, s1)"
    by (simp add: get_thread_identifier_def)
  have "um_find (thread_info_cache (snd (run_state (on_wait os tid a) s))) tid = Some info"
    using i r False by (simp add: on_wait_def os_call_defs run_call)
  then show ?thesis
    using r i by (simp add: ident_of_def get_thread_identifier_def get_thread_name_cached)
qed

text \<open>Nothing tells the entry stop of a futex wait from its exit stop: two wait events of one thread,
as the two stops of one call give them, queue the thread twice on the lock.\<close>

theorem wait_recorded_at_both_stops:
  assumes "\<not> junk_addr a"
  shows "waiters_of (snd (run_state (do { on_wait os tid a; on_wait os tid a }) s)) a
    = waiters_of s a @ [ident_of os tid s, ident_of os tid s]"
proof -
  let ?s1 = "snd (run_state (on_wait os tid a) s)"
  have "snd (run_state (do { on_wait os tid a; on_wait os tid a }) s) = snd (run_state (on_wait os tid a) ?s1)"
    by (simp add: split_beta)
  then show ?thesis
    using assms by (simp add: waiters_abs on_wait_abs a_wait_twice ident_after_wait)
qed

theorem wait_recorded_at_both_stops_witness:
  "waiters_of (snd (run_state (do { on_wait dead_os 7 0x10000; on_wait dead_os 7 0x10000 }) initial_state)) 0x10000
    = [ident_of dead_os 7 initial_state, ident_of dead_os 7 initial_state]"
  using wait_recorded_at_both_stops [of "0x10000" dead_os 7 initial_state]
  by (simp add: junk_addr_def initial_state_def um_at_def)

end
