(* ===== verification/Monitor_Invariants.thy ===== *)
theory Monitor_Invariants
  imports Monitoring
begin

text \<open>
  What the handlers keep true of the tables. \<open>table_inv\<close> (distinct keys, no thread that waits
  for itself, no junk address) is kept by every operation of the program; \<open>owner_inv\<close> (the
  owner map, the per-thread lock sets and the statistics agree) only by the handlers: the
  clean-up of \<open>Strategy1\<close> breaks it.
\<close>

definition wf_tables :: "gstate \<Rightarrow> bool" where
  "wf_tables s \<longleftrightarrow>
     um_ok (futex_waiters s) \<and> um_ok (wait_start_times s) \<and> um_ok (waits_for s) \<and>
     um_ok (thread_locks s) \<and> um_ok (lock_owners s) \<and> um_ok (lock_stats s) \<and>
     (\<forall>t. distinct (waits_of s t)) \<and> (\<forall>t. distinct (locks_of s t))"

definition no_self_wait :: "gstate \<Rightarrow> bool" where
  "no_self_wait s \<longleftrightarrow> (\<forall>t. t \<notin> set (waits_of s t))"

definition no_junk :: "gstate \<Rightarrow> bool" where
  "no_junk s \<longleftrightarrow> (\<forall>a. junk_addr a \<longrightarrow>
     um_find (lock_owners s) a = None \<and> um_find (futex_waiters s) a = None \<and>
     um_find (lock_stats s) a = None \<and> (\<forall>t. a \<notin> set (locks_of s t)))"

definition owners_hold :: "gstate \<Rightarrow> bool" where
  "owners_hold s \<longleftrightarrow> (\<forall>a t. um_find (lock_owners s) a = Some t \<longrightarrow> a \<in> set (locks_of s t))"

definition stats_match :: "gstate \<Rightarrow> bool" where
  "stats_match s \<longleftrightarrow> (\<forall>a.
     map_option current_owner (um_find (lock_stats s) a) = um_find (lock_owners s) a \<and>
     (\<forall>st. um_find (lock_stats s) a = Some st \<longrightarrow>
        lock_address st = a \<and> waiters_count st = length (waiting_threads st)))"

definition table_inv :: "gstate \<Rightarrow> bool" where
  "table_inv s \<longleftrightarrow> wf_tables s \<and> no_self_wait s \<and> no_junk s"

definition owner_inv :: "gstate \<Rightarrow> bool" where
  "owner_inv s \<longleftrightarrow> owners_hold s \<and> stats_match s"

lemmas table_defs = table_inv_def wf_tables_def no_self_wait_def no_junk_def
lemmas owner_defs = owner_inv_def owners_hold_def stats_match_def

interpretation table_frame: cache_frame table_inv
  by unfold_locales (simp_all add: table_defs)

interpretation owner_frame: cache_frame owner_inv
  by unfold_locales (simp_all add: owner_defs)

lemma um_at_map_removeAll [simp]: "um_at [] (um_map_values (removeAll t) m) k = removeAll t (um_at [] m k)"
  by (rule um_at_map_values) simp

subsection \<open>The updates of the handlers\<close>

lemma table_lock_update: "\<not> junk_addr a \<Longrightarrow> table_inv s \<Longrightarrow> table_inv (lock_update t a s)"
  by (auto simp: table_defs lock_update_def distinct_removeAll)

lemma table_stats_update: "\<not> junk_addr a \<Longrightarrow> table_inv s \<Longrightarrow> table_inv (stats_update a t now s)"
  by (auto simp: table_defs stats_update_def Let_def)

lemma table_wait_edge: "table_inv s \<Longrightarrow> table_inv (wait_edge t a s)"
  by (auto simp: table_defs wait_edge_def split: option.splits)

lemma table_refresh_waiters: "\<not> junk_addr a \<Longrightarrow> table_inv s \<Longrightarrow> table_inv (refresh_waiters a s)"
  by (auto simp: table_defs refresh_waiters_def Let_def split: option.splits)

lemma owner_lock_stats_update: "owner_inv s \<Longrightarrow> owner_inv (stats_update a t now (lock_update t a s))"
  by (auto simp: owner_defs lock_update_def stats_update_def Let_def split: option.splits if_splits)

lemma owner_wait_edge: "owner_inv s \<Longrightarrow> owner_inv (wait_edge t a s)"
  by (auto simp: owner_defs wait_edge_def split: option.splits)

lemma owner_refresh_waiters: "owner_inv s \<Longrightarrow> owner_inv (refresh_waiters a s)"
  by (fastforce simp: owner_defs refresh_waiters_def Let_def split: option.splits if_splits)

subsection \<open>The handlers\<close>

lemma table_update_lock_stats: "\<not> junk_addr a \<Longrightarrow> preserves table_inv (update_lock_stats os a t)"
  unfolding update_lock_stats_def
  by (intro keeps preserves_modify table_stats_update table_frame.calls_keep)

lemma table_on_lock [keeps]: "preserves table_inv (on_lock os tid a)"
  unfolding on_lock_def
  by (intro keeps preserves_modify table_lock_update table_update_lock_stats)

lemma table_on_wait [keeps]: "preserves table_inv (on_wait os tid a)"
  unfolding on_wait_def
  by (intro keeps preserves_modify table_wait_edge table_refresh_waiters table_frame.calls_keep)
    (auto simp: table_defs)

lemma table_on_wake [keeps]: "preserves table_inv (on_wake os tid a)"
  unfolding on_wake_def
  by (intro keeps preserves_modify)
    (auto simp: table_defs split: option.splits)

lemma table_handle_syscall [keeps]: "preserves table_inv (handle_syscall os tid)"
  unfolding handle_syscall_def Let_def by (intro keeps table_frame.calls_keep)

lemma owner_on_lock [keeps]: "preserves owner_inv (on_lock os tid a)"
proof (rule preservesI)
  fix s assume inv: "owner_inv s"
  obtain s1 where r: "run_state (get_thread_identifier os tid) s = (ident_of os tid s, s1)"
    by (rule ident_runE)
  have "owner_inv s1"
    using preservesD [OF owner_frame.get_thread_identifier_keeps inv] r by (metis snd_conv)
  then show "owner_inv (snd (run_state (on_lock os tid a) s))"
    using inv r by (simp add: on_lock_def update_lock_stats_def os_call_defs run_call
        owner_frame.frame owner_lock_stats_update)
qed

lemma owner_on_wait [keeps]: "preserves owner_inv (on_wait os tid a)"
  unfolding on_wait_def
  by (intro keeps preserves_modify owner_wait_edge owner_refresh_waiters owner_frame.calls_keep)
    (auto simp: owner_defs)

lemma owner_on_wake [keeps]: "preserves owner_inv (on_wake os tid a)"
  unfolding on_wake_def
  by (intro keeps preserves_modify)
    (fastforce simp: owner_defs split: option.splits if_splits)+

lemma owner_handle_syscall [keeps]: "preserves owner_inv (handle_syscall os tid)"
  unfolding handle_syscall_def Let_def by (intro keeps owner_frame.calls_keep)

text \<open>C12: Whatever registers the kernel reports, handling a syscall stop keeps the tables well formed
(distinct keys and elements, no thread that waits for itself, no junk address) and keeps owners,
lock sets and statistics in agreement.\<close>

theorem handle_syscall_keeps_tables:
  assumes "table_inv s" and "owner_inv s"
  shows "table_inv (snd (run_state (handle_syscall os tid) s))
    \<and> owner_inv (snd (run_state (handle_syscall os tid) s))"
  using assms preservesD [OF table_handle_syscall] preservesD [OF owner_handle_syscall] by blast

lemma initial_invs: "table_inv initial_state" "owner_inv initial_state"
  by (simp_all add: table_defs owner_defs initial_state_def um_at_def)

theorem handle_syscall_keeps_tables_witness:
  "table_inv (snd (run_state (handle_syscall (dead_os\<lparr>os_getregs := \<lambda>_ _. Some (User_Regs 202 0x10000 1 0)\<rparr>) 7)
     initial_state))"
  using handle_syscall_keeps_tables [OF initial_invs] by blast

subsection \<open>A deadlock of two threads\<close>

text \<open>The tables after \<open>a[1]\<close> and \<open>b[2]\<close> have each locked one lock and wait for the other's.\<close>

definition deadlocked_pair :: gstate where
  "deadlocked_pair = initial_state\<lparr>
     lock_owners := [(0x20000, ''b[2]''), (0x10000, ''a[1]'')],
     thread_locks := [(''b[2]'', [0x20000]), (''a[1]'', [0x10000])],
     waits_for := [(''b[2]'', [''a[1]'']), (''a[1]'', [''b[2]''])],
     futex_waiters := [(0x10000, [''b[2]'']), (0x20000, [''a[1]''])]\<rparr>"

lemma deadlocked_pair_tables: "table_inv deadlocked_pair"
  by (auto simp: table_defs deadlocked_pair_def initial_state_def um_ok_def um_keys_def um_at_def
      um_find_def junk_addr_def split: if_splits)

end
