(* ===== verification/Wait_Graph.thy ===== *)
theory Wait_Graph
  imports Digraph Monitor_Invariants
begin

text \<open>
  \<open>dfs_deadlock\<close> of \<open>detection.cpp\<close>: the depth-first search over \<open>waits_for\<close>. The sets
  \<open>visited\<close> and \<open>stack\<close> are only asked for membership, so they are sets here; \<open>cycle\<close> grows at
  its end. The function is recursive through the loop over the neighbours, and every call visits
  a thread that was not visited before, so it terminates on every graph.
\<close>

function dfs_deadlock :: "('a, 'a uset) umap \<Rightarrow> 'a \<Rightarrow> 'a set \<Rightarrow> 'a set \<Rightarrow> 'a list
      \<Rightarrow> bool \<times> 'a set \<times> 'a set \<times> 'a list"
  and dfs_neighbours :: "('a, 'a uset) umap \<Rightarrow> 'a \<Rightarrow> 'a list \<Rightarrow> 'a set \<Rightarrow> 'a set \<Rightarrow> 'a list
      \<Rightarrow> bool \<times> 'a set \<times> 'a set \<times> 'a list" where
  "dfs_deadlock g thread_name visited stack cyc =
     (case dfs_neighbours g thread_name (um_at [] g thread_name)
             (insert thread_name visited) (insert thread_name stack) cyc of
        (found, visited', stack', cyc') \<Rightarrow>
          if found then (True, visited', stack', cyc')
          else (False, visited', stack' - {thread_name}, cyc'))"
| "dfs_neighbours g thread_name [] visited stack cyc = (False, visited, stack, cyc)"
| "dfs_neighbours g thread_name (neighbor # rest) visited stack cyc =
     (if neighbor \<in> stack then (True, visited, stack, cyc @ [neighbor, thread_name])
      else if neighbor \<notin> visited then
        (case dfs_deadlock g neighbor visited stack cyc of
           (found, visited', stack', cyc') \<Rightarrow>
             if found then (True, visited', stack', cyc' @ [thread_name])
             else dfs_neighbours g thread_name rest visited' stack' cyc')
      else dfs_neighbours g thread_name rest visited stack cyc)"
  by pat_completeness auto

text \<open>Where it is defined, the search only adds to \<open>visited\<close>.\<close>

lemma dfs_visited_grows_dom:
  "dfs_deadlock_dfs_neighbours_dom (Inl (g, t, V, S, c)) \<Longrightarrow>
     V \<subseteq> fst (snd (dfs_deadlock g t V S c))"
  "dfs_deadlock_dfs_neighbours_dom (Inr (g, t, ns, V, S, c)) \<Longrightarrow>
     V \<subseteq> fst (snd (dfs_neighbours g t ns V S c))"
proof (induction g t V S c and g t ns V S c rule: dfs_deadlock_dfs_neighbours.pinduct)
  case (1 g t V S c)
  then show ?case by (auto simp: dfs_deadlock.psimps split: prod.splits)
next
  case (2 g t V S c)
  then show ?case by (simp add: dfs_neighbours.psimps)
next
  case (3 g t n ns V S c)
  show ?case
  proof (cases "n \<in> S \<or> n \<in> V")
    case True
    with 3 show ?thesis by (auto simp: dfs_neighbours.psimps)
  next
    case False
    obtain f V' S' c' where d: "dfs_deadlock g n V S c = (f, V', S', c')"
      by (metis surj_pair)
    with False 3 have "V \<subseteq> V'" by auto
    moreover have "\<not> f \<Longrightarrow> V' \<subseteq> fst (snd (dfs_neighbours g t ns V' S' c'))"
      using "3.IH"(2) [OF _ _ d [symmetric]] False by auto
    ultimately show ?thesis
      using False d "3.hyps" by (auto simp: dfs_neighbours.psimps)
  qed
qed

definition dfs_rank :: "('a, 'a uset) umap \<times> 'a \<times> 'a set \<times> 'a set \<times> 'a list
    + ('a, 'a uset) umap \<times> 'a \<times> 'a list \<times> 'a set \<times> 'a set \<times> 'a list \<Rightarrow> nat \<times> nat" where
  "dfs_rank x = (case x of
     Inl (g, t, V, S, c) \<Rightarrow> (unvisited (um_at [] g) [t] V,
       if t \<in> V then Suc (length (um_at [] g t)) else 0)
   | Inr (g, t, ns, V, S, c) \<Rightarrow> (unvisited (um_at [] g) ns V, length ns))"

abbreviation dfs_less where
  "dfs_less x y \<equiv> (dfs_rank x, dfs_rank y) \<in> less_than <*lex*> less_than"

lemma dfs_rank_enter: "dfs_less (Inr (g, t, um_at [] g t, insert t V, S', c)) (Inl (g, t, V, S, c))"
  using adj.unvisited_visit [of t V g] adj.unvisited_again [of t V g]
  by (cases "t \<in> V") (auto simp: dfs_rank_def)

lemma dfs_rank_visit: "n \<notin> V \<Longrightarrow> dfs_less (Inl (g, n, V, S, c)) (Inr (g, t, n # ns, V, S, c))"
  using adj.unvisited_hd [of g n V ns] by (auto simp: dfs_rank_def)

lemma dfs_rank_next: "V \<subseteq> V' \<Longrightarrow> dfs_less (Inr (g, t, ns, V', S', c')) (Inr (g, t, n # ns, V, S, c))"
  using adj.unvisited_tl [of V V' g ns n] by (auto simp: dfs_rank_def)

lemma dfs_rank_rest:
  "dfs_deadlock_dfs_neighbours_dom (Inl (g, n, V, S, c)) \<Longrightarrow> (f, V', S', c') = dfs_deadlock g n V S c \<Longrightarrow>
     dfs_less (Inr (g, t, ns, V', S', c')) (Inr (g, t, n # ns, V, S, c))"
  using dfs_visited_grows_dom(1) [of g n V S c] by (intro dfs_rank_next) (metis fst_conv snd_conv)

termination dfs_deadlock
  by (relation "inv_image (less_than <*lex*> less_than) dfs_rank")
    (auto intro: dfs_rank_enter dfs_rank_visit dfs_rank_next dfs_rank_rest)

declare dfs_deadlock.simps [simp del] dfs_neighbours.simps [simp del]

lemma dfs_visited_grows:
  "V \<subseteq> fst (snd (dfs_deadlock g t V S c))" "V \<subseteq> fst (snd (dfs_neighbours g t ns V S c))"
proof (induction g t V S c and g t ns V S c rule: dfs_deadlock_dfs_neighbours.induct)
  case (1 g t V S c)
  then show ?case by (auto simp: dfs_deadlock.simps [of g t] split: prod.splits)
next
  case (2 g t V S c)
  then show ?case by (simp add: dfs_neighbours.simps)
next
  case (3 g t n ns V S c)
  obtain f V' S' c' where d: "dfs_deadlock g n V S c = (f, V', S', c')" by (metis surj_pair)
  show ?case
  proof (cases "n \<in> S \<or> n \<in> V")
    case True
    with 3 show ?thesis by (auto simp: dfs_neighbours.simps)
  next
    case False
    have "\<not> f \<Longrightarrow> V' \<subseteq> fst (snd (dfs_neighbours g t ns V' S' c'))"
      using "3.IH"(2) [OF _ _ d [symmetric] refl refl] False by blast
    moreover have "V \<subseteq> V'" using "3.IH"(1) d False by simp
    ultimately show ?thesis using False d by (auto simp: dfs_neighbours.simps)
  qed
qed

subsection \<open>What a failed search leaves\<close>

lemma dfs_fail:
  "dfs_deadlock g t V S c = (False, V', S', c') \<Longrightarrow> c' = c \<and> S' = S - {t}"
  "dfs_neighbours g t ns V S c = (False, V', S', c') \<Longrightarrow> c' = c \<and> S' = S"
proof (induction g t V S c and g t ns V S c arbitrary: V' S' c' and V' S' c'
    rule: dfs_deadlock_dfs_neighbours.induct)
  case (1 g t V S c)
  then show ?case by (auto simp: dfs_deadlock.simps [of g t] split: prod.splits if_splits)
next
  case (2 g t V S c)
  then show ?case by (simp add: dfs_neighbours.simps)
next
  case (3 g t n ns V S c)
  obtain f V1 S1 c1 where d: "dfs_deadlock g n V S c = (f, V1, S1, c1)" by (metis surj_pair)
  show ?case
  proof (cases "n \<in> V")
    case True
    with "3.prems" "3.IH"(3) show ?thesis by (auto simp: dfs_neighbours.simps split: if_splits)
  next
    case False
    with "3.prems" d have n: "n \<notin> S" and f: "\<not> f"
      and rest: "dfs_neighbours g t ns V1 S1 c1 = (False, V', S', c')"
      by (auto simp: dfs_neighbours.simps split: if_splits)
    have "c1 = c \<and> S1 = S" using "3.IH"(1) [OF n False] d f n by auto
    moreover have "c' = c1 \<and> S' = S1"
      using "3.IH"(2) [OF n False d [symmetric] refl refl f] rest by blast
    ultimately show ?thesis by simp
  qed
qed

lemma dfs_settled:
  "dfs_deadlock g t V S c = (False, V', S', c') \<Longrightarrow> t \<notin> V \<Longrightarrow> S \<subseteq> V \<Longrightarrow>
     settled (um_at [] g) (V - S) \<Longrightarrow> settled (um_at [] g) (V' - S) \<and> t \<in> V' - S"
  "dfs_neighbours g t ns V S c = (False, V', S', c') \<Longrightarrow> S \<subseteq> V \<Longrightarrow>
     settled (um_at [] g) (V - S) \<Longrightarrow> settled (um_at [] g) (V' - S) \<and> set ns \<subseteq> V' - S"
proof (induction g t V S c and g t ns V S c arbitrary: V' S' c' and V' S' c'
    rule: dfs_deadlock_dfs_neighbours.induct)
  case (1 g t V S c)
  from "1.prems"(1) obtain S1 where d: "dfs_neighbours g t (um_at [] g t) (insert t V) (insert t S) c
      = (False, V', S1, c')"
    by (auto simp: dfs_deadlock.simps [of g t] split: prod.splits if_splits)
  have minus: "insert t V - insert t S = V - S" using "1.prems"(2) by auto
  have "settled (um_at [] g) (V' - insert t S)" and succ: "set (um_at [] g t) \<subseteq> V' - insert t S"
    using "1.IH" [OF d] "1.prems" by (auto simp: minus)
  then have "settled (um_at [] g) (insert t (V' - insert t S))" by (intro settled_insert) auto
  moreover have "insert t V \<subseteq> V'"
    using dfs_visited_grows(2) [of "insert t V" g t "um_at [] g t" "insert t S" c] d by simp
  then have "insert t (V' - insert t S) = V' - S" using "1.prems"(2,3) by auto
  ultimately show ?case using \<open>insert t V \<subseteq> V'\<close> "1.prems"(2,3) by auto
next
  case (2 g t V S c)
  then show ?case by (simp add: dfs_neighbours.simps)
next
  case (3 g t n ns V S c)
  obtain f V1 S1 c1 where d: "dfs_deadlock g n V S c = (f, V1, S1, c1)" by (metis surj_pair)
  have n: "n \<notin> S" using "3.prems"(1) by (auto simp: dfs_neighbours.simps)
  show ?case
  proof (cases "n \<in> V")
    case True
    then have rest: "dfs_neighbours g t ns V S c = (False, V', S', c')"
      using "3.prems"(1) n by (simp add: dfs_neighbours.simps)
    have "V \<subseteq> V'" using dfs_visited_grows(2) [of V g t ns S c] rest by simp
    then show ?thesis using "3.IH"(3) [OF n _ rest] "3.prems" True n by auto
  next
    case False
    with "3.prems"(1) d n have f: "\<not> f"
      and rest: "dfs_neighbours g t ns V1 S1 c1 = (False, V', S', c')"
      by (auto simp: dfs_neighbours.simps split: if_splits)
    have S1: "S1 = S" using dfs_fail(1) d f n by fastforce
    have V1: "V \<subseteq> V1" using dfs_visited_grows(1) [of V g n S c] d by simp
    have "settled (um_at [] g) (V1 - S) \<and> n \<in> V1 - S"
      using "3.IH"(1) [OF n False _ False] d f "3.prems"(2,3) by auto
    moreover from this have "settled (um_at [] g) (V' - S) \<and> set ns \<subseteq> V' - S"
      using "3.IH"(2) [OF n False d [symmetric] refl refl f rest] V1 "3.prems"(2) by (auto simp: S1)
    moreover have "V1 \<subseteq> V'" using dfs_visited_grows(2) [of V1 g t ns S1 c1] rest by simp
    ultimately show ?thesis using n by auto
  qed
qed

subsection \<open>What a successful search returns\<close>

lemma dfs_found:
  "dfs_deadlock g t V S c = (True, V', S', c') \<Longrightarrow>
     \<exists>p. c' = c @ rev (t # p) \<and> p \<noteq> [] \<and> walk (um_at [] g) (t # p) \<and>
         last p \<in> S \<union> set (t # butlast p)"
  "dfs_neighbours g t ns V S c = (True, V', S', c') \<Longrightarrow>
     \<exists>p. c' = c @ rev (t # p) \<and> p \<noteq> [] \<and> hd p \<in> set ns \<and> walk (um_at [] g) p \<and>
         last p \<in> S \<union> set (butlast p)"
proof (induction g t V S c and g t ns V S c arbitrary: V' S' c' and V' S' c'
    rule: dfs_deadlock_dfs_neighbours.induct)
  case (1 g t V S c)
  then have "dfs_neighbours g t (um_at [] g t) (insert t V) (insert t S) c = (True, V', S', c')"
    by (auto simp: dfs_deadlock.simps [of g t] split: prod.splits if_splits)
  from "1.IH" [OF this] show ?case by (auto simp: walk_Cons)
next
  case (2 g t V S c)
  then show ?case by (simp add: dfs_neighbours.simps)
next
  case (3 g t n ns V S c)
  obtain f V1 S1 c1 where d: "dfs_deadlock g n V S c = (f, V1, S1, c1)" by (metis surj_pair)
  consider (stack) "n \<in> S" | (visited) "n \<notin> S" "n \<in> V" | (deep) "n \<notin> S" "n \<notin> V" f
    | (later) "n \<notin> S" "n \<notin> V" "\<not> f" by blast
  then show ?case
  proof cases
    case stack
    then show ?thesis using "3.prems" by (intro exI [of _ "[n]"]) (auto simp: dfs_neighbours.simps)
  next
    case visited
    then have "dfs_neighbours g t ns V S c = (True, V', S', c')"
      using "3.prems" by (simp add: dfs_neighbours.simps)
    from "3.IH"(3) [OF visited(1) _ this] visited(2) show ?thesis by fastforce
  next
    case deep
    with d have "dfs_deadlock g n V S c = (True, V1, S1, c1)" by simp
    from "3.IH"(1) [OF deep(1,2) this] obtain q where
      q: "c1 = c @ rev (n # q)" "q \<noteq> []" "walk (um_at [] g) (n # q)" "last q \<in> S \<union> set (n # butlast q)"
      by blast
    have "c' = c1 @ [t]" using "3.prems" deep d by (simp add: dfs_neighbours.simps)
    with q show ?thesis by (intro exI [of _ "n # q"]) auto
  next
    case later
    then have rest: "dfs_neighbours g t ns V1 S1 c1 = (True, V', S', c')"
      using "3.prems" d by (simp add: dfs_neighbours.simps)
    have "c1 = c" "S1 = S" using dfs_fail(1) [of g n V S c V1 S1 c1] d later by auto
    then show ?thesis
      using "3.IH"(2) [OF later(1,2) d [symmetric] refl refl later(3) rest] by fastforce
  qed
qed

lemma dfs_found_walk:
  assumes "dfs_deadlock g t V S [] = (True, V', S', c')"
  shows "hd (rev c') = t" "2 \<le> length c'" "walk (um_at [] g) (rev c')"
    "last (rev c') \<in> S \<union> set (butlast (rev c'))"
proof -
  from dfs_found(1) [OF assms] obtain p where p: "c' = rev (t # p)" "p \<noteq> []"
    "walk (um_at [] g) (t # p)" "last p \<in> S \<union> set (t # butlast p)" by auto
  then have r: "rev c' = t # p" by simp
  show "hd (rev c') = t" "walk (um_at [] g) (rev c')" "last (rev c') \<in> S \<union> set (butlast (rev c'))"
    unfolding r using p by auto
  show "2 \<le> length c'" using p by (cases p) auto
qed

text \<open>With an empty stack and settled visited threads, the search decides whether a cycle is reachable.\<close>

lemma dfs_decides:
  assumes "settled (um_at [] g) V" and "t \<notin> V"
  shows "fst (dfs_deadlock g t V {} c) \<longleftrightarrow>
    (\<exists>u. (t, u) \<in> (edges (um_at [] g))\<^sup>* \<and> (u, u) \<in> (edges (um_at [] g))\<^sup>+)"
proof (cases "dfs_deadlock g t V {} c")
  case (fields f V' S' c')
  show ?thesis
  proof (cases f)
    case True
    with fields obtain p where p: "p \<noteq> []" "walk (um_at [] g) (t # p)" "last p \<in> set (t # butlast p)"
      using dfs_found(1) [of g t V "{}" c V' S' c'] by auto
    then have "(t, last p) \<in> (edges (um_at [] g))\<^sup>*" using walk_rtrancl [of "um_at [] g" "t # p"] by simp
    moreover have "(last p, last p) \<in> (edges (um_at [] g))\<^sup>+"
      using closed_walk_cycle [of "um_at [] g" "t # p"] p by simp
    ultimately show ?thesis using fields True by auto
  next
    case False
    with fields assms have "settled (um_at [] g) V'" "t \<in> V'"
      using dfs_settled(1) [of g t V "{}" c V' S' c'] by auto
    then show ?thesis using fields False by (auto dest: settled_no_cycle)
  qed
qed

subsection \<open>Properties\<close>

lemmas dfs_run = dfs_deadlock.simps dfs_neighbours.simps

text \<open>C8: Started on a fresh search, \<open>dfs_deadlock\<close> terminates on every wait-for graph and answers true
exactly when a cycle of waiting threads can be reached from the given thread.\<close>

theorem dfs_deadlock_decides:
  "fst (dfs_deadlock (waits_for s) t {} {} c) \<longleftrightarrow>
    (\<exists>u. (t, u) \<in> (edges (waits_of s))\<^sup>* \<and> (u, u) \<in> (edges (waits_of s))\<^sup>+)"
  by (rule dfs_decides) simp_all

text \<open>When a fresh search answers true, the reversed vector is a walk through the wait-for graph from
the given thread whose last thread occurs before: the walk ends in a cycle of the graph.\<close>

theorem dfs_deadlock_walk:
  assumes "dfs_deadlock (waits_for s) t {} {} [] = (True, V, S, c)"
  shows "hd (rev c) = t \<and> walk (waits_of s) (rev c) \<and> last (rev c) \<in> set (butlast (rev c))
    \<and> (last (rev c), last (rev c)) \<in> (edges (waits_of s))\<^sup>+"
proof -
  note f = dfs_found_walk [OF assms]
  have "rev c \<noteq> []" using f(2) by auto
  with f show ?thesis by (simp add: closed_walk_cycle)
qed

lemma pair_graph: "waits_for deadlocked_pair = [(''b[2]'', [''a[1]'']), (''a[1]'', [''b[2]''])]"
  by (simp add: deadlocked_pair_def)

theorem dfs_deadlock_walk_witness:
  "walk (waits_of deadlocked_pair) [''b[2]'', ''a[1]'', ''b[2]'']"
proof -
  have "dfs_deadlock (waits_for deadlocked_pair) ''b[2]'' {} {} []
      = (True, {''a[1]'', ''b[2]''}, {''a[1]'', ''b[2]''}, [''b[2]'', ''a[1]'', ''b[2]''])"
    by (simp add: pair_graph dfs_run um_at_def um_find_def)
  from dfs_deadlock_walk [OF this] show ?thesis by simp
qed

text \<open>The walk may start outside the cycle: with \<open>x\<close> waiting for \<open>a\<close> and a deadlock of \<open>a\<close> and \<open>b\<close>,
the reported cycle begins with \<open>x\<close>, which no cycle goes through.\<close>

theorem reported_cycle_has_a_tail:
  "let g = [(''x'', [''a'']), (''a'', [''b'']), (''b'', [''a''])]
   in rev (snd (snd (snd (dfs_deadlock g ''x'' {} {} [])))) = [''x'', ''a'', ''b'', ''a'']
      \<and> (''x'', ''x'') \<notin> (edges (um_at [] g))\<^sup>+"
proof -
  let ?g = "[(''x'', [''a'']), (''a'', [''b'']), (''b'', [''a''])]"
  have "rev (snd (snd (snd (dfs_deadlock ?g ''x'' {} {} [])))) = [''x'', ''a'', ''b'', ''a'']"
    by (simp add: dfs_run um_at_def um_find_def)
  moreover have "(''x'', ''x'') \<notin> (edges (um_at [] ?g))\<^sup>+"
  proof
    assume "(''x'', ''x'') \<in> (edges (um_at [] ?g))\<^sup>+"
    then obtain u where "(u, ''x'') \<in> edges (um_at [] ?g)" by (meson tranclD2)
    then show False by (auto simp: edges_def um_at_def um_find_def split: if_splits option.splits)
  qed
  ultimately show ?thesis by (simp add: Let_def)
qed

text \<open>A hit leaves the threads of its path on the stack that the next roots share: a thread \<open>c\<close> that
merely waits for the deadlocked \<open>a\<close> is then reported as a deadlock of its own.\<close>

theorem stack_keeps_the_path:
  "let g = [(''a'', [''b'']), (''b'', [''a'']), (''c'', [''a''])];
       (f, V, S, c) = dfs_deadlock g ''a'' {} {} []
   in f \<and> fst (dfs_deadlock g ''c'' V S []) \<and> (''c'', ''c'') \<notin> (edges (um_at [] g))\<^sup>+"
proof -
  let ?g = "[(''a'', [''b'']), (''b'', [''a'']), (''c'', [''a''])]"
  have r: "dfs_deadlock ?g ''a'' {} {} [] = (True, {''b'', ''a''}, {''b'', ''a''}, [''a'', ''b'', ''a''])"
    by (simp add: dfs_run um_at_def um_find_def)
  have "fst (dfs_deadlock ?g ''c'' {''b'', ''a''} {''b'', ''a''} [])"
    by (simp add: dfs_run um_at_def um_find_def)
  moreover have "(''c'', ''c'') \<notin> (edges (um_at [] ?g))\<^sup>+"
  proof
    assume "(''c'', ''c'') \<in> (edges (um_at [] ?g))\<^sup>+"
    then obtain u where "(u, ''c'') \<in> edges (um_at [] ?g)" by (meson tranclD2)
    then show False by (auto simp: edges_def um_at_def um_find_def split: if_splits option.splits)
  qed
  ultimately show ?thesis by (simp add: r)
qed

end
