(* ===== verification/Involved_Locks.thy ===== *)
theory Involved_Locks
  imports Monitor_Invariants
begin

text \<open>
  \<open>find_locks_in_deadlock\<close> of \<open>detection.cpp\<close>, which names the locks that a resolution is to release.
  It looks for locks that a thread of the cycle owns and the next thread waits for. The edges of the
  wait-for graph go the other way, from the waiter to the owner, so that the function finds
  the locks of a cycle of two threads and no lock of a longer one.
\<close>

definition locks_between :: "gstate \<Rightarrow> string \<Rightarrow> string \<Rightarrow> addr list \<Rightarrow> addr list" where
  "locks_between s thread_name next_thread found = fold (\<lambda>(lock_addr, owner) found.
     if owner = thread_name \<and> um_count (futex_waiters s) lock_addr
        \<and> next_thread \<in> set (waiters_of s lock_addr) \<and> lock_addr \<notin> set found
     then found @ [lock_addr] else found) (lock_owners s) found"

definition find_locks_in_deadlock :: "gstate \<Rightarrow> string list \<Rightarrow> addr list" where
  "find_locks_in_deadlock s cyc = fold (\<lambda>i found.
     locks_between s (cyc ! i) (cyc ! ((i + 1) mod length cyc)) found) [0..<length cyc] []"

lemma locks_between_grows:
  "set (locks_between s t u found) = set found \<union> {a. (a, t) \<in> set (lock_owners s) \<and> u \<in> set (waiters_of s a)}
    \<and> (distinct found \<longrightarrow> distinct (locks_between s t u found))"
proof -
  have "set (fold (\<lambda>(lock_addr, owner) found.
       if owner = t \<and> um_count (futex_waiters s) lock_addr \<and> u \<in> set (waiters_of s lock_addr) \<and> lock_addr \<notin> set found
       then found @ [lock_addr] else found) m found) =
     set found \<union> {a. (a, t) \<in> set m \<and> u \<in> set (waiters_of s a)}
     \<and> (distinct found \<longrightarrow> distinct (fold (\<lambda>(lock_addr, owner) found.
       if owner = t \<and> um_count (futex_waiters s) lock_addr \<and> u \<in> set (waiters_of s lock_addr) \<and> lock_addr \<notin> set found
       then found @ [lock_addr] else found) m found))" for m
  proof (induction m arbitrary: found)
    case (Cons p m)
    obtain a t' where p: "p = (a, t')" by (cases p)
    have "um_count (futex_waiters s) a" if "u \<in> set (waiters_of s a)"
      using that by (cases "um_find (futex_waiters s) a") (simp_all add: um_at_def um_count_def)
    then show ?case unfolding p fold.simps comp_def by (subst Cons.IH; auto simp: Cons.IH)
  qed simp
  then show ?thesis by (simp add: locks_between_def)
qed

lemma find_locks_fold:
  "set (fold (\<lambda>i. locks_between s (cyc ! i) (cyc ! (g i))) is found) =
     set found \<union> {a. \<exists>i\<in>set is. (a, cyc ! i) \<in> set (lock_owners s) \<and> cyc ! (g i) \<in> set (waiters_of s a)}
   \<and> (distinct found \<longrightarrow> distinct (fold (\<lambda>i. locks_between s (cyc ! i) (cyc ! (g i))) is found))"
proof (induction "is" arbitrary: found)
  case (Cons i "is")
  show ?case unfolding fold.simps comp_def by (subst Cons.IH; auto simp: Cons.IH locks_between_grows)
qed simp

lemma find_locks_set:
  "um_ok (lock_owners s) \<Longrightarrow> a \<in> set (find_locks_in_deadlock s cyc) \<longleftrightarrow>
    (\<exists>i<length cyc. um_find (lock_owners s) a = Some (cyc ! i)
      \<and> cyc ! ((i + 1) mod length cyc) \<in> set (waiters_of s a))"
  by (auto simp: find_locks_in_deadlock_def find_locks_fold in_set_um_find)

text \<open>C15: The involved locks are, without repetition, exactly the locks that a thread of the reported
cycle owns while the next thread of the cycle waits for them.\<close>

theorem find_locks_correct:
  assumes "um_ok (lock_owners s)"
  shows "set (find_locks_in_deadlock s cyc) =
      {a. \<exists>i<length cyc. um_find (lock_owners s) a = Some (cyc ! i) \<and> cyc ! ((i + 1) mod length cyc) \<in> set (waiters_of s a)}
    \<and> distinct (find_locks_in_deadlock s cyc)"
  using find_locks_set [OF assms] by (auto simp: find_locks_in_deadlock_def find_locks_fold)

text \<open>A deadlock of two threads: both locks are found.\<close>

theorem find_locks_correct_witness:
  "find_locks_in_deadlock deadlocked_pair [''a[1]'', ''b[2]'', ''a[1]''] = [0x10000, 0x20000]
    \<and> distinct (find_locks_in_deadlock deadlocked_pair [''a[1]'', ''b[2]'', ''a[1]''])"
proof
  show "find_locks_in_deadlock deadlocked_pair [''a[1]'', ''b[2]'', ''a[1]''] = [0x10000, 0x20000]" by code_simp
  have "um_ok (lock_owners deadlocked_pair)" by (simp add: deadlocked_pair_def um_ok_def um_keys_def)
  from find_locks_correct [OF this] show "distinct (find_locks_in_deadlock deadlocked_pair [''a[1]'', ''b[2]'', ''a[1]''])" ..
qed

text \<open>When each thread of a cycle of three or more threads waits only for locks of its successor, the
reported cycle has no involved lock: the direction of the search is that of a cycle of two. Nothing
is then unlocked or released.\<close>

theorem long_cycle_has_no_locks:
  assumes "um_ok (lock_owners s)" and "distinct ts" and "3 \<le> length ts"
    and "\<And>a i. i < length ts \<Longrightarrow> ts ! i \<in> set (waiters_of s a) \<Longrightarrow>
      um_find (lock_owners s) a = Some (ts ! ((i + 1) mod length ts))"
  shows "find_locks_in_deadlock s (ts @ [hd ts]) = []"
proof -
  let ?n = "length ts" and ?cyc = "ts @ [hd ts]"
  have at: "?cyc ! i = ts ! (i mod ?n)" if "i \<le> ?n" for i
    using that assms(3) by (cases "i = ?n") (auto simp: nth_append intro: hd_conv_nth)
  have False if i: "i < Suc ?n" and own: "um_find (lock_owners s) a = Some (?cyc ! i)"
    and waits: "?cyc ! ((i + 1) mod Suc ?n) \<in> set (waiters_of s a)" for a i
  proof -
    define j where "j = (if i = ?n then 0 else (i + 1) mod ?n)"
    have n: "0 < ?n" using assms(3) by linarith
    then have j: "j < ?n" and wj: "?cyc ! ((i + 1) mod Suc ?n) = ts ! j"
      using mod_less_divisor [OF n, of "Suc i"] i assms(3) at [of "(i + 1) mod Suc ?n"] by (auto simp: j_def)
    from own at [of i] i assms(4) [OF j waits [unfolded wj]] have "ts ! (i mod ?n) = ts ! ((j + 1) mod ?n)" by simp
    then have e: "i mod ?n = (j + 1) mod ?n" using nth_eq_iff_index_eq [OF assms(2), of "i mod ?n" "(j + 1) mod ?n"] n by simp
    show False
    proof (cases "i = ?n")
      case True
      with e assms(3) show False by (simp add: j_def)
    next
      case False
      with i have "i < ?n" by simp
      then show False using e assms(3) by (auto simp: j_def mod_Suc split: if_splits)
    qed
  qed
  then have "a \<notin> set (find_locks_in_deadlock s ?cyc)" for a using find_locks_set [OF assms(1), of a ?cyc] by auto
  then show ?thesis by (metis last_in_set)
qed

definition deadlocked_three :: gstate where
  "deadlocked_three = initial_state\<lparr>
     lock_owners := [(0x30000, ''c[3]''), (0x20000, ''b[2]''), (0x10000, ''a[1]'')],
     thread_locks := [(''c[3]'', [0x30000]), (''b[2]'', [0x20000]), (''a[1]'', [0x10000])],
     waits_for := [(''c[3]'', [''a[1]'']), (''b[2]'', [''c[3]'']), (''a[1]'', [''b[2]''])],
     futex_waiters := [(0x10000, [''c[3]'']), (0x30000, [''b[2]'']), (0x20000, [''a[1]''])]\<rparr>"

theorem long_cycle_has_no_locks_witness:
  "find_locks_in_deadlock deadlocked_three [''a[1]'', ''b[2]'', ''c[3]'', ''a[1]''] = []"
proof -
  let ?ts = "[''a[1]'', ''b[2]'', ''c[3]'']"
  have ok: "um_ok (lock_owners deadlocked_three)" by (simp add: deadlocked_three_def um_ok_def um_keys_def)
  have w: "waiters_of deadlocked_three a = (if a = 0x10000 then [''c[3]''] else if a = 0x30000 then [''b[2]'']
      else if a = 0x20000 then [''a[1]''] else [])"
    and o: "um_find (lock_owners deadlocked_three) a = (if a = 0x30000 then Some ''c[3]'' else if a = 0x20000
      then Some ''b[2]'' else if a = 0x10000 then Some ''a[1]'' else None)" for a
    by (simp_all add: deadlocked_three_def um_find_def um_at_def)
  have succ: "um_find (lock_owners deadlocked_three) a = Some (?ts ! ((i + 1) mod length ?ts))"
    if "i < length ?ts" and "?ts ! i \<in> set (waiters_of deadlocked_three a)" for a i
  proof -
    from that(1) have "i = 0 \<or> i = 1 \<or> i = 2" by auto
    with that(2) show ?thesis unfolding w o by (elim disjE) (simp_all split: if_splits)
  qed
  from long_cycle_has_no_locks [OF ok _ _ succ] show ?thesis by simp
qed

end
