(* ===== verification/Conflict_Groups.thy ===== *)
theory Conflict_Groups
  imports Monitor_Invariants
begin

text \<open>
  \<open>analyze_conflict_groups\<close> of \<open>detection.cpp\<close> and \<open>ConflictGroup::conflicts_with\<close>: threads
  are grouped by the locks in their lock sets, the groups get the locks their threads hold and
  want, and groups that want each other's locks are marked. The loops of the three phases are
  folds over the containers in iteration order. \<open>thread_to_group\<close>, which the code keeps beside
  the groups, is what makes the grouping a partition: \<open>grouping\<close> is the loop invariant.
\<close>

definition conflicts_with :: "ConflictGroup \<Rightarrow> ConflictGroup \<Rightarrow> bool" where
  "conflicts_with g other =
     (if list_ex (\<lambda>lock. lock \<in> set (locks_wanted other)) (locks_held g) then True
      else if list_ex (\<lambda>lock. lock \<in> set (locks_held other)) (locks_wanted g) then True
      else False)"

type_synonym grouping_state = "ConflictGroup list \<times> (string, nat) umap \<times> string set"

definition get_or_create_group ::
    "string \<Rightarrow> ConflictGroup list \<Rightarrow> (string, nat) umap \<Rightarrow> nat \<times> ConflictGroup list \<times> (string, nat) umap" where
  "get_or_create_group thread_name groups thread_to_group =
     (case um_find thread_to_group thread_name of
        Some i \<Rightarrow> (i, groups, thread_to_group)
      | None \<Rightarrow>
          (let i = length groups
           in (i, groups @ [\<lparr>group_id = i, threads = [thread_name], locks_held = [],
                  locks_wanted = [], conflicting_groups = []\<rparr>],
               um_put thread_name i thread_to_group)))"

definition shares_lock :: "addr uset \<Rightarrow> addr uset \<Rightarrow> bool" where
  "shares_lock lock_set other_locks = list_ex (\<lambda>lock. lock \<in> set other_locks) lock_set"

text \<open>The body of the inner loop: another thread joins the group of \<open>thread_name\<close>.\<close>

definition join_group ::
    "string \<Rightarrow> addr uset \<Rightarrow> nat \<Rightarrow> string \<times> addr uset \<Rightarrow> grouping_state \<Rightarrow> grouping_state" where
  "join_group thread_name lock_set gid other st =
     (case (other, st) of ((other_thread, other_locks), (groups, thread_to_group, visited)) \<Rightarrow>
        if thread_name = other_thread \<or> other_thread \<in> visited then st
        else if shares_lock lock_set other_locks then
          (groups[gid := (groups ! gid)\<lparr>threads := us_insert other_thread (threads (groups ! gid))\<rparr>],
           um_put other_thread gid thread_to_group, insert other_thread visited)
        else st)"

definition group_by_locks ::
    "(string, addr uset) umap \<Rightarrow> string \<times> addr uset \<Rightarrow> grouping_state \<Rightarrow> grouping_state" where
  "group_by_locks all_locks entry st =
     (case (entry, st) of ((thread_name, lock_set), (groups, thread_to_group, visited)) \<Rightarrow>
        if thread_name \<in> visited then st
        else (case get_or_create_group thread_name groups thread_to_group of
            (gid, groups', thread_to_group') \<Rightarrow>
              fold (join_group thread_name lock_set gid) all_locks
                (groups', thread_to_group', insert thread_name visited)))"

definition group_waiter :: "string \<times> string uset \<Rightarrow> grouping_state \<Rightarrow> grouping_state" where
  "group_waiter entry st =
     (case (entry, st) of ((thread_name, waits), (groups, thread_to_group, visited)) \<Rightarrow>
        if thread_name \<notin> visited then
          (case get_or_create_group thread_name groups thread_to_group of
             (gid, groups', thread_to_group') \<Rightarrow> (groups', thread_to_group', insert thread_name visited))
        else st)"

text \<open>Phase 2: what one thread adds to the lock sets of its group.\<close>

definition add_thread_locks :: "gstate \<Rightarrow> string \<Rightarrow> ConflictGroup \<Rightarrow> ConflictGroup" where
  "add_thread_locks s thread_name g = g\<lparr>
     locks_held := fold us_insert (locks_of s thread_name) (locks_held g),
     locks_wanted := fold (\<lambda>waiting_for wanted.
         fold (\<lambda>(lock_addr, owner) wanted. if owner = waiting_for then us_insert lock_addr wanted else wanted)
           (lock_owners s) wanted)
       (waits_of s thread_name) (locks_wanted g)\<rparr>"

definition populate_group :: "gstate \<Rightarrow> ConflictGroup \<Rightarrow> ConflictGroup" where
  "populate_group s g = fold (add_thread_locks s) (threads g) g"

text \<open>Phase 3: the pairs \<open>i < j\<close> in the order of the two loops.\<close>

definition index_pairs :: "nat \<Rightarrow> (nat \<times> nat) list" where
  "index_pairs n = concat (map (\<lambda>i. map (Pair i) [i + 1..<n]) [0..<n])"

definition mark_conflict :: "nat \<times> nat \<Rightarrow> ConflictGroup list \<Rightarrow> ConflictGroup list" where
  "mark_conflict ij groups =
     (case ij of (i, j) \<Rightarrow>
        if conflicts_with (groups ! i) (groups ! j) then
          (let groups' = groups[i := (groups ! i)\<lparr>conflicting_groups := us_insert j (conflicting_groups (groups ! i))\<rparr>]
           in groups'[j := (groups' ! j)\<lparr>conflicting_groups := us_insert i (conflicting_groups (groups' ! j))\<rparr>])
        else groups)"

definition group_threads :: "gstate \<Rightarrow> grouping_state" where
  "group_threads s =
     fold group_waiter (waits_for s)
       (fold (group_by_locks (thread_locks s)) (thread_locks s) ([], [], {}))"

definition analyze_conflict_groups :: "gstate \<Rightarrow> ConflictGroup list" where
  "analyze_conflict_groups s =
     (let groups = map (populate_group s) (fst (group_threads s))
      in fold mark_conflict (index_pairs (length groups)) groups)"

subsection \<open>Phase 1: the groups partition the threads\<close>

text \<open>Threads are together only when they share a lock with the thread that opened the group.\<close>

definition around_leader :: "gstate \<Rightarrow> ConflictGroup \<Rightarrow> bool" where
  "around_leader s g \<longleftrightarrow> (\<exists>leader \<in> set (threads g). \<forall>t \<in> set (threads g).
     t = leader \<or> shares_lock (locks_of s leader) (locks_of s t))"

definition grouping :: "gstate \<Rightarrow> grouping_state \<Rightarrow> bool" where
  "grouping s st \<longleftrightarrow> (case st of (groups, thread_to_group, visited) \<Rightarrow>
     (\<forall>i < length groups. group_id (groups ! i) = i \<and> distinct (threads (groups ! i)) \<and>
        locks_held (groups ! i) = [] \<and> locks_wanted (groups ! i) = [] \<and>
        conflicting_groups (groups ! i) = [] \<and> around_leader s (groups ! i)) \<and>
     (\<forall>t i. um_find thread_to_group t = Some i \<longleftrightarrow> i < length groups \<and> t \<in> set (threads (groups ! i))) \<and>
     (\<forall>t. t \<in> visited \<longleftrightarrow> um_find thread_to_group t \<noteq> None))"

lemma grouping_start: "grouping s ([], [], {})"
  by (simp add: grouping_def)

lemma grouping_fresh: "grouping s (groups, tg, vis) \<Longrightarrow> t \<notin> vis \<Longrightarrow> um_find tg t = None"
  unfolding grouping_def prod.case by blast

lemma grouping_member:
  "grouping s (groups, tg, vis) \<Longrightarrow> i < length groups \<Longrightarrow> t \<in> set (threads (groups ! i)) \<Longrightarrow> t \<in> vis"
  unfolding grouping_def prod.case by (metis option.distinct(1))

lemma grouping_new:
  assumes st: "grouping s (groups, tg, vis)" and t: "t \<notin> vis"
    and new: "get_or_create_group t groups tg = (gid, groups', tg')"
  shows "grouping s (groups', tg', insert t vis)" "gid = length groups"
    "groups' = groups @ [\<lparr>group_id = length groups, threads = [t], locks_held = [],
       locks_wanted = [], conflicting_groups = []\<rparr>]"
proof -
  have none: "um_find tg t = None" using st t by (rule grouping_fresh)
  have eqs: "gid = length groups \<and> groups' = groups @ [\<lparr>group_id = length groups, threads = [t],
      locks_held = [], locks_wanted = [], conflicting_groups = []\<rparr>] \<and> tg' = um_put t (length groups) tg"
    using new none by (auto simp: get_or_create_group_def Let_def)
  then show "gid = length groups"
    and g': "groups' = groups @ [\<lparr>group_id = length groups, threads = [t], locks_held = [],
       locks_wanted = [], conflicting_groups = []\<rparr>]" by blast+
  have tg': "tg' = um_put t (length groups) tg" using eqs by blast
  have "\<And>i. i < length groups \<Longrightarrow> t \<notin> set (threads (groups ! i))"
    using grouping_member [OF st] t by blast
  then show "grouping s (groups', tg', insert t vis)"
    using st unfolding grouping_def g' tg'
    by (auto simp: nth_append less_Suc_eq around_leader_def)
qed

lemma grouping_join:
  assumes st: "grouping s (groups, tg, vis)" and u: "u \<notin> vis" and gid: "gid < length groups"
    and lead: "leader \<in> set (threads (groups ! gid))"
      "\<forall>t \<in> set (threads (groups ! gid)). t = leader \<or> shares_lock (locks_of s leader) (locks_of s t)"
    and share: "shares_lock (locks_of s leader) (locks_of s u)"
  shows "grouping s (groups[gid := (groups ! gid)\<lparr>threads := us_insert u (threads (groups ! gid))\<rparr>],
    um_put u gid tg, insert u vis)"
proof -
  have none: "um_find tg u = None" using st u by (rule grouping_fresh)
  have "\<And>i. i < length groups \<Longrightarrow> u \<notin> set (threads (groups ! i))"
    using grouping_member [OF st] u by blast
  moreover have "around_leader s ((groups ! gid)\<lparr>threads := us_insert u (threads (groups ! gid))\<rparr>)"
    using lead share by (auto simp: around_leader_def)
  ultimately show ?thesis
    using st gid unfolding grouping_def by (auto simp: nth_list_update)
qed

text \<open>The inner loop keeps the group's leader and the invariant, and drops no visited thread.\<close>

lemma grouping_inner:
  assumes "wf_tables s" and "set os \<subseteq> set (thread_locks s)"
    and "grouping s (groups, tg, vis)" "gid < length groups"
    and "t \<in> set (threads (groups ! gid))"
    and "\<forall>u \<in> set (threads (groups ! gid)). u = t \<or> shares_lock (locks_of s t) (locks_of s u)"
  shows "grouping s (fold (join_group t (locks_of s t) gid) os (groups, tg, vis)) \<and>
    vis \<subseteq> snd (snd (fold (join_group t (locks_of s t) gid) os (groups, tg, vis))) \<and>
    snd (snd (fold (join_group t (locks_of s t) gid) os (groups, tg, vis))) \<subseteq> vis \<union> set (map fst os)"
  using assms(2-)
proof (induction os arbitrary: groups tg vis)
  case Nil
  then show ?case by simp
next
  case (Cons ol os)
  obtain u ls where ol: "ol = (u, ls)" by (cases ol)
  have ls: "ls = locks_of s u"
    using Cons.prems(1) assms(1) by (auto simp: ol um_at_def wf_tables_def in_set_um_find)
  show ?case
  proof (cases "t = u \<or> u \<in> vis \<or> \<not> shares_lock (locks_of s t) ls")
    case True
    then have step: "join_group t (locks_of s t) gid ol (groups, tg, vis) = (groups, tg, vis)"
      by (auto simp: join_group_def ol)
    have os: "set os \<subseteq> set (thread_locks s)" using Cons.prems(1) by simp
    show ?thesis
      unfolding fold_Cons comp_apply step using Cons.IH [OF os Cons.prems(2-)]
      by (simp only: ol list.map fst_conv list.set) blast
  next
    case False
    let ?g = "groups[gid := (groups ! gid)\<lparr>threads := us_insert u (threads (groups ! gid))\<rparr>]"
    have step: "join_group t (locks_of s t) gid ol (groups, tg, vis) = (?g, um_put u gid tg, insert u vis)"
      using False by (simp add: join_group_def ol)
    have g: "grouping s (?g, um_put u gid tg, insert u vis)"
      using False Cons.prems ls by (intro grouping_join) auto
    have t: "t \<in> set (threads (?g ! gid))" using Cons.prems by simp
    have share: "\<forall>x \<in> set (threads (?g ! gid)). x = t \<or> shares_lock (locks_of s t) (locks_of s x)"
      using Cons.prems False ls by simp
    have os: "set os \<subseteq> set (thread_locks s)" and gid: "gid < length ?g" using Cons.prems by auto
    have ih: "grouping s (fold (join_group t (locks_of s t) gid) os (?g, um_put u gid tg, insert u vis)) \<and>
      insert u vis \<subseteq> snd (snd (fold (join_group t (locks_of s t) gid) os (?g, um_put u gid tg, insert u vis))) \<and>
      snd (snd (fold (join_group t (locks_of s t) gid) os (?g, um_put u gid tg, insert u vis)))
        \<subseteq> insert u vis \<union> set (map fst os)"
      by (rule Cons.IH [OF os g gid t share])
    show ?thesis
      unfolding fold_Cons comp_apply step using ih
      by (simp only: ol list.map fst_conv list.set) blast
  qed
qed

abbreviation visited_of :: "grouping_state \<Rightarrow> string set" where
  "visited_of st \<equiv> snd (snd st)"

text \<open>A loop over entries whose body groups the entry's thread.\<close>

lemma grouping_loop:
  assumes "\<And>e st. e \<in> set es \<Longrightarrow> grouping s st \<Longrightarrow>
      grouping s (f e st) \<and> insert (fst e) (visited_of st) \<subseteq> visited_of (f e st) \<and>
      visited_of (f e st) \<subseteq> visited_of st \<union> K"
    and "grouping s st"
  shows "grouping s (fold f es st) \<and> set (map fst es) \<union> visited_of st \<subseteq> visited_of (fold f es st) \<and>
    visited_of (fold f es st) \<subseteq> visited_of st \<union> K"
  using assms
proof (induction es arbitrary: st)
  case Nil
  then show ?case by simp
next
  case (Cons e es)
  have e: "grouping s (f e st)" "insert (fst e) (visited_of st) \<subseteq> visited_of (f e st)"
    "visited_of (f e st) \<subseteq> visited_of st \<union> K"
    using Cons.prems(1) [of e st] Cons.prems(2) by simp_all
  have "grouping s (fold f es (f e st)) \<and>
    set (map fst es) \<union> visited_of (f e st) \<subseteq> visited_of (fold f es (f e st)) \<and>
    visited_of (fold f es (f e st)) \<subseteq> visited_of (f e st) \<union> K"
    using Cons.prems(1) by (intro Cons.IH e(1)) simp_all
  with e show ?case unfolding fold_Cons comp_apply list.map list.set by blast
qed

lemma group_by_locks_step:
  assumes wf: "wf_tables s" and e: "e \<in> set (thread_locks s)" and st: "grouping s st"
  shows "grouping s (group_by_locks (thread_locks s) e st) \<and>
    insert (fst e) (visited_of st) \<subseteq> visited_of (group_by_locks (thread_locks s) e st) \<and>
    visited_of (group_by_locks (thread_locks s) e st) \<subseteq> visited_of st \<union> set (um_keys (thread_locks s))"
proof -
  obtain t ls groups tg vis where es: "e = (t, ls)" "st = (groups, tg, vis)" by (cases e; cases st)
  show ?thesis
  proof (cases "t \<in> vis")
    case True
    then have "group_by_locks (thread_locks s) e st = st" by (simp add: group_by_locks_def es)
    with True st show ?thesis by (auto simp: es)
  next
    case False
    obtain gid groups' tg' where new: "get_or_create_group t groups tg = (gid, groups', tg')"
      by (metis surj_pair)
    note g = grouping_new [OF st [unfolded es] False new]
    have ls: "ls = locks_of s t"
      using wf e by (simp add: es um_at_def wf_tables_def in_set_um_find)
    define st' where "st' = fold (join_group t (locks_of s t) gid) (thread_locks s) (groups', tg', insert t vis)"
    have step: "group_by_locks (thread_locks s) e st = st'"
      using False by (simp add: group_by_locks_def es new ls st'_def)
    have t: "t \<in> set (um_keys (thread_locks s))" using e by (force simp: um_keys_def es)
    have "gid < length groups'" "t \<in> set (threads (groups' ! gid))"
      "\<forall>u \<in> set (threads (groups' ! gid)). u = t \<or> shares_lock (locks_of s t) (locks_of s u)"
      using g(2,3) by simp_all
    from grouping_inner [OF wf subset_refl g(1) this, folded st'_def]
    have "grouping s st'" "insert t vis \<subseteq> visited_of st'"
      "visited_of st' \<subseteq> insert t vis \<union> set (um_keys (thread_locks s))"
      by (simp_all add: um_keys_def)
    with t show ?thesis unfolding step by (auto simp: es)
  qed
qed

lemma group_waiter_step:
  assumes st: "grouping s st"
  shows "grouping s (group_waiter e st) \<and>
    visited_of (group_waiter e st) = insert (fst e) (visited_of st)"
proof -
  obtain t ws groups tg vis where es: "e = (t, ws)" "st = (groups, tg, vis)" by (cases e; cases st)
  obtain gid groups' tg' where new: "get_or_create_group t groups tg = (gid, groups', tg')"
    by (metis surj_pair)
  show ?thesis
    using grouping_new(1) [OF st [unfolded es] _ new] st
    by (cases "t \<in> vis") (auto simp: group_waiter_def es new)
qed

lemma group_threads_grouping:
  assumes "wf_tables s"
  shows "grouping s (group_threads s)"
    and "visited_of (group_threads s) = set (um_keys (thread_locks s)) \<union> set (um_keys (waits_for s))"
proof -
  let ?st = "fold (group_by_locks (thread_locks s)) (thread_locks s) ([], [], {})"
  have one: "grouping s ?st \<and> set (map fst (thread_locks s)) \<union> visited_of ([], [], {}) \<subseteq> visited_of ?st \<and>
    visited_of ?st \<subseteq> visited_of ([], [], {}) \<union> set (um_keys (thread_locks s))"
    by (intro grouping_loop group_by_locks_step assms grouping_start)
  have two: "grouping s (fold group_waiter (waits_for s) ?st) \<and>
    set (map fst (waits_for s)) \<union> visited_of ?st \<subseteq> visited_of (fold group_waiter (waits_for s) ?st) \<and>
    visited_of (fold group_waiter (waits_for s) ?st) \<subseteq> visited_of ?st \<union> set (um_keys (waits_for s))"
    using one by (intro grouping_loop) (auto simp: group_waiter_step um_keys_def)
  then show "grouping s (group_threads s)" by (simp add: group_threads_def)
  from one two show "visited_of (group_threads s) = set (um_keys (thread_locks s)) \<union> set (um_keys (waits_for s))"
    unfolding group_threads_def um_keys_def by auto
qed

subsection \<open>Phases 2 and 3\<close>

lemma set_fold_us_insert: "set (fold us_insert xs ys) = set xs \<union> set ys"
  by (induction xs arbitrary: ys) auto

lemma set_fold_owned:
  "set (fold (\<lambda>(a, o') ws. if o' = u then us_insert a ws else ws) os ws)
     = {a. (a, u) \<in> set os} \<union> set ws"
  by (induction os arbitrary: ws) (auto split: if_splits)

lemma set_fold_wanted:
  "set (fold (\<lambda>u ws. fold (\<lambda>(a, o') ws. if o' = u then us_insert a ws else ws) os ws) us ws)
     = {a. \<exists>u \<in> set us. (a, u) \<in> set os} \<union> set ws"
  by (induction us arbitrary: ws) (auto simp: set_fold_owned)

lemma add_thread_locks_fields:
  "threads (fold (add_thread_locks s) ts g) = threads g"
  "group_id (fold (add_thread_locks s) ts g) = group_id g"
  "conflicting_groups (fold (add_thread_locks s) ts g) = conflicting_groups g"
  "set (locks_held (fold (add_thread_locks s) ts g)) = (\<Union>t \<in> set ts. set (locks_of s t)) \<union> set (locks_held g)"
  "set (locks_wanted (fold (add_thread_locks s) ts g)) =
     {a. \<exists>t \<in> set ts. \<exists>u \<in> set (waits_of s t). (a, u) \<in> set (lock_owners s)} \<union> set (locks_wanted g)"
  by (induction ts arbitrary: g) (auto simp: add_thread_locks_def set_fold_us_insert set_fold_wanted)

lemma conflicts_with_iff:
  "conflicts_with g h \<longleftrightarrow> set (locks_held g) \<inter> set (locks_wanted h) \<noteq> {} \<or>
     set (locks_wanted g) \<inter> set (locks_held h) \<noteq> {}"
  by (auto simp: conflicts_with_def list_ex_iff)

lemma conflicts_with_sym: "conflicts_with g h = conflicts_with h g"
  by (auto simp: conflicts_with_iff)

lemma set_index_pairs: "set (index_pairs n) = {(i, j). i < j \<and> j < n}"
  by (fastforce simp: index_pairs_def image_iff)

text \<open>Two lists of groups that agree in all but the conflict marks.\<close>

definition same_groups :: "ConflictGroup list \<Rightarrow> ConflictGroup list \<Rightarrow> bool" where
  "same_groups gs hs \<longleftrightarrow> length gs = length hs \<and> (\<forall>i < length gs.
     group_id (gs ! i) = group_id (hs ! i) \<and> threads (gs ! i) = threads (hs ! i) \<and>
     locks_held (gs ! i) = locks_held (hs ! i) \<and> locks_wanted (gs ! i) = locks_wanted (hs ! i))"

lemma same_groups_conflicts:
  "same_groups gs hs \<Longrightarrow> i < length gs \<Longrightarrow> j < length gs \<Longrightarrow>
     conflicts_with (gs ! i) (gs ! j) = conflicts_with (hs ! i) (hs ! j)"
  by (simp add: same_groups_def conflicts_with_iff)

lemma mark_conflict_same: "i < length gs \<Longrightarrow> j < length gs \<Longrightarrow> same_groups gs (mark_conflict (i, j) gs)"
  by (auto simp: same_groups_def mark_conflict_def Let_def nth_list_update)

lemma mark_conflict_marks:
  "i < j \<Longrightarrow> j < length gs \<Longrightarrow> k < length gs \<Longrightarrow>
     set (conflicting_groups (mark_conflict (i, j) gs ! k)) = set (conflicting_groups (gs ! k)) \<union>
       {l. ((k, l) = (i, j) \<or> (l, k) = (i, j)) \<and> conflicts_with (gs ! i) (gs ! j)}"
  by (auto simp: mark_conflict_def Let_def nth_list_update)

lemma fold_mark_conflict:
  assumes "\<And>i j. (i, j) \<in> set ps \<Longrightarrow> i < j \<and> j < length gs"
  shows "same_groups gs (fold mark_conflict ps gs) \<and> (\<forall>k < length gs.
     set (conflicting_groups (fold mark_conflict ps gs ! k)) = set (conflicting_groups (gs ! k)) \<union>
       {l. ((k, l) \<in> set ps \<or> (l, k) \<in> set ps) \<and> conflicts_with (gs ! k) (gs ! l)})"
  using assms
proof (induction ps arbitrary: gs)
  case Nil
  then show ?case by (simp add: same_groups_def)
next
  case (Cons p ps)
  obtain i j where p: "p = (i, j)" by (cases p)
  then have ij: "i < j" "j < length gs" using Cons.prems by auto
  let ?gs = "mark_conflict (i, j) gs"
  have same: "same_groups gs ?gs" using ij by (intro mark_conflict_same) simp_all
  then have len: "length ?gs = length gs" by (simp add: same_groups_def)
  have ih: "same_groups ?gs (fold mark_conflict ps ?gs) \<and> (\<forall>k < length ?gs.
     set (conflicting_groups (fold mark_conflict ps ?gs ! k)) = set (conflicting_groups (?gs ! k)) \<union>
       {l. ((k, l) \<in> set ps \<or> (l, k) \<in> set ps) \<and> conflicts_with (?gs ! k) (?gs ! l)})"
    using Cons.prems by (intro Cons.IH) (auto simp: len)
  have "set (conflicting_groups (fold mark_conflict ps ?gs ! k)) = set (conflicting_groups (gs ! k)) \<union>
       {l. ((k, l) \<in> set (p # ps) \<or> (l, k) \<in> set (p # ps)) \<and> conflicts_with (gs ! k) (gs ! l)}"
    if k: "k < length gs" for k
  proof -
    have "conflicts_with (?gs ! k) (?gs ! l) = conflicts_with (gs ! k) (gs ! l)"
      if "(k, l) \<in> set ps \<or> (l, k) \<in> set ps" for l
    proof -
      have "l < length gs" using Cons.prems [of k l] Cons.prems [of l k] that by fastforce
      with same_groups_conflicts [OF same k] show ?thesis by simp
    qed
    then show ?thesis
      using ih k mark_conflict_marks [OF ij k] conflicts_with_sym [of "gs ! i" "gs ! j"]
      by (auto simp: len p)
  qed
  moreover have "same_groups gs (fold mark_conflict ps ?gs)"
    using same ih by (simp add: same_groups_def)
  ultimately show ?case by (simp add: p)
qed

subsection \<open>The analysis\<close>

lemma analyze_same: "same_groups (map (populate_group s) (fst (group_threads s))) (analyze_conflict_groups s)"
  unfolding analyze_conflict_groups_def Let_def
  by (rule fold_mark_conflict [THEN conjunct1]) (auto simp: set_index_pairs)

lemma analyze_length: "length (analyze_conflict_groups s) = length (fst (group_threads s))"
  using analyze_same [of s] by (simp add: same_groups_def)

lemma populate_fields: "threads (populate_group s g) = threads g" "group_id (populate_group s g) = group_id g"
  by (simp_all add: populate_group_def add_thread_locks_fields)

lemma analyze_fields:
  assumes "i < length (analyze_conflict_groups s)"
  shows "threads (analyze_conflict_groups s ! i) = threads (fst (group_threads s) ! i)"
    and "group_id (analyze_conflict_groups s ! i) = group_id (fst (group_threads s) ! i)"
    and "locks_held (analyze_conflict_groups s ! i) = locks_held (populate_group s (fst (group_threads s) ! i))"
    and "locks_wanted (analyze_conflict_groups s ! i) = locks_wanted (populate_group s (fst (group_threads s) ! i))"
proof -
  have i: "i < length (fst (group_threads s))" using assms by (simp add: analyze_length)
  with analyze_same [of s]
  have eqs: "group_id (analyze_conflict_groups s ! i) = group_id (populate_group s (fst (group_threads s) ! i))"
    "threads (analyze_conflict_groups s ! i) = threads (populate_group s (fst (group_threads s) ! i))"
    "locks_held (analyze_conflict_groups s ! i) = locks_held (populate_group s (fst (group_threads s) ! i))"
    "locks_wanted (analyze_conflict_groups s ! i) = locks_wanted (populate_group s (fst (group_threads s) ! i))"
    unfolding same_groups_def by (auto simp: nth_map)
  then show "threads (analyze_conflict_groups s ! i) = threads (fst (group_threads s) ! i)"
    and "group_id (analyze_conflict_groups s ! i) = group_id (fst (group_threads s) ! i)"
    and "locks_held (analyze_conflict_groups s ! i) = locks_held (populate_group s (fst (group_threads s) ! i))"
    and "locks_wanted (analyze_conflict_groups s ! i) = locks_wanted (populate_group s (fst (group_threads s) ! i))"
    by (simp_all only: populate_fields)
qed

lemma analyze_group:
  assumes "wf_tables s" and "i < length (analyze_conflict_groups s)"
  shows "group_id (analyze_conflict_groups s ! i) = i"
    and "distinct (threads (analyze_conflict_groups s ! i))"
    and "around_leader s (analyze_conflict_groups s ! i)"
proof -
  obtain groups tg vis where st: "group_threads s = (groups, tg, vis)" by (cases "group_threads s")
  have "i < length groups" using assms(2) by (simp add: analyze_length st)
  with group_threads_grouping(1) [OF assms(1)]
  show "group_id (analyze_conflict_groups s ! i) = i"
    and "distinct (threads (analyze_conflict_groups s ! i))"
    and "around_leader s (analyze_conflict_groups s ! i)"
    by (simp_all add: analyze_fields [OF assms(2)] st grouping_def around_leader_def)
qed

text \<open>The group of a thread: where it is, and that it is in no other.\<close>

lemma analyze_member:
  assumes "wf_tables s"
  shows "(\<exists>i < length (analyze_conflict_groups s). t \<in> set (threads (analyze_conflict_groups s ! i)))
      \<longleftrightarrow> t \<in> set (um_keys (thread_locks s)) \<union> set (um_keys (waits_for s))"
    and "i < length (analyze_conflict_groups s) \<Longrightarrow> j < length (analyze_conflict_groups s) \<Longrightarrow>
      t \<in> set (threads (analyze_conflict_groups s ! i)) \<Longrightarrow>
      t \<in> set (threads (analyze_conflict_groups s ! j)) \<Longrightarrow> i = j"
proof -
  obtain groups tg vis where st: "group_threads s = (groups, tg, vis)" by (cases "group_threads s")
  note len = analyze_length [of s, unfolded st fst_conv]
  have fields: "threads (analyze_conflict_groups s ! i) = threads (groups ! i)" if "i < length groups" for i
    using analyze_fields(1) [of i s] that by (simp add: len st)
  have tg: "um_find tg t = Some i \<longleftrightarrow> i < length groups \<and> t \<in> set (threads (groups ! i))" for t i
    using group_threads_grouping(1) [OF assms] unfolding st grouping_def prod.case by blast
  have vis: "t \<in> vis \<longleftrightarrow> um_find tg t \<noteq> None" for t
    using group_threads_grouping(1) [OF assms] unfolding st grouping_def prod.case by blast
  have "(\<exists>i < length groups. t \<in> set (threads (groups ! i))) \<longleftrightarrow> t \<in> vis"
    unfolding vis using tg by blast
  then show "(\<exists>i < length (analyze_conflict_groups s). t \<in> set (threads (analyze_conflict_groups s ! i)))
      \<longleftrightarrow> t \<in> set (um_keys (thread_locks s)) \<union> set (um_keys (waits_for s))"
    using group_threads_grouping(2) [OF assms] fields by (auto simp: len st)
  show "i < length (analyze_conflict_groups s) \<Longrightarrow> j < length (analyze_conflict_groups s) \<Longrightarrow>
      t \<in> set (threads (analyze_conflict_groups s ! i)) \<Longrightarrow>
      t \<in> set (threads (analyze_conflict_groups s ! j)) \<Longrightarrow> i = j"
    using tg fields unfolding len by (metis option.inject)
qed

text \<open>The groups of two deadlocked threads.\<close>

lemma deadlocked_pair_groups: "analyze_conflict_groups deadlocked_pair = [
   \<lparr>group_id = 0, threads = [''b[2]''], locks_held = [0x20000], locks_wanted = [0x10000], conflicting_groups = [1]\<rparr>,
   \<lparr>group_id = 1, threads = [''a[1]''], locks_held = [0x10000], locks_wanted = [0x20000], conflicting_groups = [0]\<rparr>]"
  by code_simp

lemma deadlocked_pair_wf: "wf_tables deadlocked_pair"
  using deadlocked_pair_tables by (simp add: table_inv_def)

text \<open>C16: the groups of \<open>analyze_conflict_groups\<close> partition the threads of the tables: a thread is in
  exactly one group when it has a lock set or a wait set, and in none otherwise; group \<open>i\<close> has the
  id \<open>i\<close>, and it has a leader that shares a lock with each of its other threads.\<close>

theorem conflict_groups_partition:
  assumes "wf_tables s"
  shows "((\<exists>!i. i < length (analyze_conflict_groups s) \<and> t \<in> set (threads (analyze_conflict_groups s ! i)))
      \<longleftrightarrow> t \<in> set (um_keys (thread_locks s)) \<union> set (um_keys (waits_for s))) \<and>
    ((\<exists>i < length (analyze_conflict_groups s). t \<in> set (threads (analyze_conflict_groups s ! i)))
      \<longleftrightarrow> t \<in> set (um_keys (thread_locks s)) \<union> set (um_keys (waits_for s))) \<and>
    (\<forall>i < length (analyze_conflict_groups s).
      group_id (analyze_conflict_groups s ! i) = i \<and> around_leader s (analyze_conflict_groups s ! i))"
proof (intro conjI)
  let ?in = "\<lambda>i. i < length (analyze_conflict_groups s) \<and> t \<in> set (threads (analyze_conflict_groups s ! i))"
  show some: "(\<exists>i < length (analyze_conflict_groups s). t \<in> set (threads (analyze_conflict_groups s ! i)))
      \<longleftrightarrow> t \<in> set (um_keys (thread_locks s)) \<union> set (um_keys (waits_for s))"
    by (rule analyze_member(1) [OF assms])
  have "\<And>i j. ?in i \<Longrightarrow> ?in j \<Longrightarrow> i = j" using analyze_member(2) [OF assms] by blast
  then have "(\<exists>!i. ?in i) \<longleftrightarrow> (\<exists>i. ?in i)" by blast
  with some show "(\<exists>!i. ?in i) \<longleftrightarrow> t \<in> set (um_keys (thread_locks s)) \<union> set (um_keys (waits_for s))"
    by blast
  show "\<forall>i < length (analyze_conflict_groups s).
      group_id (analyze_conflict_groups s ! i) = i \<and> around_leader s (analyze_conflict_groups s ! i)"
    using analyze_group(1,3) [OF assms] by blast
qed

theorem conflict_groups_partition_witness:
  "\<exists>!i. i < length (analyze_conflict_groups deadlocked_pair)
     \<and> ''a[1]'' \<in> set (threads (analyze_conflict_groups deadlocked_pair ! i))"
  using conflict_groups_partition [OF deadlocked_pair_wf, of "''a[1]''"]
  by (simp add: deadlocked_pair_def um_keys_def)

text \<open>C28: a group holds exactly the locks in its threads' lock sets, and wants exactly the locks whose
  recorded owner one of its threads waits for.\<close>

theorem conflict_groups_locks:
  assumes "wf_tables s" and "i < length (analyze_conflict_groups s)"
  shows "set (locks_held (analyze_conflict_groups s ! i)) =
      (\<Union>t \<in> set (threads (analyze_conflict_groups s ! i)). set (locks_of s t)) \<and>
    set (locks_wanted (analyze_conflict_groups s ! i)) =
      {a. \<exists>t \<in> set (threads (analyze_conflict_groups s ! i)). \<exists>u \<in> set (waits_of s t).
        um_find (lock_owners s) a = Some u}"
proof -
  obtain groups tg vis where st: "group_threads s = (groups, tg, vis)" by (cases "group_threads s")
  have "i < length groups" using assms(2) by (simp add: analyze_length st)
  then have empty: "locks_held (groups ! i) = []" "locks_wanted (groups ! i) = []"
    using group_threads_grouping(1) [OF assms(1)] unfolding st grouping_def prod.case by blast+
  have "um_ok (lock_owners s)" using assms(1) by (simp add: wf_tables_def)
  then show ?thesis
    using empty unfolding analyze_fields [OF assms(2)] populate_group_def add_thread_locks_fields
    by (simp add: st in_set_um_find)
qed

theorem conflict_groups_locks_witness:
  "set (locks_wanted (analyze_conflict_groups deadlocked_pair ! 0)) = {0x10000}"
  using conflict_groups_locks [OF deadlocked_pair_wf, of 0] by (simp add: deadlocked_pair_groups)

text \<open>C29: the conflict marks are symmetric and complete: \<open>j\<close> is marked in group \<open>i\<close> exactly when the two
  are different groups and one wants a lock that the other holds.\<close>

theorem conflict_groups_marks:
  assumes "wf_tables s" and "i < length (analyze_conflict_groups s)" and "j < length (analyze_conflict_groups s)"
  shows "(j \<in> set (conflicting_groups (analyze_conflict_groups s ! i)) \<longleftrightarrow>
      i \<noteq> j \<and> conflicts_with (analyze_conflict_groups s ! i) (analyze_conflict_groups s ! j)) \<and>
    (j \<in> set (conflicting_groups (analyze_conflict_groups s ! i)) \<longleftrightarrow>
      i \<in> set (conflicting_groups (analyze_conflict_groups s ! j)))"
proof -
  let ?gs = "map (populate_group s) (fst (group_threads s))" and ?n = "length (fst (group_threads s))"
  obtain groups tg vis where st: "group_threads s = (groups, tg, vis)" by (cases "group_threads s")
  have empty: "conflicting_groups (?gs ! k) = []" if "k < ?n" for k
  proof -
    have "conflicting_groups (groups ! k) = []"
      using group_threads_grouping(1) [OF assms(1)] that unfolding st grouping_def prod.case fst_conv by blast
    then show ?thesis using that by (simp add: st populate_group_def add_thread_locks_fields)
  qed
  have "l \<in> set (conflicting_groups (analyze_conflict_groups s ! k)) \<longleftrightarrow>
      k \<noteq> l \<and> conflicts_with (analyze_conflict_groups s ! k) (analyze_conflict_groups s ! l)"
    if kl: "k < ?n" "l < ?n" for k l
  proof -
    have e: "analyze_conflict_groups s = fold mark_conflict (index_pairs ?n) ?gs"
      by (simp add: analyze_conflict_groups_def)
    have "set (conflicting_groups (analyze_conflict_groups s ! k)) =
      {m. ((k, m) \<in> set (index_pairs ?n) \<or> (m, k) \<in> set (index_pairs ?n)) \<and> conflicts_with (?gs ! k) (?gs ! m)}"
      using fold_mark_conflict [of "index_pairs ?n" ?gs] kl empty unfolding e
      by (simp add: set_index_pairs)
    then have "l \<in> set (conflicting_groups (analyze_conflict_groups s ! k)) \<longleftrightarrow>
        k \<noteq> l \<and> conflicts_with (?gs ! k) (?gs ! l)"
      using kl by (simp only: set_index_pairs mem_Collect_eq prod.case) (metis nat_neq_iff)
    moreover have "conflicts_with (?gs ! k) (?gs ! l) =
        conflicts_with (analyze_conflict_groups s ! k) (analyze_conflict_groups s ! l)"
      using same_groups_conflicts [OF analyze_same] kl by simp
    ultimately show ?thesis by (simp only:)
  qed
  from this [of i j] this [of j i] show ?thesis
    using assms(2,3) conflicts_with_sym [of "analyze_conflict_groups s ! i" "analyze_conflict_groups s ! j"]
    unfolding analyze_length by blast
qed

theorem conflict_groups_marks_witness:
  "conflicts_with (analyze_conflict_groups deadlocked_pair ! 0) (analyze_conflict_groups deadlocked_pair ! 1)"
  using conflict_groups_marks [OF deadlocked_pair_wf, of 0 1] by (simp add: deadlocked_pair_groups)

end
