(* ===== verification/Group_Cycles.thy ===== *)
theory Group_Cycles
  imports Conflict_Groups Digraph
begin

text \<open>
  \<open>find_group_cycles\<close> and \<open>expand_group_cycle_to_threads\<close> of \<open>detection.cpp\<close>: the graph of
  the groups, the depth-first search that collects its cycles, the choice of a largest one, and
  the threads picked for it. Unlike \<open>dfs_deadlock\<close> this search never stops early and keeps the
  path from the root, so a cycle it reports is a simple cycle of the graph.
\<close>

subsection \<open>The graph of the groups\<close>

definition group_of :: "ConflictGroup list \<Rightarrow> string \<Rightarrow> nat" where
  "group_of groups thread =
     (case find (\<lambda>g. thread \<in> set (threads g)) groups of None \<Rightarrow> size_max | Some g \<Rightarrow> group_id g)"

definition add_group_edges ::
    "ConflictGroup list \<Rightarrow> string \<times> string uset \<Rightarrow> (nat, nat uset) umap \<Rightarrow> (nat, nat uset) umap" where
  "add_group_edges groups entry graph =
     (case entry of (waiter, waits) \<Rightarrow>
        (let waiter_group = group_of groups waiter
         in if waiter_group = size_max then graph
            else fold (\<lambda>target graph.
                   (let target_group = group_of groups target
                    in if target_group \<noteq> size_max \<and> target_group \<noteq> waiter_group
                       then um_adjust waiter_group [] (us_insert target_group) graph
                       else graph))
                 waits graph))"

definition group_wait_graph :: "gstate \<Rightarrow> (nat, nat uset) umap" where
  "group_wait_graph s = fold (add_group_edges (analyze_conflict_groups s)) (waits_for s) []"

subsection \<open>The search\<close>

text \<open>A cycle is recorded unless it is there already.\<close>

definition record_cycle :: "nat list \<Rightarrow> nat \<Rightarrow> nat list list \<Rightarrow> nat list list" where
  "record_cycle path neighbor cycles =
     (if neighbor \<in> set path then
        (let c = dropWhile (\<lambda>g. g \<noteq> neighbor) path
         in if c \<in> set cycles then cycles else cycles @ [c])
      else cycles)"

function group_dfs :: "(nat, nat uset) umap \<Rightarrow> nat \<Rightarrow> nat set \<Rightarrow> nat set \<Rightarrow> nat list \<Rightarrow> nat list list
      \<Rightarrow> nat set \<times> nat set \<times> nat list \<times> nat list list"
  and group_dfs_loop :: "(nat, nat uset) umap \<Rightarrow> nat list \<Rightarrow> nat set \<Rightarrow> nat set \<Rightarrow> nat list \<Rightarrow> nat list list
      \<Rightarrow> nat set \<times> nat set \<times> nat list \<times> nat list list" where
  "group_dfs g current visited in_stack path cycles =
     (case group_dfs_loop g (um_at [] g current) (insert current visited) (insert current in_stack)
             (path @ [current]) cycles of
        (visited', in_stack', path', cycles') \<Rightarrow>
          (visited', in_stack' - {current}, butlast path', cycles'))"
| "group_dfs_loop g [] visited in_stack path cycles = (visited, in_stack, path, cycles)"
| "group_dfs_loop g (neighbor # rest) visited in_stack path cycles =
     (if neighbor \<notin> visited then
        (case group_dfs g neighbor visited in_stack path cycles of
           (visited', in_stack', path', cycles') \<Rightarrow> group_dfs_loop g rest visited' in_stack' path' cycles')
      else if neighbor \<in> in_stack then
        group_dfs_loop g rest visited in_stack path (record_cycle path neighbor cycles)
      else group_dfs_loop g rest visited in_stack path cycles)"
  by pat_completeness auto

lemma group_dfs_grows_dom:
  "group_dfs_group_dfs_loop_dom (Inl (g, t, V, S, p, c)) \<Longrightarrow> V \<subseteq> fst (group_dfs g t V S p c)"
  "group_dfs_group_dfs_loop_dom (Inr (g, ns, V, S, p, c)) \<Longrightarrow> V \<subseteq> fst (group_dfs_loop g ns V S p c)"
proof (induction g t V S p c and g ns V S p c rule: group_dfs_group_dfs_loop.pinduct)
  case (1 g t V S p c)
  then show ?case by (auto simp: group_dfs.psimps split: prod.splits)
next
  case (2 g V S p c)
  then show ?case by (simp add: group_dfs_loop.psimps)
next
  case (3 g n ns V S p c)
  show ?case
  proof (cases "n \<in> V")
    case True
    with 3 show ?thesis by (auto simp: group_dfs_loop.psimps)
  next
    case False
    obtain V' S' p' c' where d: "group_dfs g n V S p c = (V', S', p', c')" by (metis surj_pair)
    have "V' \<subseteq> fst (group_dfs_loop g ns V' S' p' c')"
      using "3.IH"(2) [OF False d [symmetric] refl refl] .
    moreover have "V \<subseteq> V'" using "3.IH"(1) d False by simp
    ultimately show ?thesis using False d "3.hyps" by (auto simp: group_dfs_loop.psimps)
  qed
qed

definition group_dfs_rank :: "(nat, nat uset) umap \<times> nat \<times> nat set \<times> nat set \<times> nat list \<times> nat list list
    + (nat, nat uset) umap \<times> nat list \<times> nat set \<times> nat set \<times> nat list \<times> nat list list \<Rightarrow> nat \<times> nat" where
  "group_dfs_rank x = (case x of
     Inl (g, t, V, S, p, c) \<Rightarrow> (unvisited (um_at [] g) [t] V,
       if t \<in> V then Suc (length (um_at [] g t)) else 0)
   | Inr (g, ns, V, S, p, c) \<Rightarrow> (unvisited (um_at [] g) ns V, length ns))"

abbreviation group_dfs_less where
  "group_dfs_less x y \<equiv> (group_dfs_rank x, group_dfs_rank y) \<in> less_than <*lex*> less_than"

lemma group_dfs_rank_enter:
  "group_dfs_less (Inr (g, um_at [] g t, insert t V, S', p', c)) (Inl (g, t, V, S, p, c))"
  using adj.unvisited_visit [of t V g] adj.unvisited_again [of t V g]
  by (cases "t \<in> V") (auto simp: group_dfs_rank_def)

lemma group_dfs_rank_visit:
  "n \<notin> V \<Longrightarrow> group_dfs_less (Inl (g, n, V, S, p, c)) (Inr (g, n # ns, V, S, p, c))"
  using adj.unvisited_hd [of g n V ns] by (auto simp: group_dfs_rank_def)

lemma group_dfs_rank_next:
  "V \<subseteq> V' \<Longrightarrow> group_dfs_less (Inr (g, ns, V', S', p', c')) (Inr (g, n # ns, V, S, p, c))"
  using adj.unvisited_tl [of V V' g ns n] by (auto simp: group_dfs_rank_def)

lemma group_dfs_rank_rest:
  assumes "group_dfs_group_dfs_loop_dom (Inl (g, n, V, S, p, c))"
  shows "group_dfs_less (Inr (g, ns, group_dfs g n V S p c)) (Inr (g, n # ns, V, S, p, c))"
proof -
  obtain V' S' p' c' where d: "group_dfs g n V S p c = (V', S', p', c')" by (metis surj_pair)
  with group_dfs_grows_dom(1) [OF assms] have "V \<subseteq> V'" by simp
  then show ?thesis unfolding d by (rule group_dfs_rank_next)
qed

termination group_dfs
  by (relation "inv_image (less_than <*lex*> less_than) group_dfs_rank")
    (auto intro: group_dfs_rank_enter group_dfs_rank_visit group_dfs_rank_next group_dfs_rank_rest)

declare group_dfs.simps [simp del] group_dfs_loop.simps [simp del]

text \<open>The loop over the nodes with outgoing edges, and the first largest cycle (\<open>std::max_element\<close>).\<close>

definition visit_group :: "(nat, nat uset) umap \<Rightarrow> nat
    \<Rightarrow> nat set \<times> nat set \<times> nat list \<times> nat list list \<Rightarrow> nat set \<times> nat set \<times> nat list \<times> nat list list" where
  "visit_group graph gid st =
     (case st of (visited, in_stack, path, cycles) \<Rightarrow>
        if gid \<notin> visited then group_dfs graph gid visited in_stack path cycles else st)"

definition collect_group_cycles :: "(nat, nat uset) umap \<Rightarrow> nat list list" where
  "collect_group_cycles graph =
     (case fold (visit_group graph) (um_keys graph) ({}, {}, [], []) of
       (visited, in_stack, path, cycles) \<Rightarrow> cycles)"

fun max_element :: "nat list \<Rightarrow> nat list list \<Rightarrow> nat list" where
  "max_element largest [] = largest"
| "max_element largest (c # cs) = max_element (if length largest < length c then c else largest) cs"

definition find_group_cycles :: "gstate \<Rightarrow> nat list" where
  "find_group_cycles s =
     (case collect_group_cycles (group_wait_graph s) of
        [] \<Rightarrow> []
      | c # cs \<Rightarrow> max_element c cs)"

subsection \<open>What the search collects\<close>

definition simple_cycle :: "('a \<Rightarrow> 'a list) \<Rightarrow> 'a list \<Rightarrow> bool" where
  "simple_cycle succs c \<longleftrightarrow> c \<noteq> [] \<and> distinct c \<and> walk succs c \<and> hd c \<in> set (succs (last c))"

definition path_ok :: "(nat, nat uset) umap \<Rightarrow> nat set \<Rightarrow> nat set \<Rightarrow> nat list \<Rightarrow> bool" where
  "path_ok g V S p \<longleftrightarrow> set p = S \<and> distinct p \<and> walk (um_at [] g) p \<and> S \<subseteq> V"

definition cycles_ok :: "(nat, nat uset) umap \<Rightarrow> nat list list \<Rightarrow> bool" where
  "cycles_ok g cs \<longleftrightarrow> (\<forall>c \<in> set cs. simple_cycle (um_at [] g) c)"

lemma path_ok_snoc:
  "path_ok g V S p \<Longrightarrow> t \<notin> V \<Longrightarrow> p = [] \<or> t \<in> set (um_at [] g (last p)) \<Longrightarrow>
     path_ok g (insert t V) (insert t S) (p @ [t])"
  by (auto simp: path_ok_def walk_append)

lemma walk_dropWhile: "walk succs p \<Longrightarrow> walk succs (dropWhile P p)"
  by (metis takeWhile_dropWhile_id walk_append)

lemma record_cycle_ok:
  assumes p: "path_ok g V S p" and n: "n \<in> S" "n \<in> set (um_at [] g (last p))" and c: "cycles_ok g c"
  shows "cycles_ok g (record_cycle p n c)" "record_cycle p n c \<noteq> []" "set c \<subseteq> set (record_cycle p n c)"
proof -
  let ?d = "dropWhile (\<lambda>x. x \<noteq> n) p"
  have np: "n \<in> set p" using p n by (simp add: path_ok_def)
  then have ne: "?d \<noteq> []" by (simp add: dropWhile_eq_Nil_conv)
  then have "hd ?d = n" using hd_dropWhile [of "\<lambda>x. x \<noteq> n" p] by simp
  moreover have "last ?d = last p" using ne by (metis last_appendR takeWhile_dropWhile_id)
  moreover have "distinct ?d" "walk (um_at [] g) ?d"
    using p by (simp_all add: path_ok_def distinct_dropWhile walk_dropWhile)
  ultimately have "simple_cycle (um_at [] g) ?d" using ne n by (simp add: simple_cycle_def)
  with c np show "cycles_ok g (record_cycle p n c)" "record_cycle p n c \<noteq> []"
    "set c \<subseteq> set (record_cycle p n c)"
    by (auto simp: record_cycle_def cycles_ok_def Let_def)
qed

text \<open>
  The path and the stack are restored, every recorded cycle is a simple cycle of the graph, and
  where none is recorded the visited nodes that are off the stack are settled.
\<close>

definition dfs_post :: "(nat, nat uset) umap \<Rightarrow> nat set \<Rightarrow> nat set \<Rightarrow> nat list \<Rightarrow> nat list list \<Rightarrow> nat set
    \<Rightarrow> nat set \<times> nat set \<times> nat list \<times> nat list list \<Rightarrow> bool" where
  "dfs_post g V S p c seen r \<longleftrightarrow> (case r of (V', S', p', c') \<Rightarrow>
     p' = p \<and> S' = S \<and> V \<subseteq> V' \<and> cycles_ok g c' \<and> (c \<noteq> [] \<longrightarrow> c' \<noteq> []) \<and>
     (c' = [] \<longrightarrow> settled (um_at [] g) (V - S) \<longrightarrow> settled (um_at [] g) (V' - S) \<and> seen \<subseteq> V' - S))"

lemma group_dfs_post:
  "t \<notin> V \<Longrightarrow> path_ok g V S p \<Longrightarrow> p = [] \<or> t \<in> set (um_at [] g (last p)) \<Longrightarrow> cycles_ok g c \<Longrightarrow>
     dfs_post g V S p c {t} (group_dfs g t V S p c)"
  "p \<noteq> [] \<Longrightarrow> path_ok g V S p \<Longrightarrow> set ns \<subseteq> set (um_at [] g (last p)) \<Longrightarrow> cycles_ok g c \<Longrightarrow>
     dfs_post g V S p c (set ns) (group_dfs_loop g ns V S p c)"
proof (induction g t V S p c and g ns V S p c rule: group_dfs_group_dfs_loop.induct)
  case (1 g t V S p c)
  obtain V' S' p' c' where d: "group_dfs_loop g (um_at [] g t) (insert t V) (insert t S) (p @ [t]) c = (V', S', p', c')"
    by (metis surj_pair)
  have "dfs_post g (insert t V) (insert t S) (p @ [t]) c (set (um_at [] g t)) (V', S', p', c')"
    unfolding d [symmetric] using "1.prems" by (intro "1.IH" path_ok_snoc) auto
  then have post: "p' = p @ [t]" "S' = insert t S" "insert t V \<subseteq> V'" "cycles_ok g c'" "c \<noteq> [] \<longrightarrow> c' \<noteq> []"
    "c' = [] \<longrightarrow> settled (um_at [] g) (insert t V - insert t S) \<longrightarrow>
      settled (um_at [] g) (V' - insert t S) \<and> set (um_at [] g t) \<subseteq> V' - insert t S"
    by (simp_all add: dfs_post_def)
  have tS: "t \<notin> S" "S \<subseteq> V" using "1.prems" by (auto simp: path_ok_def)
  have minus: "insert t V - insert t S = V - S" "insert t (V' - insert t S) = V' - S"
    using tS "1.prems"(1) post(3) by auto
  have "settled (um_at [] g) (V' - S)" if "c' = []" "settled (um_at [] g) (V - S)"
    using settled_insert [of "um_at [] g" "V' - insert t S" t] post(6) that by (simp add: minus)
  then show ?case
    using post tS by (auto simp: dfs_post_def group_dfs.simps [of g t] d)
next
  case (2 g V S p c)
  then show ?case by (simp add: dfs_post_def group_dfs_loop.simps)
next
  case (3 g n ns V S p c)
  consider (fresh) "n \<notin> V" | (active) "n \<in> V" "n \<in> S" | (seen) "n \<in> V" "n \<notin> S" by blast
  then show ?case
  proof cases
    case fresh
    obtain V1 S1 p1 c1 where d: "group_dfs g n V S p c = (V1, S1, p1, c1)" by (metis surj_pair)
    have "dfs_post g V S p c {n} (V1, S1, p1, c1)"
      unfolding d [symmetric] using "3.prems" fresh by (intro "3.IH"(1)) auto
    then have one: "p1 = p" "S1 = S" "V \<subseteq> V1" "cycles_ok g c1" "c \<noteq> [] \<longrightarrow> c1 \<noteq> []"
      "c1 = [] \<longrightarrow> settled (um_at [] g) (V - S) \<longrightarrow> settled (um_at [] g) (V1 - S) \<and> n \<in> V1 - S"
      by (simp_all add: dfs_post_def)
    have "path_ok g V1 S p" using "3.prems"(2) one(3) by (auto simp: path_ok_def)
    then have "dfs_post g V1 S p c1 (set ns) (group_dfs_loop g ns V1 S p c1)"
      using "3.IH"(2) [OF fresh d [symmetric] refl refl] "3.prems" one by auto
    then show ?thesis
      using fresh one by (auto simp: dfs_post_def group_dfs_loop.simps(2) d split: prod.splits)
  next
    case active
    note rec = record_cycle_ok [OF "3.prems"(2) active(2) _ "3.prems"(4)]
    have "dfs_post g V S p (record_cycle p n c) (set ns) (group_dfs_loop g ns V S p (record_cycle p n c))"
      using "3.IH"(3) active "3.prems" rec(1) by auto
    then show ?thesis
      using active rec(2) "3.prems" by (auto simp: dfs_post_def group_dfs_loop.simps(2) split: prod.splits)
  next
    case seen
    have "dfs_post g V S p c (set ns) (group_dfs_loop g ns V S p c)"
      using "3.IH"(4) seen "3.prems" by auto
    then show ?thesis
      using seen by (auto simp: dfs_post_def group_dfs_loop.simps(2) split: prod.splits)
  qed
qed

lemma simple_cycle_not_acyclic:
  assumes "simple_cycle succs c"
  shows "\<not> acyclic (edges succs)"
proof
  assume a: "acyclic (edges succs)"
  have "(hd c, last c) \<in> (edges succs)\<^sup>*" using assms by (auto simp: simple_cycle_def intro: walk_rtrancl)
  moreover have "(last c, hd c) \<in> edges succs" using assms by (simp add: simple_cycle_def edges_def)
  ultimately have "(last c, last c) \<in> (edges succs)\<^sup>+" by (rule rtrancl_into_trancl2 [rotated])
  with a show False by (simp add: acyclic_def)
qed

lemma group_dfs_visits: "insert t V \<subseteq> fst (group_dfs g t V S p c)" "V \<subseteq> fst (group_dfs_loop g ns V S p c)"
proof (induction g t V S p c and g ns V S p c rule: group_dfs_group_dfs_loop.induct)
  case (1 g t V S p c)
  then show ?case by (auto simp: group_dfs.simps [of g t] split: prod.splits)
next
  case (2 g V S p c)
  then show ?case by (simp add: group_dfs_loop.simps)
next
  case (3 g n ns V S p c)
  show ?case
  proof (cases "n \<in> V")
    case True
    with 3 show ?thesis by (auto simp: group_dfs_loop.simps)
  next
    case False
    obtain V' S' p' c' where d: "group_dfs g n V S p c = (V', S', p', c')" by (metis surj_pair)
    have "V' \<subseteq> fst (group_dfs_loop g ns V' S' p' c')"
      using "3.IH"(2) [OF False d [symmetric] refl refl] .
    moreover have "V \<subseteq> V'" using "3.IH"(1) d False by simp
    ultimately show ?thesis using False d by (auto simp: group_dfs_loop.simps)
  qed
qed

text \<open>The outer loop: what holds of the nodes seen so far.\<close>

lemma visit_groups:
  assumes "cycles_ok g c" "c = [] \<longrightarrow> settled (um_at [] g) V"
  shows "\<exists>V' c'. fold (visit_group g) ks (V, {}, [], c) = (V', {}, [], c') \<and>
    V \<union> set ks \<subseteq> V' \<and> cycles_ok g c' \<and> (c' = [] \<longrightarrow> settled (um_at [] g) V')"
  using assms
proof (induction ks arbitrary: V c)
  case Nil
  then show ?case by simp
next
  case (Cons k ks)
  obtain V1 c1 where one: "visit_group g k (V, {}, [], c) = (V1, {}, [], c1)" "insert k V \<subseteq> V1"
    "cycles_ok g c1" "c1 = [] \<longrightarrow> settled (um_at [] g) V1"
  proof (cases "k \<in> V")
    case True
    then show thesis using that [of V c] Cons.prems by (auto simp: visit_group_def)
  next
    case False
    obtain V' S' p' c' where d: "group_dfs g k V {} [] c = (V', S', p', c')" by (metis surj_pair)
    have "dfs_post g V {} [] c {k} (V', S', p', c')"
      unfolding d [symmetric] using False Cons.prems by (intro group_dfs_post) (simp_all add: path_ok_def)
    moreover have "insert k V \<subseteq> V'"
      using group_dfs_visits(1) [of k V g "{}" "[]" c] d by simp
    ultimately show thesis
      using that [of V' c'] d False Cons.prems by (auto simp: visit_group_def dfs_post_def)
  qed
  from Cons.IH [OF one(3,4)] obtain V' c' where
    "fold (visit_group g) ks (V1, {}, [], c1) = (V', {}, [], c')" "V1 \<union> set ks \<subseteq> V'"
    "cycles_ok g c'" "c' = [] \<longrightarrow> settled (um_at [] g) V'" by blast
  with one(1,2) show ?case by auto
qed

lemma collect_group_cycles_decides:
  "cycles_ok g (collect_group_cycles g)"
  "collect_group_cycles g = [] \<longleftrightarrow> acyclic (edges (um_at [] g))"
proof -
  obtain V c where f: "fold (visit_group g) (um_keys g) ({}, {}, [], []) = (V, {}, [], c)"
    and V: "set (um_keys g) \<subseteq> V" and c: "cycles_ok g c" "c = [] \<longrightarrow> settled (um_at [] g) V"
    using visit_groups [of g "[]" "{}" "um_keys g"] by (auto simp: cycles_ok_def)
  have col: "collect_group_cycles g = c" by (simp add: collect_group_cycles_def f)
  then show "cycles_ok g (collect_group_cycles g)" using c by simp
  have "um_at [] g u \<noteq> [] \<Longrightarrow> u \<in> V" for u
    using V by (auto simp: um_keys_find um_at_def split: option.splits)
  then have "c = [] \<Longrightarrow> acyclic (edges (um_at [] g))"
    using c(2) by (intro adj.acyclic_if_covered) auto
  moreover have "\<not> acyclic (edges (um_at [] g))" if "c \<noteq> []"
  proof -
    from that c(1) obtain x where "simple_cycle (um_at [] g) x"
      by (cases c) (auto simp: cycles_ok_def)
    then show ?thesis by (rule simple_cycle_not_acyclic)
  qed
  ultimately show "collect_group_cycles g = [] \<longleftrightarrow> acyclic (edges (um_at [] g))"
    unfolding col by blast
qed

subsection \<open>The largest cycle\<close>

lemma max_element_largest:
  "max_element c cs \<in> set (c # cs) \<and> (\<forall>d \<in> set (c # cs). length d \<le> length (max_element c cs))"
  by (induction c cs rule: max_element.induct) fastforce+

lemma find_group_cycles_cases:
  "find_group_cycles s = [] \<and> collect_group_cycles (group_wait_graph s) = [] \<or>
   find_group_cycles s \<in> set (collect_group_cycles (group_wait_graph s)) \<and>
   find_group_cycles s \<noteq> [] \<and>
   (\<forall>d \<in> set (collect_group_cycles (group_wait_graph s)). length d \<le> length (find_group_cycles s))"
proof (cases "collect_group_cycles (group_wait_graph s)")
  case Nil
  then show ?thesis by (simp add: find_group_cycles_def)
next
  case (Cons c cs)
  then have "find_group_cycles s = max_element c cs" by (simp add: find_group_cycles_def)
  with max_element_largest [of c cs] have
    "find_group_cycles s \<in> set (c # cs)" "\<forall>d \<in> set (c # cs). length d \<le> length (find_group_cycles s)"
    by simp_all
  moreover from this(1) have "find_group_cycles s \<noteq> []"
    using collect_group_cycles_decides(1) [of "group_wait_graph s"] Cons
    by (auto simp: cycles_ok_def simple_cycle_def)
  ultimately show ?thesis by (simp add: Cons)
qed

subsection \<open>What an edge between groups means\<close>

lemma group_of_some:
  assumes "wf_tables s" and "group_of (analyze_conflict_groups s) t = i" and "i \<noteq> size_max"
  shows "i < length (analyze_conflict_groups s) \<and> t \<in> set (threads (analyze_conflict_groups s ! i))"
proof -
  from assms(2,3) obtain g where f: "find (\<lambda>g. t \<in> set (threads g)) (analyze_conflict_groups s) = Some g"
    and g: "group_id g = i"
    by (auto simp: group_of_def split: option.splits)
  from f obtain k where k: "k < length (analyze_conflict_groups s)"
    "analyze_conflict_groups s ! k = g" "t \<in> set (threads g)"
    by (auto simp: find_Some_iff)
  with analyze_group(1) [OF assms(1), of k] g have "k = i" by simp
  with k show ?thesis by simp
qed

lemma group_of_member:
  assumes "wf_tables s" and i: "i < length (analyze_conflict_groups s)"
    and t: "t \<in> set (threads (analyze_conflict_groups s ! i))"
  shows "group_of (analyze_conflict_groups s) t = i"
proof (cases "find (\<lambda>g. t \<in> set (threads g)) (analyze_conflict_groups s)")
  case None
  with i t show ?thesis by (auto simp: find_None_iff)
next
  case (Some g)
  then obtain k where k: "k < length (analyze_conflict_groups s)"
    "analyze_conflict_groups s ! k = g" "t \<in> set (threads g)"
    by (auto simp: find_Some_iff)
  with analyze_member(2) [OF assms(1) k(1) i, of t] t have "k = i" by simp
  with k analyze_group(1) [OF assms(1) i] Some show ?thesis by (auto simp: group_of_def)
qed

definition group_edge :: "ConflictGroup list \<Rightarrow> string \<Rightarrow> string \<Rightarrow> nat \<Rightarrow> nat \<Rightarrow> bool" where
  "group_edge gs t u i j \<longleftrightarrow> group_of gs t = i \<and> group_of gs u = j \<and>
     i \<noteq> size_max \<and> j \<noteq> size_max \<and> i \<noteq> j"

lemma add_group_edges_set:
  "j \<in> set (um_at [] (add_group_edges gs (t, ws) g) i) \<longleftrightarrow>
     j \<in> set (um_at [] g i) \<or> (\<exists>u \<in> set ws. group_edge gs t u i j)"
proof (cases "group_of gs t = size_max")
  case True
  then show ?thesis by (auto simp: add_group_edges_def group_edge_def)
next
  case False
  then have "j \<in> set (um_at [] (fold (\<lambda>target graph.
      (let target_group = group_of gs target
       in if target_group \<noteq> size_max \<and> target_group \<noteq> group_of gs t
          then um_adjust (group_of gs t) [] (us_insert target_group) graph else graph)) ws g) i) \<longleftrightarrow>
     j \<in> set (um_at [] g i) \<or> (\<exists>u \<in> set ws. group_edge gs t u i j)"
    by (induction ws arbitrary: g) (auto simp: Let_def group_edge_def)
  with False show ?thesis by (simp add: add_group_edges_def Let_def)
qed

lemma group_wait_graph_set:
  "j \<in> set (um_at [] (group_wait_graph s) i) \<longleftrightarrow>
     (\<exists>(t, ws) \<in> set (waits_for s). \<exists>u \<in> set ws. group_edge (analyze_conflict_groups s) t u i j)"
proof -
  have "j \<in> set (um_at [] (fold (add_group_edges gs) es g) i) \<longleftrightarrow>
      j \<in> set (um_at [] g i) \<or> (\<exists>(t, ws) \<in> set es. \<exists>u \<in> set ws. group_edge gs t u i j)" for gs es g
    by (induction es arbitrary: g) (auto simp: add_group_edges_set)
  from this [of "analyze_conflict_groups s" "waits_for s" "[]"] show ?thesis
    by (simp add: group_wait_graph_def um_at_def)
qed

lemma waits_for_entries:
  "wf_tables s \<Longrightarrow> (\<exists>(t, ws) \<in> set (waits_for s). \<exists>u \<in> set ws. P t u) \<longleftrightarrow> (\<exists>t. \<exists>u \<in> set (waits_of s t). P t u)"
  by (force simp: wf_tables_def in_set_um_find um_at_def split: option.splits)

text \<open>An edge between groups always comes from a wait between two of their threads.\<close>

lemma group_wait_graph_edge:
  assumes "wf_tables s" and "j \<in> set (um_at [] (group_wait_graph s) i)"
  shows "i \<noteq> j" and "i < length (analyze_conflict_groups s)" and "j < length (analyze_conflict_groups s)"
    and "\<exists>t \<in> set (threads (analyze_conflict_groups s ! i)).
      \<exists>u \<in> set (waits_of s t). u \<in> set (threads (analyze_conflict_groups s ! j))"
proof -
  from assms(2) obtain t u where u: "u \<in> set (waits_of s t)"
    and e: "group_edge (analyze_conflict_groups s) t u i j"
    unfolding group_wait_graph_set waits_for_entries [OF assms(1)] by blast
  from e show "i \<noteq> j" by (simp add: group_edge_def)
  have t: "i < length (analyze_conflict_groups s) \<and> t \<in> set (threads (analyze_conflict_groups s ! i))"
    using e by (intro group_of_some [OF assms(1)]) (auto simp: group_edge_def)
  have "j < length (analyze_conflict_groups s) \<and> u \<in> set (threads (analyze_conflict_groups s ! j))"
    using e by (intro group_of_some [OF assms(1)]) (auto simp: group_edge_def)
  with t u show "i < length (analyze_conflict_groups s)" "j < length (analyze_conflict_groups s)"
    "\<exists>t \<in> set (threads (analyze_conflict_groups s ! i)).
      \<exists>u \<in> set (waits_of s t). u \<in> set (threads (analyze_conflict_groups s ! j))"
    by auto
qed

lemma find_group_cycles_spec:
  assumes "wf_tables s"
  shows "(find_group_cycles s = [] \<longleftrightarrow> acyclic (edges (um_at [] (group_wait_graph s)))) \<and>
    (find_group_cycles s \<noteq> [] \<longrightarrow>
      simple_cycle (um_at [] (group_wait_graph s)) (find_group_cycles s) \<and>
      2 \<le> length (find_group_cycles s) \<and>
      (\<forall>c \<in> set (collect_group_cycles (group_wait_graph s)). length c \<le> length (find_group_cycles s)))"
proof -
  note dec = collect_group_cycles_decides [of "group_wait_graph s"]
  note cases = find_group_cycles_cases [of s]
  have one: "find_group_cycles s = [] \<longleftrightarrow> acyclic (edges (um_at [] (group_wait_graph s)))"
    using dec(2) cases by force
  have "2 \<le> length c" if c: "simple_cycle (um_at [] (group_wait_graph s)) c" for c
  proof (rule ccontr)
    assume "\<not> 2 \<le> length c"
    with c obtain i where "c = [i]" by (cases c) (auto simp: simple_cycle_def Suc_le_eq)
    with c have "i \<in> set (um_at [] (group_wait_graph s) i)" by (simp add: simple_cycle_def)
    with group_wait_graph_edge(1) [OF assms this] show False by simp
  qed
  then show ?thesis using one dec(1) cases by (auto simp: cycles_ok_def)
qed

text \<open>C17: \<open>find_group_cycles\<close> decides whether the graph of the groups has a cycle: it returns the empty
  vector exactly when the graph is acyclic, and otherwise a simple cycle of at least two groups
  that is as long as every other cycle the search collected.\<close>

theorem find_group_cycles_correct:
  assumes "wf_tables s"
  shows "(find_group_cycles s = [] \<longleftrightarrow> acyclic (edges (um_at [] (group_wait_graph s)))) \<and>
    (find_group_cycles s \<noteq> [] \<longrightarrow>
      simple_cycle (um_at [] (group_wait_graph s)) (find_group_cycles s) \<and>
      2 \<le> length (find_group_cycles s) \<and>
      (\<forall>c \<in> set (collect_group_cycles (group_wait_graph s)). length c \<le> length (find_group_cycles s)))"
  by (rule find_group_cycles_spec [OF assms])

lemma deadlocked_pair_group_graph: "group_wait_graph deadlocked_pair = [(1, [0]), (0, [1])]"
  unfolding group_wait_graph_def deadlocked_pair_groups
  by (simp add: add_group_edges_def group_of_def deadlocked_pair_def us_insert_def um_adjust_def
      um_put_def um_at_def um_find_def size_max_def initial_state_def)

lemma deadlocked_pair_cycle: "find_group_cycles deadlocked_pair = [1, 0]"
  unfolding find_group_cycles_def deadlocked_pair_group_graph by code_simp

theorem find_group_cycles_correct_witness:
  "simple_cycle (um_at [] (group_wait_graph deadlocked_pair)) (find_group_cycles deadlocked_pair)"
  using find_group_cycles_correct [OF deadlocked_pair_wf] by (simp add: deadlocked_pair_cycle)

subsection \<open>The threads of a group cycle\<close>

definition group_to_threads :: "ConflictGroup list \<Rightarrow> nat \<Rightarrow> string list" where
  "group_to_threads groups gid = concat (map (\<lambda>g. if group_id g = gid then threads g else []) groups)"

text \<open>The thread picked for one position of the cycle; \<open>[]\<close> when the group has no thread.\<close>

definition pick_thread :: "gstate \<Rightarrow> string list \<Rightarrow> string list \<Rightarrow> string list" where
  "pick_thread s current next_threads =
     (case find (\<lambda>thread. list_ex (\<lambda>target. target \<in> set next_threads) (waits_of s thread)) current of
        Some thread \<Rightarrow> [thread]
      | None \<Rightarrow> (case current of [] \<Rightarrow> [] | t # _ \<Rightarrow> [t]))"

definition expand_group_cycle_to_threads :: "gstate \<Rightarrow> nat list \<Rightarrow> string list" where
  "expand_group_cycle_to_threads s gc =
     (let gtt = group_to_threads (analyze_conflict_groups s); n = length gc
      in concat (map (\<lambda>i. pick_thread s (gtt (gc ! i)) (gtt (gc ! ((i + 1) mod n)))) [0..<n]))"

lemma group_to_threads_nth:
  assumes ids: "\<And>k. k < length gs \<Longrightarrow> group_id (gs ! k) = k" and i: "i < length gs"
  shows "group_to_threads gs i = threads (gs ! i)"
proof -
  let ?f = "\<lambda>g. if group_id g = i then threads g else []"
  have before: "\<forall>g \<in> set (take i gs). ?f g = []"
  proof
    fix g assume "g \<in> set (take i gs)"
    then obtain k where "k < i" "g = gs ! k" using i by (auto simp: in_set_conv_nth)
    then have "group_id g = k" using ids [of k] i by simp
    then show "?f g = []" using \<open>k < i\<close> by simp
  qed
  have after: "\<forall>g \<in> set (drop (Suc i) gs). ?f g = []"
  proof
    fix g assume "g \<in> set (drop (Suc i) gs)"
    then obtain k where "k < length gs - Suc i" "g = gs ! (Suc i + k)" by (auto simp: in_set_conv_nth)
    then have "group_id g = Suc i + k" using ids [of "Suc i + k"] i by simp
    then show "?f g = []" by simp
  qed
  have "concat (map ?f gs) = concat (map ?f (take i gs)) @ ?f (gs ! i) @ concat (map ?f (drop (Suc i) gs))"
    using arg_cong [OF id_take_nth_drop [OF i], of "\<lambda>l. concat (map ?f l)"] by simp
  also have "concat (map ?f (take i gs)) = []" using before by (simp only: concat_eq_Nil_conv set_map ball_simps)
  also have "concat (map ?f (drop (Suc i) gs)) = []" using after by (simp only: concat_eq_Nil_conv set_map ball_simps)
  also have "[] @ ?f (gs ! i) @ [] = threads (gs ! i)" using ids i by simp
  finally show ?thesis by (simp add: group_to_threads_def)
qed

lemma pick_thread_waits:
  assumes "\<exists>t \<in> set current. \<exists>u \<in> set (waits_of s t). u \<in> set next_threads"
  shows "\<exists>t. pick_thread s current next_threads = [t] \<and> t \<in> set current \<and>
    (\<exists>u \<in> set (waits_of s t). u \<in> set next_threads)"
proof -
  let ?P = "\<lambda>thread. list_ex (\<lambda>target. target \<in> set next_threads) (waits_of s thread)"
  from assms have "find ?P current \<noteq> None" by (auto simp: find_None_iff list_ex_iff)
  then obtain t where t: "find ?P current = Some t" by auto
  then have "t \<in> set current" "?P t" by (auto simp: find_Some_iff)
  with t show ?thesis by (auto simp: pick_thread_def list_ex_iff)
qed

lemma concat_map_singletons: "(\<And>x. x \<in> set xs \<Longrightarrow> f x = [g x]) \<Longrightarrow> concat (map f xs) = map g xs"
  by (induction xs) auto

lemma walk_nth: "walk succs c \<Longrightarrow> Suc i < length c \<Longrightarrow> c ! Suc i \<in> set (succs (c ! i))"
  by (simp add: walk_def successively_conv_nth)

lemma simple_cycle_next:
  assumes "simple_cycle succs c" and "i < length c"
  shows "c ! ((i + 1) mod length c) \<in> set (succs (c ! i))"
proof (cases "Suc i = length c")
  case True
  then have "length c - 1 = i" by simp
  moreover have "c \<noteq> []" using assms by (simp add: simple_cycle_def)
  ultimately have "last c = c ! i" "hd c = c ! 0" by (auto simp: last_conv_nth hd_conv_nth)
  then show ?thesis using assms True by (simp add: simple_cycle_def)
next
  case False
  then show ?thesis using assms walk_nth [of succs c i] by (simp add: simple_cycle_def)
qed

text \<open>For the group cycle that was found, \<open>expand_group_cycle_to_threads\<close> picks one thread from each
  group of the cycle, and that thread waits for some thread of the next group. (It need not be
  the thread that is picked there.)\<close>

theorem expand_group_cycle_correct:
  assumes "wf_tables s" and "find_group_cycles s = c" and "c \<noteq> []"
  shows "length (expand_group_cycle_to_threads s c) = length c \<and>
    (\<forall>i < length c.
      expand_group_cycle_to_threads s c ! i \<in> set (threads (analyze_conflict_groups s ! (c ! i))) \<and>
      (\<exists>u \<in> set (waits_of s (expand_group_cycle_to_threads s c ! i)).
        u \<in> set (threads (analyze_conflict_groups s ! (c ! ((i + 1) mod length c))))))"
proof -
  let ?gs = "analyze_conflict_groups s"
  let ?f = "\<lambda>i. pick_thread s (group_to_threads ?gs (c ! i)) (group_to_threads ?gs (c ! ((i + 1) mod length c)))"
  have cyc: "simple_cycle (um_at [] (group_wait_graph s)) c"
    using find_group_cycles_spec [OF assms(1)] assms(2,3) by simp
  have pick: "\<exists>t. ?f i = [t] \<and> t \<in> set (threads (?gs ! (c ! i))) \<and>
      (\<exists>u \<in> set (waits_of s t). u \<in> set (threads (?gs ! (c ! ((i + 1) mod length c)))))"
    if "i < length c" for i
  proof -
    note e = group_wait_graph_edge [OF assms(1) simple_cycle_next [OF cyc that]]
    have g: "group_to_threads ?gs k = threads (?gs ! k)" if "k < length ?gs" for k
      using that analyze_group(1) [OF assms(1)] by (intro group_to_threads_nth) auto
    show ?thesis
      using pick_thread_waits [OF e(4)] unfolding g [OF e(2)] g [OF e(3)] .
  qed
  then obtain t where t: "\<And>i. i < length c \<Longrightarrow> ?f i = [t i] \<and> t i \<in> set (threads (?gs ! (c ! i))) \<and>
      (\<exists>u \<in> set (waits_of s (t i)). u \<in> set (threads (?gs ! (c ! ((i + 1) mod length c)))))"
    by metis
  have "expand_group_cycle_to_threads s c = map t [0..<length c]"
    unfolding expand_group_cycle_to_threads_def Let_def using t by (intro concat_map_singletons) simp
  with t show ?thesis by simp
qed

theorem expand_group_cycle_correct_witness:
  "length (expand_group_cycle_to_threads deadlocked_pair [1, 0]) = 2"
  using expand_group_cycle_correct [OF deadlocked_pair_wf deadlocked_pair_cycle] by simp

end
