(* ===== verification/Group_Detection.thy ===== *)
theory Group_Detection
  imports Group_Cycles
begin

text \<open>
  \<open>detect_group_deadlock\<close> of \<open>detection.cpp\<close>: the group cycle, its threads and locks, and one
  planned resolution per group with a victim thread. Parsing the victim's identifier can throw.
\<close>

definition no_group_deadlock :: GroupDeadlockInfo where
  "no_group_deadlock = \<lparr>group_cycle = [], thread_cycle = [], group_involved_locks = [],
     group_resolutions = []\<rparr>"

text \<open>
  The victim: a thread of the thread cycle that is in the group, else any thread of the group. The
  fields start as an empty string and an indeterminate number, here 0.
\<close>

definition select_victim :: "string list \<Rightarrow> ConflictGroup \<Rightarrow> fault + string \<times> pid" where
  "select_victim tc g =
     (case (case find (\<lambda>thread. thread \<in> set (threads g)) tc of
              None \<Rightarrow> Inr ([], 0)
            | Some thread \<Rightarrow> (case extract_tid_from_identifier thread of
                Inl f \<Rightarrow> Inl f | Inr tid \<Rightarrow> Inr (thread, tid))) of
        Inl f \<Rightarrow> Inl f
      | Inr (victim, tid) \<Rightarrow>
          if victim = [] \<and> threads g \<noteq> [] then
            (case extract_tid_from_identifier (hd (threads g)) of
               Inl f \<Rightarrow> Inl f | Inr tid' \<Rightarrow> Inr (hd (threads g), tid'))
          else Inr (victim, tid))"

definition plan_resolution :: "string list \<Rightarrow> nat \<Rightarrow> ConflictGroup \<Rightarrow> fault + GroupResolution" where
  "plan_resolution tc gid g =
     (case select_victim tc g of
        Inl f \<Rightarrow> Inl f
      | Inr (victim, tid) \<Rightarrow> Inr \<lparr>res_group_id = gid, res_threads = threads g,
          held_locks = locks_held g, wanted_locks = locks_wanted g,
          res_conflicting_groups = conflicting_groups g,
          selected_victim = victim, victim_tid = tid\<rparr>)"

fun plan_resolutions :: "ConflictGroup list \<Rightarrow> string list \<Rightarrow> nat list \<Rightarrow> fault + GroupResolution list" where
  "plan_resolutions groups tc [] = Inr []"
| "plan_resolutions groups tc (gid # gids) =
     (if gid < length groups then
        (case plan_resolution tc gid (groups ! gid) of
           Inl f \<Rightarrow> Inl f
         | Inr r \<Rightarrow> (case plan_resolutions groups tc gids of Inl f \<Rightarrow> Inl f | Inr rs \<Rightarrow> Inr (r # rs)))
      else plan_resolutions groups tc gids)"

definition locks_of_groups :: "ConflictGroup list \<Rightarrow> nat list \<Rightarrow> addr list" where
  "locks_of_groups groups gids =
     fold (\<lambda>gid locks. if gid < length groups
             then fold us_insert (locks_wanted (groups ! gid)) (fold us_insert (locks_held (groups ! gid)) locks)
             else locks) gids []"

definition detect_group_deadlock :: "gstate \<Rightarrow> fault + GroupDeadlockInfo" where
  "detect_group_deadlock s =
     (let gc = find_group_cycles s
      in if length gc < 2 then Inr no_group_deadlock
         else (let tc = expand_group_cycle_to_threads s gc;
                   groups = analyze_conflict_groups s
               in case plan_resolutions groups tc gc of
                    Inl f \<Rightarrow> Inl f
                  | Inr rs \<Rightarrow> Inr \<lparr>group_cycle = gc, thread_cycle = tc,
                      group_involved_locks = locks_of_groups groups gc, group_resolutions = rs\<rparr>))"

subsection \<open>Victims\<close>

lemma select_victim_in_group:
  assumes "threads g \<noteq> []" and "select_victim tc g = Inr (v, tid)"
  shows "v \<in> set (threads g) \<and> extract_tid_from_identifier v = Inr tid"
proof (cases "find (\<lambda>thread. thread \<in> set (threads g)) tc")
  case None
  with assms show ?thesis by (auto simp: select_victim_def split: sum.splits)
next
  case (Some t)
  then have "t \<in> set (threads g)" by (auto simp: find_Some_iff)
  with Some assms show ?thesis by (auto simp: select_victim_def split: sum.splits if_splits)
qed

lemma select_victim_total:
  assumes "\<And>t. t \<in> set (threads g) \<Longrightarrow> \<exists>tid. extract_tid_from_identifier t = Inr tid"
  shows "\<exists>r. select_victim tc g = Inr r"
proof (cases "find (\<lambda>thread. thread \<in> set (threads g)) tc")
  case None
  then show ?thesis
    using assms [of "hd (threads g)"] by (cases "threads g") (auto simp: select_victim_def)
next
  case (Some t)
  then have "t \<in> set (threads g)" by (auto simp: find_Some_iff)
  from assms [OF this] obtain tid where "extract_tid_from_identifier t = Inr tid" ..
  with Some show ?thesis
    using assms [of "hd (threads g)"] by (cases "threads g") (auto simp: select_victim_def)
qed

lemma plan_resolutions_nth:
  assumes "plan_resolutions groups tc gids = Inr rs" and "\<And>i. i \<in> set gids \<Longrightarrow> i < length groups"
  shows "length rs = length gids \<and>
    (\<forall>k < length gids. plan_resolution tc (gids ! k) (groups ! (gids ! k)) = Inr (rs ! k))"
  using assms
proof (induction gids arbitrary: rs)
  case Nil
  then show ?case by simp
next
  case (Cons i gids)
  from Cons.prems obtain r rs' where r: "plan_resolution tc i (groups ! i) = Inr r"
    and rs': "plan_resolutions groups tc gids = Inr rs'" and rs: "rs = r # rs'"
    by (auto split: sum.splits)
  from Cons.IH [OF rs'] Cons.prems(2) r show ?case by (auto simp: rs nth_Cons split: nat.splits)
qed

lemma plan_resolutions_total:
  "(\<And>i. i \<in> set gids \<Longrightarrow> i < length groups \<Longrightarrow> \<exists>r. plan_resolution tc i (groups ! i) = Inr r) \<Longrightarrow>
     \<exists>rs. plan_resolutions groups tc gids = Inr rs"
proof (induction gids)
  case (Cons i gids)
  then obtain rs where "plan_resolutions groups tc gids = Inr rs" by auto
  with Cons.prems [of i] show ?case by auto
qed simp

lemma set_locks_of_groups:
  "set (locks_of_groups groups gids) =
     (\<Union>i \<in> {i \<in> set gids. i < length groups}. set (locks_held (groups ! i)) \<union> set (locks_wanted (groups ! i)))"
proof -
  have "set (fold (\<lambda>gid locks. if gid < length groups
             then fold us_insert (locks_wanted (groups ! gid)) (fold us_insert (locks_held (groups ! gid)) locks)
             else locks) gids ls) = set ls \<union>
     (\<Union>i \<in> {i \<in> set gids. i < length groups}. set (locks_held (groups ! i)) \<union> set (locks_wanted (groups ! i)))" for ls
    by (induction gids arbitrary: ls) (auto simp: set_fold_us_insert)
  from this [of "[]"] show ?thesis by (simp add: locks_of_groups_def)
qed

lemma cycle_groups_in_range:
  assumes "wf_tables s" and "i \<in> set (find_group_cycles s)"
  shows "i < length (analyze_conflict_groups s)"
proof -
  from assms(2) obtain k where k: "k < length (find_group_cycles s)" "find_group_cycles s ! k = i"
    by (auto simp: in_set_conv_nth)
  have "simple_cycle (um_at [] (group_wait_graph s)) (find_group_cycles s)"
    using find_group_cycles_cases [of s] k collect_group_cycles_decides(1) [of "group_wait_graph s"]
    by (auto simp: cycles_ok_def)
  from group_wait_graph_edge(2) [OF assms(1) simple_cycle_next [OF this k(1)]] k show ?thesis by simp
qed

lemma analyze_group_nonempty:
  "wf_tables s \<Longrightarrow> i < length (analyze_conflict_groups s) \<Longrightarrow> threads (analyze_conflict_groups s ! i) \<noteq> []"
  using analyze_group(3) [of s i] by (auto simp: around_leader_def)

lemma detect_group_deadlock_exists:
  assumes "wf_tables s"
    and "\<forall>t \<in> set (um_keys (thread_locks s)) \<union> set (um_keys (waits_for s)).
      \<exists>tid. extract_tid_from_identifier t = Inr tid"
  shows "\<exists>info. detect_group_deadlock s = Inr info \<and>
    (group_cycle info = [] \<longleftrightarrow> acyclic (edges (um_at [] (group_wait_graph s))))"
proof (cases "length (find_group_cycles s) < 2")
  case True
  then have "find_group_cycles s = []"
    using find_group_cycles_spec [OF assms(1)] by auto
  then show ?thesis
    using find_group_cycles_spec [OF assms(1)]
    by (simp add: detect_group_deadlock_def no_group_deadlock_def)
next
  case False
  let ?gc = "find_group_cycles s" and ?gs = "analyze_conflict_groups s"
  let ?tc = "expand_group_cycle_to_threads s ?gc"
  have "\<exists>r. plan_resolution ?tc i (?gs ! i) = Inr r" if "i < length ?gs" for i
  proof -
    have "\<exists>tid. extract_tid_from_identifier t = Inr tid" if "t \<in> set (threads (?gs ! i))" for t
      using assms(2) analyze_member(1) [OF assms(1), of t] that \<open>i < length ?gs\<close> by blast
    from select_victim_total [OF this] obtain v tid where "select_victim ?tc (?gs ! i) = Inr (v, tid)"
      by (metis surj_pair)
    then show ?thesis by (simp add: plan_resolution_def)
  qed
  then obtain rs where "plan_resolutions ?gs ?tc ?gc = Inr rs"
    using plan_resolutions_total by blast
  moreover have "?gc \<noteq> []" using False by auto
  ultimately show ?thesis
    using False find_group_cycles_spec [OF assms(1)] by (simp add: detect_group_deadlock_def Let_def)
qed

lemma deadlocked_pair_ids: "\<forall>t \<in> set (um_keys (thread_locks deadlocked_pair)) \<union> set (um_keys (waits_for deadlocked_pair)).
    \<exists>tid. extract_tid_from_identifier t = Inr tid"
  by (auto simp: deadlocked_pair_def um_keys_def sample_ids)

lemma group_cycle_found: "detect_group_deadlock s = Inr info \<Longrightarrow> 2 \<le> length (find_group_cycles s) \<Longrightarrow>
    group_cycle info = find_group_cycles s"
  by (auto simp: detect_group_deadlock_def Let_def split: sum.splits)

lemma deadlocked_pair_detect:
  obtains info where "detect_group_deadlock deadlocked_pair = Inr info" "2 \<le> length (group_cycle info)"
proof -
  obtain info where i: "detect_group_deadlock deadlocked_pair = Inr info"
    using detect_group_deadlock_exists [OF deadlocked_pair_wf deadlocked_pair_ids] by blast
  then show thesis
    using group_cycle_found [OF i] by (intro that [OF i]) (simp add: deadlocked_pair_cycle)
qed

text \<open>C18: a group deadlock that is reported has one resolution per group of the cycle, in its order: with
  the held and wanted locks of that group and with a victim that is a thread of it and whose
  thread id is the number parsed from its identifier; the involved locks are those that the
  groups of the cycle hold or want.\<close>

theorem group_deadlock_plan:
  assumes "wf_tables s" and "detect_group_deadlock s = Inr info" and "group_cycle info \<noteq> []"
  shows "length (group_resolutions info) = length (group_cycle info) \<and>
    (\<forall>k < length (group_cycle info).
      (let i = group_cycle info ! k; r = group_resolutions info ! k; g = analyze_conflict_groups s ! i
       in res_group_id r = i \<and> selected_victim r \<in> set (threads g) \<and>
          extract_tid_from_identifier (selected_victim r) = Inr (victim_tid r) \<and>
          held_locks r = locks_held g \<and> wanted_locks r = locks_wanted g)) \<and>
    set (group_involved_locks info) = (\<Union>i \<in> set (group_cycle info).
      set (locks_held (analyze_conflict_groups s ! i)) \<union> set (locks_wanted (analyze_conflict_groups s ! i)))"
proof -
  let ?gc = "find_group_cycles s" and ?gs = "analyze_conflict_groups s"
  let ?tc = "expand_group_cycle_to_threads s ?gc"
  obtain rs where rs: "plan_resolutions ?gs ?tc ?gc = Inr rs"
    and info: "info = \<lparr>group_cycle = ?gc, thread_cycle = ?tc,
        group_involved_locks = locks_of_groups ?gs ?gc, group_resolutions = rs\<rparr>"
    using assms(2,3)
    by (auto simp: detect_group_deadlock_def Let_def no_group_deadlock_def split: if_splits sum.splits)
  have range: "\<And>i. i \<in> set ?gc \<Longrightarrow> i < length ?gs" by (rule cycle_groups_in_range [OF assms(1)])
  note plan = plan_resolutions_nth [OF rs range]
  have "res_group_id r = i \<and> selected_victim r \<in> set (threads (?gs ! i)) \<and>
      extract_tid_from_identifier (selected_victim r) = Inr (victim_tid r) \<and>
      held_locks r = locks_held (?gs ! i) \<and> wanted_locks r = locks_wanted (?gs ! i)"
    if "plan_resolution ?tc i (?gs ! i) = Inr r" and "i < length ?gs" for i r
    using that(1) select_victim_in_group [OF analyze_group_nonempty [OF assms(1) that(2)], of ?tc]
    by (auto simp: plan_resolution_def split: sum.splits)
  then show ?thesis
    using plan range by (auto simp: info Let_def set_locks_of_groups)
qed

theorem group_deadlock_plan_witness:
  "\<exists>info. detect_group_deadlock deadlocked_pair = Inr info \<and> group_cycle info \<noteq> []
     \<and> length (group_resolutions info) = length (group_cycle info)"
proof -
  obtain info where i: "detect_group_deadlock deadlocked_pair = Inr info" and "2 \<le> length (group_cycle info)"
    by (rule deadlocked_pair_detect)
  then have "group_cycle info \<noteq> []" by auto
  with group_deadlock_plan [OF deadlocked_pair_wf i] i show ?thesis by blast
qed

text \<open>C27: \<open>detect_group_deadlock\<close> reports no group cycle exactly when the graph of the groups is acyclic,
  and it throws no exception when every thread of the tables has an identifier with a number.\<close>

theorem detect_group_deadlock_total:
  assumes "wf_tables s"
    and "\<forall>t \<in> set (um_keys (thread_locks s)) \<union> set (um_keys (waits_for s)).
      \<exists>tid. extract_tid_from_identifier t = Inr tid"
  shows "\<exists>info. detect_group_deadlock s = Inr info \<and>
    (group_cycle info = [] \<longleftrightarrow> acyclic (edges (um_at [] (group_wait_graph s))))"
  by (rule detect_group_deadlock_exists [OF assms])

theorem detect_group_deadlock_total_witness:
  "\<exists>info. detect_group_deadlock deadlocked_pair = Inr info"
  using detect_group_deadlock_total [OF deadlocked_pair_wf deadlocked_pair_ids] by blast

end
