(* ===== verification/Futex_Unlocker.thy ===== *)
theory Futex_Unlocker
  imports Helpers
begin

text \<open>
  The class \<open>FutexUnlocker\<close> of \<open>futex_unlocker.h\<close>: it zeroes a futex word of another process by
  three methods in turn, and believes none of them before the word reads as 0. An object is a
  record that the methods take and return; the messages it prints are left out.
\<close>

record unlocker =
  u_target_pid :: pid
  ptrace_attached :: bool
  total_attempts :: int
  successful_unlocks :: int

definition new_unlocker :: "pid \<Rightarrow> unlocker" where
  "new_unlocker p = \<lparr>u_target_pid = p, ptrace_attached = False, total_attempts = 0, successful_unlocks = 0\<rparr>"

definition mem_path :: "pid \<Rightarrow> string" where
  "mem_path p = ''/proc/'' @ to_string p @ ''/mem''"

definition read_word :: "os \<Rightarrow> unlocker \<Rightarrow> addr \<Rightarrow> 32 word option prog" where
  "read_word os u addr = do {
     result \<leftarrow> process_vm_readv os (u_target_pid u) addr;
     case result of
       Some value \<Rightarrow> ret (Some value)
     | None \<Rightarrow> do {
         mem \<leftarrow> pread os (mem_path (u_target_pid u)) addr;
         ret (case mem of None \<Rightarrow> None | Some bytes \<Rightarrow> bytes)
       }
   }"

definition unlock_with_process_vm :: "os \<Rightarrow> unlocker \<Rightarrow> addr \<Rightarrow> bool prog" where
  "unlock_with_process_vm os u lock_addr = do {
     nwritten \<leftarrow> process_vm_writev os (u_target_pid u) lock_addr 0;
     if nwritten then do { futex_wake lock_addr; ret True } else ret False
   }"

definition unlock_with_proc_mem :: "os \<Rightarrow> unlocker \<Rightarrow> addr \<Rightarrow> bool prog" where
  "unlock_with_proc_mem os u lock_addr = do {
     written \<leftarrow> pwrite os (mem_path (u_target_pid u)) lock_addr 0;
     case written of
       None \<Rightarrow> ret False
     | Some success \<Rightarrow> if success then do { futex_wake lock_addr; ret True } else ret False
   }"

text \<open>Whether the refused attach failed because this program traces the process already.\<close>

definition attached_to_us :: "os \<Rightarrow> pid \<Rightarrow> bool prog" where
  "attached_to_us os p = do {
     content \<leftarrow> read_file os (status_path p);
     case content of
       None \<Rightarrow> ret False
     | Some text \<Rightarrow> do {
         self \<leftarrow> getpid os;
         ret ((case first_line ''TracerPid:'' text of None \<Rightarrow> 0 | Some line \<Rightarrow> atoi (drop 10 line)) = self)
       }
   }"

text \<open>\<open>for (attempt = 0; attempt < 3; attempt++)\<close>, with the attempts left as the second argument.\<close>

fun attach_retries :: "os \<Rightarrow> nat \<Rightarrow> pid \<Rightarrow> bool prog" where
  "attach_retries os 0 p = ret False"
| "attach_retries os (Suc left) p = do {
     err \<leftarrow> ptrace os PTRACE_ATTACH p;
     if err = 0 then do { status \<leftarrow> waitpid os p 0; ret True }
     else do {
       ours \<leftarrow> (if err = EPERM then attached_to_us os p else ret False);
       if ours then ret True
       else do { usleep (10000 * (3 - left)); attach_retries os left p }
     }
   }"

text \<open>The fallback that pokes one word per byte address; it stops at the first error.\<close>

fun poke_bytes :: "os \<Rightarrow> pid \<Rightarrow> addr list \<Rightarrow> bool \<Rightarrow> bool prog" where
  "poke_bytes os p [] success = ret success"
| "poke_bytes os p (a # as) success = do {
     err \<leftarrow> ptrace os (PTRACE_POKEDATA a 0) p;
     if err \<noteq> 0 then ret False else poke_bytes os p as True
   }"

definition unlock_with_ptrace :: "os \<Rightarrow> unlocker \<Rightarrow> addr \<Rightarrow> (bool \<times> unlocker) prog" where
  "unlock_with_ptrace os u lock_addr = do {
     attached \<leftarrow> (if ptrace_attached u then ret True else attach_retries os 3 (u_target_pid u));
     if \<not> attached then ret (False, u)
     else do {
       err \<leftarrow> ptrace os (PTRACE_POKEDATA lock_addr 0) (u_target_pid u);
       success \<leftarrow> (if err = 0 then ret True
         else poke_bytes os (u_target_pid u) [lock_addr, lock_addr + 1, lock_addr + 2, lock_addr + 3] False);
       if success then do { futex_wake lock_addr; ret (True, u\<lparr>ptrace_attached := True\<rparr>) }
       else ret (False, u\<lparr>ptrace_attached := True\<rparr>)
     }
   }"

definition is_unlocked :: "os \<Rightarrow> unlocker \<Rightarrow> addr \<Rightarrow> bool prog" where
  "is_unlocked os u lock_addr = do {
     value \<leftarrow> read_word os u lock_addr;
     ret (case value of Some v \<Rightarrow> v = 0 | None \<Rightarrow> False)
   }"

definition base_delay :: "int \<Rightarrow> nat \<Rightarrow> int" where
  "base_delay base_ms attempt = min (base_ms * 2 ^ attempt) 2000"

definition sleep_with_jitter :: "os \<Rightarrow> int \<Rightarrow> nat \<Rightarrow> unit prog" where
  "sleep_with_jitter os base_ms attempt =
     (let delay = base_delay base_ms attempt
      in do {
        jitter \<leftarrow> uniform_int os (- (delay div 4)) (delay div 4);
        usleep (1000 * nat (max 1 (delay + jitter)))
      })"

text \<open>One pass over the three methods; a method counts when the word then reads as 0.\<close>

definition unlock_once :: "os \<Rightarrow> unlocker \<Rightarrow> addr \<Rightarrow> (bool \<times> unlocker) prog" where
  "unlock_once os u lock_addr = do {
     w1 \<leftarrow> unlock_with_process_vm os u lock_addr;
     ok1 \<leftarrow> (if w1 then is_unlocked os u lock_addr else ret False);
     if ok1 then ret (True, u)
     else do {
       w2 \<leftarrow> unlock_with_proc_mem os u lock_addr;
       ok2 \<leftarrow> (if w2 then is_unlocked os u lock_addr else ret False);
       if ok2 then ret (True, u)
       else do {
         r3 \<leftarrow> unlock_with_ptrace os u lock_addr;
         (case r3 of (w3, u3) \<Rightarrow> do {
            ok3 \<leftarrow> (if w3 then is_unlocked os u3 lock_addr else ret False);
            ret (ok3, u3)
          })
       }
     }
   }"

fun unlock_attempts :: "os \<Rightarrow> nat \<Rightarrow> nat \<Rightarrow> unlocker \<Rightarrow> addr \<Rightarrow> (bool \<times> unlocker) prog" where
  "unlock_attempts os max_attempts 0 u lock_addr = ret (False, u)"
| "unlock_attempts os max_attempts (Suc left) u lock_addr = do {
     r \<leftarrow> unlock_once os u lock_addr;
     (case r of (unlocked, u') \<Rightarrow>
        if unlocked then ret (True, u'\<lparr>successful_unlocks := successful_unlocks u' + 1\<rparr>)
        else do {
          (if left > 0 then sleep_with_jitter os 10 (max_attempts - Suc left) else ret ());
          unlock_attempts os max_attempts left u' lock_addr
        })
   }"

definition unlock :: "os \<Rightarrow> nat \<Rightarrow> unlocker \<Rightarrow> addr \<Rightarrow> (bool \<times> unlocker) prog" where
  "unlock os max_attempts u lock_addr =
     (let u1 = u\<lparr>total_attempts := total_attempts u + 1\<rparr>
      in do {
        already \<leftarrow> is_unlocked os u1 lock_addr;
        if already then ret (True, u1\<lparr>successful_unlocks := successful_unlocks u1 + 1\<rparr>)
        else unlock_attempts os max_attempts max_attempts u1 lock_addr
      })"

text \<open>One round of \<open>unlock_multiple\<close>, on the count and the object.\<close>

definition unlock_round :: "os \<Rightarrow> nat \<Rightarrow> addr \<Rightarrow> int \<times> unlocker \<Rightarrow> (int \<times> unlocker) prog" where
  "unlock_round os max_attempts addr = (\<lambda>(success_count, u). do {
     r \<leftarrow> unlock os max_attempts u addr;
     (case r of (unlocked, u') \<Rightarrow> ret (if unlocked then success_count + 1 else success_count, u'))
   })"

definition unlock_multiple :: "os \<Rightarrow> nat \<Rightarrow> unlocker \<Rightarrow> addr list \<Rightarrow> (int \<times> unlocker) prog" where
  "unlock_multiple os max_attempts u lock_addrs =
     (if lock_addrs = [] then ret (0, u)
      else for_acc lock_addrs (0, u) (unlock_round os max_attempts))"

definition unlock_aggressive :: "os \<Rightarrow> unlocker \<Rightarrow> addr list \<Rightarrow> (int \<times> unlocker) prog" where
  "unlock_aggressive os u lock_addrs = unlock_multiple os 10 u lock_addrs"

definition unlock_fast :: "os \<Rightarrow> unlocker \<Rightarrow> addr list \<Rightarrow> (int \<times> unlocker) prog" where
  "unlock_fast os u lock_addrs = unlock_multiple os 3 u lock_addrs"

definition is_locked :: "os \<Rightarrow> unlocker \<Rightarrow> addr \<Rightarrow> bool prog" where
  "is_locked os u lock_addr = do { free \<leftarrow> is_unlocked os u lock_addr; ret (\<not> free) }"

definition get_lock_value :: "os \<Rightarrow> unlocker \<Rightarrow> addr \<Rightarrow> 32 word option prog" where
  "get_lock_value os u lock_addr = read_word os u lock_addr"

definition get_stats :: "unlocker \<Rightarrow> int \<times> int" where
  "get_stats u = (total_attempts u, successful_unlocks u)"

definition unlock_best_effort :: "os \<Rightarrow> unlocker \<Rightarrow> addr \<Rightarrow> (bool \<times> unlocker) prog" where
  "unlock_best_effort os u lock_addr = do {
     already \<leftarrow> is_unlocked os u lock_addr;
     if already then ret (True, u) else unlock_once os u lock_addr
   }"

definition destroy_unlocker :: "os \<Rightarrow> unlocker \<Rightarrow> unit prog" where
  "destroy_unlocker os u =
     (if ptrace_attached u then do { err \<leftarrow> ptrace os (PTRACE_DETACH 0) (u_target_pid u); ret () }
      else ret ())"

subsection \<open>A lock counts as unlocked only when its word was read as 0\<close>

definition reads_zero :: "pid \<Rightarrow> addr \<Rightarrow> event \<Rightarrow> bool" where
  "reads_zero p a e \<longleftrightarrow> e = Vm_readv p a (Some 0) \<or> e = Pread (mem_path p) a (Some (Some 0))"

definition seen_zero :: "pid \<Rightarrow> addr \<Rightarrow> gstate \<Rightarrow> bool" where
  "seen_zero p a s \<longleftrightarrow> (case trace s of [] \<Rightarrow> False | e # _ \<Rightarrow> reads_zero p a e)"

text \<open>What a pass of \<open>unlock\<close> promises: the new object differs in the attachment and the counters
  only, and success was seen.\<close>

definition believed :: "unlocker \<Rightarrow> int \<Rightarrow> addr \<Rightarrow> bool \<times> unlocker \<Rightarrow> gstate \<Rightarrow> bool" where
  "believed u gain a r s \<longleftrightarrow> u_target_pid (snd r) = u_target_pid u
     \<and> total_attempts (snd r) = total_attempts u
     \<and> successful_unlocks (snd r) = successful_unlocks u + (if fst r then gain else 0)
     \<and> (fst r \<longrightarrow> seen_zero (u_target_pid u) a s)"

lemma is_unlocked_seen:
  "fst (run_state (is_unlocked os u a) s) \<Longrightarrow>
     seen_zero (u_target_pid u) a (snd (run_state (is_unlocked os u a) s))"
  by (auto simp: is_unlocked_def read_word_def os_call_defs run_call seen_zero_def reads_zero_def
      split: option.splits)

lemma with_ptrace_object:
  "\<exists>b. snd (fst (run_state (unlock_with_ptrace os u a) s)) = u\<lparr>ptrace_attached := b\<rparr>"
proof (rule returnsD)
  have "\<exists>b. u = u\<lparr>ptrace_attached := b\<rparr>" by (rule exI [of _ "ptrace_attached u"]) simp
  then show "returns (\<lambda>r. \<exists>b. snd r = u\<lparr>ptrace_attached := b\<rparr>) (unlock_with_ptrace os u a)"
    unfolding unlock_with_ptrace_def by (intro returns_rules returns_ret) auto
qed

lemma unlock_once_believed:
  "believed u 0 a (fst (run_state (unlock_once os u a) s)) (snd (run_state (unlock_once os u a) s))"
proof -
  have known: "run_state (is_unlocked os v a) t = (True, t') \<Longrightarrow> seen_zero (u_target_pid v) a t'" for v t t'
    using is_unlocked_seen [of os v a t] by simp
  have known3: "run_state (is_unlocked os (u\<lparr>ptrace_attached := b\<rparr>) a) t = (True, t')
      \<Longrightarrow> seen_zero (u_target_pid u) a t'" for b t t'
    using known [of "u\<lparr>ptrace_attached := b\<rparr>" t t'] by simp
  have obj: "run_state (unlock_with_ptrace os u a) t = ((w, v), t') \<Longrightarrow> \<exists>b. v = u\<lparr>ptrace_attached := b\<rparr>"
    for t w v t' using with_ptrace_object [of os u a t] by simp
  show ?thesis
    by (auto simp: unlock_once_def believed_def split: prod.splits if_splits dest!: obj dest: known known3)
qed

lemma unlock_attempts_believed:
  "believed u 1 a (fst (run_state (unlock_attempts os m n u a) s)) (snd (run_state (unlock_attempts os m n u a) s))"
proof (induction n arbitrary: u s)
  case 0
  then show ?case by (simp add: believed_def)
next
  case (Suc n)
  obtain ok v t where r: "run_state (unlock_once os u a) s = ((ok, v), t)" by (metis prod.collapse)
  with unlock_once_believed [of u a os s] have o: "believed u 0 a (ok, v) t" by simp
  show ?case
  proof (cases ok)
    case True
    with r o show ?thesis by (simp add: believed_def)
  next
    case False
    obtain t' where "run_state (if n > 0 then sleep_with_jitter os 10 (m - Suc n) else ret ()) t = ((), t')"
      by (metis (full_types) old.prod.exhaust old.unit.exhaust)
    with r False Suc.IH [of v t'] o show ?thesis by (simp add: believed_def)
  qed
qed

lemma unlock_believed:
  "believed (u\<lparr>total_attempts := total_attempts u + 1\<rparr>) 1 a
     (fst (run_state (unlock os n u a) s)) (snd (run_state (unlock os n u a) s))"
proof (cases "run_state (is_unlocked os (u\<lparr>total_attempts := total_attempts u + 1\<rparr>) a) s")
  case (Pair ok t)
  show ?thesis
  proof (cases ok)
    case True
    then show ?thesis
      using Pair is_unlocked_seen [of os "u\<lparr>total_attempts := total_attempts u + 1\<rparr>" a s]
      by (simp add: unlock_def Let_def believed_def)
  next
    case False
    then show ?thesis
      using Pair unlock_attempts_believed [of "u\<lparr>total_attempts := total_attempts u + 1\<rparr>" a os n n t]
      by (simp add: unlock_def Let_def)
  qed
qed

text \<open>C14: \<open>unlock\<close> counts one attempt, counts a success exactly when it returns true, and returns true
only when the last thing it did was to read the word in the target's memory as 0, whatever the
three writing methods reported.\<close>

theorem unlock_verified:
  assumes "run_state (unlock os n u a) s = ((ok, v), s')"
  shows "total_attempts v = total_attempts u + 1
    \<and> successful_unlocks v = successful_unlocks u + (if ok then 1 else 0)
    \<and> (ok \<longrightarrow> seen_zero (u_target_pid u) a s')"
  using unlock_believed [of u a os n s] assms by (auto simp: believed_def)

text \<open>A system in which memory can be read and written, and every word is 0.\<close>

definition open_os :: os where
  "open_os = dead_os\<lparr>os_vm_readv := \<lambda>_ _ _. Some 0, os_vm_writev := \<lambda>_ _ _ _. True\<rparr>"

theorem unlock_verified_witness:
  "\<exists>v s'. run_state (unlock open_os 5 (new_unlocker 7) 65536) initial_state = ((True, v), s')
     \<and> total_attempts v = 1 \<and> successful_unlocks v = 1 \<and> seen_zero 7 65536 s'"
proof -
  obtain ok v s' where r: "run_state (unlock open_os 5 (new_unlocker 7) 65536) initial_state = ((ok, v), s')"
    by (metis prod.collapse)
  moreover have ok using r
    by (simp add: open_os_def unlock_def Let_def is_unlocked_def read_word_def os_call_defs run_call)
  ultimately show ?thesis using unlock_verified [OF r] by (simp add: new_unlocker_def)
qed

lemma unlock_multiple_rounds: "unlock_multiple os n u as = for_acc as (0, u) (unlock_round os n)"
  by (simp add: unlock_multiple_def)

lemma unlock_round_run:
  obtains ok v t where "run_state (unlock os n u a) s = ((ok, v), t)"
    and "run_state (unlock_round os n a (c, u)) s = ((if ok then c + 1 else c, v), t)"
    and "u_target_pid v = u_target_pid u" "total_attempts v = total_attempts u + 1"
    and "successful_unlocks v = successful_unlocks u + (if ok then 1 else 0)"
    and "ok \<Longrightarrow> seen_zero (u_target_pid u) a t"
proof -
  obtain ok v t where r: "run_state (unlock os n u a) s = ((ok, v), t)" by (metis prod.collapse)
  have "believed (u\<lparr>total_attempts := total_attempts u + 1\<rparr>) 1 a (ok, v) t"
    using unlock_believed [of u a os n s] r by simp
  then show ?thesis by (intro that [OF r]) (auto simp: believed_def unlock_round_def r)
qed

lemma unlock_rounds_count:
  assumes "run_state (for_acc as (c, u) (unlock_round os n)) s = ((d, v), s')"
  shows "total_attempts v = total_attempts u + int (length as)
    \<and> d - c = successful_unlocks v - successful_unlocks u \<and> c \<le> d \<and> d \<le> c + int (length as)"
  using assms
proof (induction as arbitrary: c u s)
  case (Cons a as)
  obtain ok w t where r: "run_state (unlock_round os n a (c, u)) s = ((if ok then c + 1 else c, w), t)"
    and w: "total_attempts w = total_attempts u + 1"
      "successful_unlocks w = successful_unlocks u + (if ok then 1 else 0)"
    using unlock_round_run [of os n u a s c] by metis
  have "run_state (for_acc as (if ok then c + 1 else c, w) (unlock_round os n)) t = ((d, v), s')"
    using Cons.prems r by simp
  from Cons.IH [OF this] w show ?case by (cases ok) auto
qed simp

text \<open>\<open>unlock_multiple\<close> tries every address of its list and returns how many of the tries were
successes, a number between 0 and the length of the list that its counters grow by.\<close>

theorem unlock_multiple_counts:
  assumes "run_state (unlock_multiple os n u as) s = ((c, v), s')"
  shows "total_attempts v = total_attempts u + int (length as)
    \<and> successful_unlocks v = successful_unlocks u + c \<and> 0 \<le> c \<and> c \<le> int (length as)"
  using unlock_rounds_count [of as 0 u os n s c v s'] assms by (auto simp: unlock_multiple_rounds)

theorem unlock_multiple_counts_witness:
  "\<exists>c v s'. run_state (unlock_multiple open_os 5 (new_unlocker 7) [65536, 65540]) initial_state = ((c, v), s')
     \<and> total_attempts v = 2 \<and> successful_unlocks v = c \<and> 0 \<le> c \<and> c \<le> 2"
proof -
  obtain c v s' where r: "run_state (unlock_multiple open_os 5 (new_unlocker 7) [65536, 65540]) initial_state
      = ((c, v), s')" by (metis prod.collapse)
  show ?thesis using r unlock_multiple_counts [OF r] by (simp add: new_unlocker_def)
qed

text \<open>No word of the process reads as 0, through either way of reading.\<close>

definition never_zero :: "os \<Rightarrow> pid \<Rightarrow> bool" where
  "never_zero os p \<longleftrightarrow> (\<forall>tr a. os_vm_readv os tr p a \<noteq> Some 0 \<and> os_pread os tr (mem_path p) a \<noteq> Some (Some 0))"

lemma is_unlocked_never:
  "never_zero os (u_target_pid u) \<Longrightarrow> returns (\<lambda>b. \<not> b) (is_unlocked os u a)"
  by (auto simp: returns_def is_unlocked_def read_word_def os_call_defs run_call never_zero_def
      split: option.splits)

lemma with_ptrace_returns: "returns (\<lambda>r. \<exists>b. snd r = u\<lparr>ptrace_attached := b\<rparr>) (unlock_with_ptrace os u a)"
  by (simp add: returns_def with_ptrace_object)

lemma unlock_once_never:
  assumes "never_zero os (u_target_pid u)"
  shows "returns (\<lambda>r. \<not> fst r) (unlock_once os u a)"
proof -
  have no: "returns (\<lambda>b. \<not> b) (if w then is_unlocked os (u\<lparr>ptrace_attached := b\<rparr>) a else ret False)" for w b
    using assms by (intro returns_if is_unlocked_never returns_ret) auto
  have no_u: "returns (\<lambda>b. \<not> b) (if w then is_unlocked os u a else ret False)" for w
    using assms by (intro returns_if is_unlocked_never returns_ret) auto
  have last: "returns (\<lambda>r. \<not> fst r) (do {
      ok3 \<leftarrow> (if w then is_unlocked os (u\<lparr>ptrace_attached := b\<rparr>) a else ret False);
      ret (ok3, u\<lparr>ptrace_attached := b\<rparr>) })" for w b
    by (rule returns_step [OF no]) (simp add: returns_ret)
  show ?thesis
    unfolding unlock_once_def
    by (rule returns_bind, rule returns_step [OF no_u], simp, rule returns_bind,
        rule returns_step [OF no_u], simp, rule returns_step [OF with_ptrace_returns])
      (clarsimp simp: last returns_ret split del: if_split)+
qed

lemma unlock_attempts_never:
  "never_zero os (u_target_pid u) \<Longrightarrow> \<not> fst (fst (run_state (unlock_attempts os m n u a) s))"
proof (induction n arbitrary: u s)
  case (Suc n)
  obtain ok v t where r: "run_state (unlock_once os u a) s = ((ok, v), t)" by (metis prod.collapse)
  then have "\<not> ok" "u_target_pid v = u_target_pid u"
    using returnsD [OF unlock_once_never [OF Suc.prems], of a s] unlock_once_believed [of u a os s]
    by (simp_all add: believed_def)
  then show ?case using r Suc by (simp split: prod.splits)
qed simp

lemma unlock_never:
  assumes "never_zero os (u_target_pid u)"
  shows "\<not> fst (fst (run_state (unlock os n u a) s))"
  using returnsD [OF is_unlocked_never [of os "u\<lparr>total_attempts := total_attempts u + 1\<rparr>" a], of s]
    unlock_attempts_never [of os "u\<lparr>total_attempts := total_attempts u + 1\<rparr>" n n a] assms
  by (simp add: unlock_def Let_def split: prod.splits) (metis fst_conv)

lemma unlock_rounds_never:
  assumes "never_zero os (u_target_pid u)"
  shows "fst (fst (run_state (for_acc as (c, u) (unlock_round os n)) s)) = c"
  using assms
proof (induction as arbitrary: c u s)
  case (Cons a as)
  obtain ok w t where r: "run_state (unlock os n u a) s = ((ok, w), t)"
    and w: "run_state (unlock_round os n a (c, u)) s = ((if ok then c + 1 else c, w), t)"
      "u_target_pid w = u_target_pid u"
    using unlock_round_run [of os n u a s c] by metis
  have "\<not> ok" using unlock_never [OF Cons.prems, of n a s] r by simp
  then show ?case using w Cons.IH [of w c t] Cons.prems by simp
qed simp

text \<open>When no word of the target ever reads as 0 (the process is gone, its memory cannot be
read, or somebody keeps the locks), \<open>unlock_multiple\<close> returns 0, even if all its writes succeed.\<close>

theorem unlock_multiple_never:
  assumes "never_zero os (u_target_pid u)"
  shows "fst (fst (run_state (unlock_multiple os n u as) s)) = 0"
  using assms by (simp add: unlock_multiple_rounds unlock_rounds_never)

lemma never_zero_dead: "never_zero dead_os p"
  by (simp add: never_zero_def dead_os_def)

theorem unlock_multiple_never_witness:
  "fst (fst (run_state (unlock_multiple dead_os 5 (new_unlocker 0) [65536, 65540]) initial_state)) = 0"
  by (rule unlock_multiple_never) (rule never_zero_dead)

text \<open>When the target's word can be written and then reads back as written, \<open>unlock\<close> returns true,
after at most one write.\<close>

theorem unlock_succeeds:
  assumes "\<And>tr. os_vm_writev os tr (u_target_pid u) a 0"
    and "\<And>tr. os_vm_readv os (Futex_wake a # Vm_writev (u_target_pid u) a 0 True # tr) (u_target_pid u) a = Some 0"
  shows "\<exists>v s'. run_state (unlock os (Suc n) u a) s = ((True, v), s')
    \<and> calls_made (\<lambda>e. e = Vm_writev (u_target_pid u) a 0 True) s'
        \<le> calls_made (\<lambda>e. e = Vm_writev (u_target_pid u) a 0 True) s + 1"
  using assms
  by (auto simp: unlock_def Let_def unlock_once_def unlock_with_process_vm_def is_unlocked_def
      read_word_def os_call_defs run_call calls_made_def split: option.splits)

theorem unlock_succeeds_witness:
  "\<exists>v s'. run_state (unlock open_os 5 (new_unlocker 7) 65536) initial_state = ((True, v), s')"
proof -
  have "\<exists>v s'. run_state (unlock open_os (Suc 4) (new_unlocker 7) 65536) initial_state = ((True, v), s')
    \<and> calls_made (\<lambda>e. e = Vm_writev (u_target_pid (new_unlocker 7)) 65536 0 True) s'
        \<le> calls_made (\<lambda>e. e = Vm_writev (u_target_pid (new_unlocker 7)) 65536 0 True) initial_state + 1"
    by (rule unlock_succeeds) (simp_all add: open_os_def)
  then show ?thesis by auto
qed

subsection \<open>How many calls it makes\<close>







text \<open>The back-off: a sleep shorter than a millisecond or longer than two and a half seconds is bad.
For the at most ten attempts of the callers \<open>10 * (1 << attempt)\<close> is far from overflowing an \<open>int\<close>.\<close>

definition bad_sleep :: "event \<Rightarrow> bool" where
  "bad_sleep e = (case e of Usleep us \<Rightarrow> us < 1000 \<or> 2500000 < us | _ \<Rightarrow> False)"

lemma free_calls:
  "costs bad_sleep 0 (ptrace os r p)" "costs bad_sleep 0 (waitpid os p opts)"
  "costs bad_sleep 0 (read_file os path)" "costs bad_sleep 0 (process_vm_readv os p x)"
  "costs bad_sleep 0 (process_vm_writev os p x v)" "costs bad_sleep 0 (pread os path x)"
  "costs bad_sleep 0 (pwrite os path x v)" "costs bad_sleep 0 (futex_wake x)"
  by (simp_all add: call_free bad_sleep_def)

lemma free_attach: "n \<le> 3 \<Longrightarrow> costs bad_sleep 0 (attach_retries os n p)"
proof (induction n)
  case (Suc n)
  have ours: "costs bad_sleep 0 (attached_to_us os p)"
    unfolding attached_to_us_def by (rule costs_weaken, (rule costs_rules free_calls)+, simp)
  have again: "costs bad_sleep 0 (attach_retries os n p)" using Suc by simp
  have pause: "costs bad_sleep 0 (usleep (10000 * (3 - n)))"
    using Suc.prems by (intro call_free) (auto simp: bad_sleep_def)
  show ?case
    unfolding attach_retries.simps
    by (rule costs_weaken, (rule costs_rules free_calls ours again pause)+, simp)
qed (simp add: costs_ret)

lemma free_poke: "costs bad_sleep 0 (poke_bytes os p as b)"
proof (induction as arbitrary: b)
  case (Cons a as)
  show ?case
    unfolding poke_bytes.simps by (rule costs_weaken, (rule costs_rules free_calls Cons)+, simp)
qed (simp add: costs_ret)

lemma free_methods:
  "costs bad_sleep 0 (is_unlocked os u a)" "costs bad_sleep 0 (unlock_with_process_vm os u a)"
  "costs bad_sleep 0 (unlock_with_proc_mem os u a)" "costs bad_sleep 0 (unlock_with_ptrace os u a)"
  unfolding is_unlocked_def read_word_def unlock_with_process_vm_def unlock_with_proc_mem_def unlock_with_ptrace_def
  by (rule costs_weaken, (rule costs_rules free_calls free_poke free_attach [OF order_refl])+, simp)+

lemma free_sleep: "0 \<le> b \<Longrightarrow> costs bad_sleep 0 (sleep_with_jitter os b n)"
proof -
  assume b: "0 \<le> b"
  define d where "d = base_delay b n"
  have d: "0 \<le> d" "d \<le> 2000" using b by (auto simp: d_def base_delay_def)
  then have r: "returns (\<lambda>r. - (d div 4) \<le> r \<and> r \<le> d div 4) (uniform_int os (- (d div 4)) (d div 4))"
    by (intro uniform_int_range) simp
  have "costs bad_sleep (0 + 0) (sleep_with_jitter os b n)"
    unfolding sleep_with_jitter_def Let_def d_def [symmetric]
  proof (rule costs_step [OF r])
    show "costs bad_sleep 0 (uniform_int os (- (d div 4)) (d div 4))"
      by (simp add: uniform_int_def costs_gets)
    fix j assume j: "- (d div 4) \<le> j \<and> j \<le> d div 4"
    have "1 \<le> max 1 (d + j) \<and> max 1 (d + j) \<le> 2500" using d j by auto
    then show "costs bad_sleep 0 (usleep (1000 * nat (max 1 (d + j))))"
      by (intro call_free) (auto simp: bad_sleep_def)
  qed
  then show ?thesis by simp
qed

lemma free_once: "costs bad_sleep 0 (unlock_once os u a)"
  unfolding unlock_once_def
  by (rule costs_weaken, (rule costs_rules free_methods)+, simp)

lemma free_attempts: "costs bad_sleep 0 (unlock_attempts os m n u a)"
proof (induction n arbitrary: u)
  case (Suc n)
  show ?case
    unfolding unlock_attempts.simps
    by (rule costs_weaken, (rule costs_rules free_once free_sleep [of 10, simplified] Suc)+, simp)
qed (simp add: costs_ret)

text \<open>Every pause that \<open>unlock\<close> makes, between attempts and between tries to attach, lasts from
one millisecond to two and a half seconds, whatever the random jitter.\<close>

theorem unlock_pauses:
  "calls_made bad_sleep (snd (run_state (unlock os n u a) s)) \<le> calls_made bad_sleep s"
proof -
  have c: "costs bad_sleep 0 (unlock os n u a)"
    unfolding unlock_def Let_def
    by (rule costs_weaken, (rule costs_rules free_methods free_attempts)+, simp)
  show ?thesis using costsD [OF c, of s] by simp
qed

subsection \<open>Frame\<close>

text \<open>The unlocker touches none of the monitor's variables.\<close>

lemma silent_methods:
  "silent (is_unlocked os u a)" "silent (unlock_with_process_vm os u a)"
  "silent (unlock_with_proc_mem os u a)" "silent (sleep_with_jitter os b n)"
  "silent (attached_to_us os p)" "silent (destroy_unlocker os u)"
  unfolding is_unlocked_def read_word_def unlock_with_process_vm_def unlock_with_proc_mem_def
    sleep_with_jitter_def Let_def attached_to_us_def destroy_unlocker_def
  by (rule silent_rules)+

lemma silent_attach: "silent (attach_retries os n p)"
  by (induction n) (simp_all add: silent_rules silent_methods)

lemma silent_poke: "silent (poke_bytes os p as b)"
  by (induction as arbitrary: b) (simp_all add: silent_rules)

lemma silent_once: "silent (unlock_once os u a)"
  unfolding unlock_once_def unlock_with_ptrace_def
  by (rule silent_rules silent_methods silent_attach silent_poke)+

lemma silent_unlock: "silent (unlock os n u a)"
proof -
  have "silent (unlock_attempts os m n u a)" for m n u
    by (induction n arbitrary: u) (simp_all add: silent_rules silent_methods silent_once split: prod.splits)
  then show ?thesis
    unfolding unlock_def Let_def by (simp add: silent_rules silent_methods)
qed

lemma silent_unlock_multiple: "silent (unlock_multiple os n u as)"
  unfolding unlock_multiple_rounds unlock_round_def by (rule silent_rules silent_unlock)+

end
