(* ===== verification/Strategy1.thy ===== *)
theory Strategy1
  imports Futex_Unlocker Monitor_Invariants Digraph
begin

text \<open>
  \<open>strategy1.cpp\<close>: the resolution of a deadlock. The first part holds the steps of the original
  plan (\<open>stop_the_world\<close>, the choice and the isolation of a victim, the clean-up of the
  parent), the second \<open>resolve_deadlock_strategy1\<close> with its helpers, as the monitor calls it, and
  the emergency break. The counts that the code only prints are left out where nothing else
  depends on them; the functions that protect and unlock the program's own pages are in \<open>Private_Memory\<close>.

  After \<open>fork\<close> the program goes on twice, so a run is the run of one of the two processes: the
  child's is the one in which the kernel answers 0. It ends in \<open>Exited\<close>.
\<close>

datatype outcome =
    Threw fault        \<comment> \<open>an exception leaves the function\<close>
  | Returned bool
  | Exited int         \<comment> \<open>the process ends in \<open>_exit\<close>\<close>

subsection \<open>Stopping the world\<close>

text \<open>\<open>for (attempt = 0; attempt < 3; attempt++)\<close>, with the attempts left as the second argument.\<close>

fun detach_retries :: "os \<Rightarrow> nat \<Rightarrow> pid \<Rightarrow> bool prog" where
  "detach_retries os 0 tid = ret False"
| "detach_retries os (Suc left) tid = do {
     err \<leftarrow> ptrace os (PTRACE_DETACH 0) tid;
     if err = 0 \<or> err = ESRCH \<or> err = EPERM then ret True
     else do {
       (if left = 1 then do { cont \<leftarrow> ptrace os PTRACE_CONT tid; usleep 1000 } else ret ());
       usleep (1000 * 2 ^ (2 - left));
       detach_retries os left tid
     }
   }"

definition detach_thread :: "os \<Rightarrow> pid \<Rightarrow> unit prog" where
  "detach_thread os tid = do {
     detached \<leftarrow> detach_retries os 3 tid;
     if detached then ret ()
     else do {
       cont \<leftarrow> ptrace os PTRACE_CONT tid;
       usleep 1000;
       err \<leftarrow> ptrace os (PTRACE_DETACH 0) tid;
       if err \<noteq> 0 then do { k \<leftarrow> kill os tid SIGCONT; ret () } else ret ()
     }
   }"

definition stop_the_world :: "os \<Rightarrow> bool prog" where
  "stop_the_world os = do {
     modify (\<lambda>s. s\<lparr>monitoring_active := False\<rparr>);
     target \<leftarrow> gets target_pid;
     tids \<leftarrow> list_threads os target;
     if tids = [] then do { modify (\<lambda>s. s\<lparr>world_stopped := True\<rparr>); ret True }
     else do {
       for_each tids (detach_thread os);
       usleep 50000;
       k \<leftarrow> kill os target SIGCONT;
       modify (\<lambda>s. s\<lparr>world_stopped := True\<rparr>);
       ret True
     }
   }"

subsection \<open>Choosing and isolating a victim\<close>

text \<open>The loops that look for the first live thread of a list. An identifier that \<open>stoi\<close> rejects
  throws.\<close>

fun first_live :: "os \<Rightarrow> string list \<Rightarrow> (fault + (pid \<times> string) option) prog" where
  "first_live os [] = ret (Inr None)"
| "first_live os (thread_name # rest) =
     (case extract_tid_from_identifier thread_name of
        Inl f \<Rightarrow> ret (Inl f)
      | Inr tid \<Rightarrow> do {
          alive \<leftarrow> thread_exists os tid;
          if alive then ret (Inr (Some (tid, thread_name))) else first_live os rest
        })"

definition unique_threads :: "string list \<Rightarrow> string uset" where
  "unique_threads ts = foldl (\<lambda>u t. us_insert t u) [] ts"

definition choose_victim_thread :: "os \<Rightarrow> DeadlockInfo \<Rightarrow> (fault + string) prog" where
  "choose_victim_thread os deadlock = do {
     found \<leftarrow> first_live os (unique_threads (cycle deadlock));
     case found of
       Inl f \<Rightarrow> ret (Inl f)
     | Inr v \<Rightarrow>
         (let best = (case v of None \<Rightarrow> [] | Some (_, thread_name) \<Rightarrow> thread_name);
              best_victim = (if best = [] \<and> cycle deadlock \<noteq> [] then hd (cycle deadlock) else best)
          in case extract_tid_from_identifier best_victim of
               Inl f \<Rightarrow> ret (Inl f)
             | Inr victim \<Rightarrow> ret (Inr best_victim))
   }"

text \<open>A thread counts as running when its \<open>State:\<close> line has no \<open>T\<close>.\<close>

definition still_running :: "string option \<Rightarrow> bool" where
  "still_running content =
     (case content of None \<Rightarrow> False
      | Some text \<Rightarrow> (case first_line ''State:'' text of None \<Rightarrow> False
          | Some line \<Rightarrow> CHR ''T'' \<notin> set line))"

definition eliminate_other_threads_in_shadow :: "os \<Rightarrow> pid \<Rightarrow> bool prog" where
  "eliminate_other_threads_in_shadow os victim = do {
     dir \<leftarrow> list_dir os ''/proc/self/task'';
     if dir = None then ret False
     else do {
       for_each (list_tids dir) (\<lambda>tid. do {
         self \<leftarrow> getpid os;
         if tid = self \<or> tid = victim then ret ()
         else do { err \<leftarrow> tgkill os self tid SIGSTOP; ret () }
       });
       usleep 50000;
       remaining_running \<leftarrow> for_acc (list_tids dir) (0::nat) (\<lambda>tid n. do {
         self \<leftarrow> getpid os;
         if tid = self \<or> tid = victim then ret n
         else do {
           content \<leftarrow> read_file os (''/proc/self/task/'' @ to_string tid @ ''/status'');
           ret (if still_running content then n + 1 else n)
         }
       });
       ret (remaining_running = 0)
     }
   }"

definition resume_paused_threads :: "os \<Rightarrow> pid \<Rightarrow> unit prog" where
  "resume_paused_threads os victim = do {
     dir \<leftarrow> list_dir os ''/proc/self/task'';
     if dir = None then ret ()
     else do {
       for_each (list_tids dir) (\<lambda>tid. do {
         self \<leftarrow> getpid os;
         if tid = self then ret () else do { err \<leftarrow> tgkill os self tid SIGCONT; ret () }
       });
       usleep 50000
     }
   }"

subsection \<open>The clean-up of the parent\<close>

text \<open>The owner is compared with the victim by a search for the victim's number in its name.\<close>

definition release_matching :: "pid \<Rightarrow> addr list \<Rightarrow> (addr, string) umap \<Rightarrow> (addr, string) umap" where
  "release_matching victim locks owners = foldl (\<lambda>m a.
     case um_find m a of None \<Rightarrow> m
     | Some owner \<Rightarrow> if str_contains (to_string victim) owner then um_erase a m else m) owners locks"

definition cleanup_parent_process :: "os \<Rightarrow> pid \<Rightarrow> addr list \<Rightarrow> bool prog" where
  "cleanup_parent_process os victim deadlock_locks = do {
     modify (\<lambda>s. s\<lparr>lock_owners := release_matching victim deadlock_locks (lock_owners s)\<rparr>);
     victim_name \<leftarrow> get_thread_identifier os victim;
     modify (\<lambda>s. s\<lparr>waits_for := um_erase victim_name (waits_for s)\<rparr>);
     modify (\<lambda>s. s\<lparr>futex_waiters :=
       filter (\<lambda>p. snd p \<noteq> []) (um_map_values (removeAll victim_name) (futex_waiters s))\<rparr>);
     ret True
   }"

fun mark_resolved :: "64 word \<Rightarrow> DeadlockInfo list \<Rightarrow> DeadlockInfo list" where
  "mark_resolved i [] = []"
| "mark_resolved i (dl # dls) =
     (if deadlock_id dl = i then dl\<lparr>resolved := True\<rparr> # dls else dl # mark_resolved i dls)"

definition monitor_shadow_process :: "os \<Rightarrow> pid \<Rightarrow> pid \<Rightarrow> DeadlockInfo \<Rightarrow> unit prog" where
  "monitor_shadow_process os shadow_pid victim deadlock = do {
     monitor \<leftarrow> fork os;
     if monitor = 0 then do { status \<leftarrow> waitpid os shadow_pid 0; ret () }
     else if monitor > 0 then
       modify (\<lambda>s. s\<lparr>detected_deadlocks := mark_resolved (deadlock_id deadlock) (detected_deadlocks s)\<rparr>)
     else ret ()
   }"

subsection \<open>Cleaning up stuck threads\<close>

text \<open>What the loop over the status file finds: stopped, zombie, and the tracer's pid.\<close>

definition scan_status :: "string \<Rightarrow> bool \<times> bool \<times> int" where
  "scan_status text = foldl (\<lambda>(stopped, zombie, tracer) line.
     (if starts_with ''State:'' line \<and> CHR ''T'' \<in> set line then True else stopped,
      if starts_with ''State:'' line \<and> CHR ''T'' \<notin> set line \<and> CHR ''Z'' \<in> set line then True else zombie,
      if starts_with ''TracerPid:'' line then atoi (drop 10 line) else tracer))
     (False, False, 0) (fgets_lines 256 text)"

text \<open>The steps below give what they add to \<open>cleaned_count\<close>.\<close>

definition detach_foreign :: "os \<Rightarrow> pid \<Rightarrow> int prog" where
  "detach_foreign os tid = do {
     err \<leftarrow> ptrace os (PTRACE_DETACH 0) tid;
     if err = 0 then ret 1
     else do {
       k \<leftarrow> kill os tid SIGCONT;
       usleep 10000;
       err2 \<leftarrow> ptrace os (PTRACE_DETACH 0) tid;
       ret (if err2 = 0 then 1 else 0)
     }
   }"

definition reattach_once :: "os \<Rightarrow> pid \<Rightarrow> int prog" where
  "reattach_once os tid = do {
     err \<leftarrow> ptrace os (PTRACE_DETACH 0) tid;
     if err \<noteq> 0 then ret 0
     else do {
       usleep 10000;
       err2 \<leftarrow> ptrace os PTRACE_ATTACH tid;
       if err2 \<noteq> 0 then ret 0
       else do {
         status \<leftarrow> waitpid os tid 0;
         err3 \<leftarrow> ptrace os (PTRACE_SETOPTIONS 1) tid;
         if err3 \<noteq> 0 then ret 0
         else do { err4 \<leftarrow> ptrace os PTRACE_SYSCALL tid; ret (if err4 = 0 then 1 else 0) }
       }
     }
   }"

definition restart_ours :: "os \<Rightarrow> pid \<Rightarrow> int prog" where
  "restart_ours os tid = do {
     err \<leftarrow> ptrace os PTRACE_CONT tid;
     if err = 0 then ret 1
     else do {
       err2 \<leftarrow> ptrace os PTRACE_SYSCALL tid;
       if err2 = 0 then ret 1 else reattach_once os tid
     }
   }"

definition is_alive :: "string \<Rightarrow> bool" where
  "is_alive text = (case first_line ''State:'' text of None \<Rightarrow> False
     | Some line \<Rightarrow> CHR ''R'' \<in> set line \<or> CHR ''S'' \<in> set line \<or> CHR ''T'' \<in> set line)"

definition cleanup_thread :: "os \<Rightarrow> pid \<Rightarrow> int \<times> int \<Rightarrow> (int \<times> int) prog" where
  "cleanup_thread os tid counts = do {
     alive \<leftarrow> thread_exists os tid;
     if \<not> alive then ret counts
     else do {
       content \<leftarrow> read_file os (status_path tid);
       case content of
         None \<Rightarrow> ret counts
       | Some text \<Rightarrow> (case scan_status text of (stopped, zombie, tracer) \<Rightarrow>
           if zombie then ret counts
           else do {
             c1 \<leftarrow> (if stopped then do {
               err \<leftarrow> kill os tid SIGCONT;
               usleep 10000;
               ret (if err = 0 then 1 else 0) } else ret 0);
             self \<leftarrow> getpid os;
             c2 \<leftarrow> (if tracer > 0 \<and> tracer \<noteq> self then detach_foreign os tid else ret 0);
             self2 \<leftarrow> getpid os;
             c3 \<leftarrow> (if tracer = self2 then restart_ours os tid else ret 0);
             check \<leftarrow> read_file os (status_path tid);
             ret (fst counts + c1 + c2 + c3,
                  snd counts + (case check of None \<Rightarrow> 0 | Some now \<Rightarrow> if is_alive now then 0 else 1))
           })
     }
   }"

text \<open>\<open>cleaned_count\<close> and \<open>failed_count\<close>, which the code prints.\<close>

definition cleanup_stuck_threads :: "os \<Rightarrow> pid list \<Rightarrow> (int \<times> int) prog" where
  "cleanup_stuck_threads os tids = for_acc tids (0, 0) (cleanup_thread os)"

subsection \<open>Tracing a thread again\<close>

definition resume_traced :: "os \<Rightarrow> pid \<Rightarrow> bool prog" where
  "resume_traced os tid = do {
     err \<leftarrow> ptrace os PTRACE_SYSCALL tid;
     if err = 0 then ret True
     else do {
       err2 \<leftarrow> ptrace os PTRACE_CONT tid;
       if err2 = 0 then ret True
       else do { err3 \<leftarrow> ptrace os (PTRACE_DETACH 0) tid; usleep 10000; ret False }
     }
   }"

definition release_foreign :: "os \<Rightarrow> pid \<Rightarrow> unit prog" where
  "release_foreign os tid = do {
     err \<leftarrow> ptrace os (PTRACE_DETACH 0) tid;
     if err = 0 then usleep 10000
     else do { k \<leftarrow> kill os tid SIGCONT; usleep 10000 }
   }"

text \<open>After a successful \<open>PTRACE_ATTACH\<close>: the first \<open>waitpid\<close> is \<open>WNOHANG\<close>, the second blocks.\<close>

definition after_attach :: "os \<Rightarrow> pid \<Rightarrow> bool option prog" where
  "after_attach os tid = do {
     w \<leftarrow> waitpid os tid 1;
     waited \<leftarrow> (if fst w = 0 then do { usleep 50000; w2 \<leftarrow> waitpid os tid 0; ret (fst w2) }
       else ret (fst w));
     resumed \<leftarrow> (if waited = tid then do {
         err \<leftarrow> ptrace os (PTRACE_SETOPTIONS 1) tid;
         if err = 0 then do { err2 \<leftarrow> ptrace os PTRACE_SYSCALL tid; ret (err2 = 0) } else ret False }
       else ret False);
     if resumed then ret (Some True)
     else do { err \<leftarrow> ptrace os (PTRACE_DETACH 0) tid; usleep 10000; ret None }
   }"

definition after_eperm :: "os \<Rightarrow> pid \<Rightarrow> bool option prog" where
  "after_eperm os tid = do {
     new_tracer \<leftarrow> get_tracer_pid os tid;
     self \<leftarrow> getpid os;
     resumed \<leftarrow> (if new_tracer = self then do { err \<leftarrow> ptrace os PTRACE_SYSCALL tid; ret (err = 0) }
       else ret False);
     if resumed then ret (Some True)
     else do {
       k \<leftarrow> kill os tid SIGCONT;
       resumed2 \<leftarrow> (if k = 0 then do { usleep 10000; err \<leftarrow> ptrace os PTRACE_SYSCALL tid; ret (err = 0) }
         else ret False);
       if resumed2 then ret (Some True)
       else do { err \<leftarrow> ptrace os (PTRACE_DETACH 0) tid; usleep 10000; ret None }
     }
   }"

text \<open>One round of the retry loop: \<open>Some b\<close> leaves the function with \<open>b\<close>, \<open>None\<close> goes on.\<close>

definition reattach_attempt :: "os \<Rightarrow> pid \<Rightarrow> bool option prog" where
  "reattach_attempt os tid = do {
     err \<leftarrow> ptrace os PTRACE_ATTACH tid;
     if err = 0 then after_attach os tid
     else if err = EPERM then after_eperm os tid
     else if err = ESRCH then ret (Some False)
     else ret None
   }"

fun reattach_attempts :: "os \<Rightarrow> nat \<Rightarrow> nat \<Rightarrow> pid \<Rightarrow> bool option prog" where
  "reattach_attempts os max_retries 0 tid = ret None"
| "reattach_attempts os max_retries (Suc left) tid = do {
     r \<leftarrow> reattach_attempt os tid;
     case r of
       Some b \<Rightarrow> ret (Some b)
     | None \<Rightarrow> do {
         (if left > 0 then usleep (50000 * (max_retries - left)) else ret ());
         reattach_attempts os max_retries left tid
       }
   }"

definition last_resort :: "os \<Rightarrow> pid \<Rightarrow> bool prog" where
  "last_resort os tid = do {
     err \<leftarrow> ptrace os PTRACE_CONT tid;
     if err = 0 then ret True
     else do {
       k \<leftarrow> kill os tid SIGCONT;
       if k = 0 then ret True
       else do {
         err2 \<leftarrow> ptrace os (PTRACE_DETACH 0) tid;
         if err2 = 0 then do { k2 \<leftarrow> kill os tid SIGCONT; ret True } else ret False
       }
     }
   }"

definition reattach_and_resume_tracing :: "os \<Rightarrow> nat \<Rightarrow> pid \<Rightarrow> bool prog" where
  "reattach_and_resume_tracing os max_retries tid = do {
     alive \<leftarrow> thread_exists os tid;
     if \<not> alive then ret False
     else do {
       tracer \<leftarrow> get_tracer_pid os tid;
       stopped \<leftarrow> is_thread_stopped os tid;
       self \<leftarrow> getpid os;
       resumed \<leftarrow> (if tracer = self then resume_traced os tid
         else if tracer > 0 then do { release_foreign os tid; ret False }
         else ret False);
       if resumed then ret True
       else do {
         (if stopped \<and> tracer = 0 then do {
            k \<leftarrow> kill os tid SIGCONT;
            if k = 0 then usleep 10000 else ret () }
          else ret ());
         r \<leftarrow> reattach_attempts os max_retries max_retries tid;
         case r of Some b \<Rightarrow> ret b | None \<Rightarrow> last_resort os tid
       }
     }
   }"

subsection \<open>Resolving a deadlock\<close>

definition detach_before_fork :: "os \<Rightarrow> pid \<Rightarrow> unit prog" where
  "detach_before_fork os tid = do {
     alive \<leftarrow> thread_exists os tid;
     if \<not> alive then ret ()
     else do {
       err \<leftarrow> ptrace os (PTRACE_DETACH SIGCONT) tid;
       if err = 0 \<or> err = ESRCH \<or> err = EPERM then ret ()
       else do {
         k \<leftarrow> kill os tid SIGCONT;
         err2 \<leftarrow> ptrace os (PTRACE_DETACH 0) tid;
         k2 \<leftarrow> kill os tid SIGCONT;
         ret ()
       }
     }
   }"

definition continue_thread :: "os \<Rightarrow> pid \<Rightarrow> unit prog" where
  "continue_thread os tid = do {
     alive \<leftarrow> thread_exists os tid;
     if alive then do { k \<leftarrow> kill os tid SIGCONT; ret () } else ret ()
   }"

definition shadow_process :: "os \<Rightarrow> addr list \<Rightarrow> pid list \<Rightarrow> outcome prog" where
  "shadow_process os locks tids = do {
     target \<leftarrow> gets target_pid;
     r \<leftarrow> unlock_multiple os 7 (new_unlocker target) locks;
     for_each tids (continue_thread os);
     for_each locks futex_wake;
     ret (Exited 0)
   }"

definition reattach_others :: "os \<Rightarrow> pid \<Rightarrow> pid list \<Rightarrow> unit prog" where
  "reattach_others os victim tids = for_each tids (\<lambda>tid. do {
     alive \<leftarrow> thread_exists os tid;
     if \<not> alive \<or> tid = victim then ret ()
     else do { r \<leftarrow> reattach_and_resume_tracing os 5 tid; ret () }
   })"

definition reattach_victim :: "os \<Rightarrow> pid \<Rightarrow> unit prog" where
  "reattach_victim os victim = do {
     alive \<leftarrow> thread_exists os victim;
     if \<not> alive then ret ()
     else do {
       r \<leftarrow> reattach_and_resume_tracing os 5 victim;
       if r then ret () else do { k \<leftarrow> kill os victim SIGCONT; ret () }
     }
   }"

definition release_owned :: "string \<Rightarrow> addr list \<Rightarrow> (addr, string) umap \<Rightarrow> (addr, string) umap" where
  "release_owned name locks owners =
     foldl (\<lambda>m a. if um_find m a = Some name then um_erase a m else m) owners locks"

definition forget_victim :: "string \<Rightarrow> addr list \<Rightarrow> gstate \<Rightarrow> gstate" where
  "forget_victim name locks s = s\<lparr>
     waits_for := um_erase name (waits_for s),
     thread_locks := um_erase name (thread_locks s),
     lock_owners := release_owned name locks (lock_owners s),
     futex_waiters := um_map_values (removeAll name) (futex_waiters s)\<rparr>"

definition set_active :: "bool \<Rightarrow> unit prog" where
  "set_active b = modify (\<lambda>s. s\<lparr>monitoring_active := b\<rparr>)"

text \<open>The parent, from the successful \<open>fork\<close> on.\<close>

definition after_shadow :: "os \<Rightarrow> pid \<Rightarrow> string \<Rightarrow> addr list \<Rightarrow> pid list \<Rightarrow> pid \<Rightarrow> outcome prog" where
  "after_shadow os victim name locks tids shadow = do {
     result \<leftarrow> waitpid os shadow 0;
     if fst result = - 1 then do { set_active True; ret (Returned False) }
     else do {
       counts \<leftarrow> cleanup_stuck_threads os tids;
       for_each tids (continue_thread os);
       continue_thread os victim;
       usleep 100000;
       reattach_others os victim tids;
       reattach_victim os victim;
       modify (forget_victim name locks);
       usleep 50000;
       set_active True;
       ret (Returned True)
     }
   }"

text \<open>From the chosen victim on; the number 0 stands for none.\<close>

definition break_with_victim :: "os \<Rightarrow> DeadlockInfo \<Rightarrow> pid \<times> string \<Rightarrow> outcome prog" where
  "break_with_victim os deadlock v = (case v of (victim, name) \<Rightarrow>
     if victim = 0 then do { set_active True; ret (Returned False) }
     else do {
       target \<leftarrow> gets target_pid;
       tids \<leftarrow> list_threads os target;
       for_each tids (detach_before_fork os);
       k \<leftarrow> kill os victim SIGCONT;
       usleep 50000;
       shadow \<leftarrow> fork os;
       if shadow = 0 then shadow_process os (involved_locks deadlock) tids
       else if shadow > 0 then after_shadow os victim name (involved_locks deadlock) tids shadow
       else do { set_active True; ret (Returned False) }
     })"

definition resolve_deadlock_strategy1 :: "os \<Rightarrow> DeadlockInfo \<Rightarrow> outcome prog" where
  "resolve_deadlock_strategy1 os deadlock = do {
     set_active False;
     found \<leftarrow> first_live os (cycle deadlock);
     case found of
       Inl f \<Rightarrow> ret (Threw f)
     | Inr v \<Rightarrow> break_with_victim os deadlock (case v of None \<Rightarrow> (0, []) | Some x \<Rightarrow> x)
   }"

definition kill_victim :: "string \<Rightarrow> gstate \<Rightarrow> gstate" where
  "kill_victim name s = s\<lparr>
     waits_for := um_erase name (waits_for s),
     thread_locks := um_erase name (thread_locks s),
     lock_owners := filter (\<lambda>p. snd p \<noteq> name) (lock_owners s)\<rparr>"

definition emergency_deadlock_break :: "os \<Rightarrow> DeadlockInfo \<Rightarrow> (fault + bool) prog" where
  "emergency_deadlock_break os deadlock = do {
     found \<leftarrow> first_live os (cycle deadlock);
     case found of
       Inl f \<Rightarrow> ret (Inl f)
     | Inr None \<Rightarrow> ret (Inr False)
     | Inr (Some (tid, _)) \<Rightarrow> do {
         k \<leftarrow> kill os tid SIGKILL;
         victim_name \<leftarrow> get_thread_identifier os tid;
         modify (kill_victim victim_name);
         ret (Inr True)
       }
   }"

subsection \<open>What the steps leave alone\<close>

lemmas silent_quiet = silent_rules silent_helpers

lemma silent_detach_thread: "silent (detach_thread os tid)"
proof -
  have "silent (detach_retries os n tid)" for n by (induction n) (simp_all add: silent_rules)
  then show ?thesis unfolding detach_thread_def by (simp add: silent_rules)
qed

lemma silent_sum:
  "(\<And>x. silent (f x)) \<Longrightarrow> (\<And>x. silent (g x)) \<Longrightarrow> silent (case_sum f g v)"
  by (simp add: silent_def keeps grows_steps)

lemma silent_first_live: "silent (first_live os ts)"
  by (induction ts) (simp_all add: silent_quiet split: sum.split)

lemma silent_cleanup_stuck: "silent (cleanup_stuck_threads os tids)"
  unfolding cleanup_stuck_threads_def cleanup_thread_def detach_foreign_def restart_ours_def reattach_once_def
  by (rule silent_quiet)+

lemma silent_reattach: "silent (reattach_and_resume_tracing os n tid)"
proof -
  have "silent (reattach_attempt os tid)"
    unfolding reattach_attempt_def after_attach_def after_eperm_def by (rule silent_quiet)+
  then have "silent (reattach_attempts os m n tid)" for m n
    by (induction n) (simp_all add: silent_rules split: option.split)
  then show ?thesis
    unfolding reattach_and_resume_tracing_def resume_traced_def release_foreign_def last_resort_def
    by (simp add: silent_quiet)
qed

lemma silent_threads:
  "silent (detach_before_fork os tid)" "silent (continue_thread os tid)"
  "silent (reattach_others os victim tids)" "silent (reattach_victim os victim)"
  "silent (shadow_process os locks tids)"
  unfolding detach_before_fork_def continue_thread_def reattach_others_def reattach_victim_def shadow_process_def
  by (rule silent_quiet silent_reattach silent_unlock_multiple)+

lemmas silent_all = silent_quiet silent_detach_thread silent_first_live silent_cleanup_stuck
  silent_reattach silent_threads

subsection \<open>The effect of a resolution\<close>

definition names_thread :: "string list \<Rightarrow> pid \<times> string \<Rightarrow> bool" where
  "names_thread ts v \<longleftrightarrow> snd v \<in> set ts \<and> extract_tid_from_identifier (snd v) = Inr (fst v)"

lemma first_live_returns:
  "returns (\<lambda>r. case r of Inl f \<Rightarrow> \<exists>t\<in>set ts. extract_tid_from_identifier t = Inl f
     | Inr None \<Rightarrow> True | Inr (Some v) \<Rightarrow> names_thread ts v) (first_live os ts)"
proof (induction ts)
  case Nil
  then show ?case by (simp add: returns_ret)
next
  case (Cons t ts)
  have later: "returns (\<lambda>r. case r of Inl f \<Rightarrow> \<exists>u\<in>set (t # ts). extract_tid_from_identifier u = Inl f
     | Inr None \<Rightarrow> True | Inr (Some v) \<Rightarrow> names_thread (t # ts) v) (first_live os ts)"
    using Cons by (auto simp: returns_def names_thread_def split: sum.splits option.splits)
  show ?case
    by (cases "extract_tid_from_identifier t")
      (auto simp: returns_ret names_thread_def intro!: returns_bind returns_ret later)
qed

definition resolution_effect :: "DeadlockInfo \<Rightarrow> gstate \<Rightarrow> outcome \<Rightarrow> gstate \<Rightarrow> bool" where
  "resolution_effect d v r v' \<longleftrightarrow> (case r of
     Threw f \<Rightarrow> (\<exists>t\<in>set (cycle d). extract_tid_from_identifier t = Inl f) \<and> v' = v\<lparr>monitoring_active := False\<rparr>
   | Exited c \<Rightarrow> c = 0 \<and> v' = v\<lparr>monitoring_active := False\<rparr>
   | Returned b \<Rightarrow>
       if b then \<exists>victim. names_thread (cycle d) victim \<and> fst victim \<noteq> 0
         \<and> v' = forget_victim (snd victim) (involved_locks d) (v\<lparr>monitoring_active := True\<rparr>)
       else v' = v\<lparr>monitoring_active := True\<rparr>)"

lemma vars_idem [simp]: "vars (vars s) = vars s"
  by (simp add: vars_def)

lemma vars_updates [simp]:
  "vars (s\<lparr>monitoring_active := b\<rparr>) = (vars s)\<lparr>monitoring_active := b\<rparr>"
  "vars (forget_victim n ls s) = forget_victim n ls (vars s)"
  "vars (kill_victim n s) = kill_victim n (vars s)"
  by (simp_all add: vars_def forget_victim_def kill_victim_def)

lemma forget_active [simp]:
  "(forget_victim n ls s)\<lparr>monitoring_active := b\<rparr> = forget_victim n ls (s\<lparr>monitoring_active := b\<rparr>)"
  by (simp add: forget_victim_def)

lemma runs_set_active:
  "runs_from (v\<lparr>monitoring_active := b\<rparr>) (f ()) Q \<Longrightarrow> vars v = v \<Longrightarrow>
     runs_from v (State_Monad.bind (set_active b) f) Q"
  unfolding set_active_def by (rule runs_modify) simp_all

lemma after_shadow_runs:
  assumes "names_thread (cycle d) (victim, name)" "victim \<noteq> 0" "vars v = v"
  shows "runs_from (v\<lparr>monitoring_active := False\<rparr>) (after_shadow os victim name (involved_locks d) tids shadow)
    (resolution_effect d v)"
proof -
  have fv: "vars (forget_victim name (involved_locks d) (v\<lparr>monitoring_active := False\<rparr>))
      = forget_victim name (involved_locks d) (v\<lparr>monitoring_active := False\<rparr>)"
    using assms(3) by simp
  have "resolution_effect d v (Returned True) (forget_victim name (involved_locks d) (v\<lparr>monitoring_active := True\<rparr>))"
    using assms unfolding resolution_effect_def by force
  then have clean: "runs_from (v\<lparr>monitoring_active := False\<rparr>) (do {
      modify (forget_victim name (involved_locks d)); usleep 50000; set_active True; ret (Returned True) })
      (resolution_effect d v)"
    using fv by (intro runs_modify runs_skip runs_set_active runs_ret silent_calls) simp_all
  have "runs_from (v\<lparr>monitoring_active := False\<rparr>) (do { set_active True; ret (Returned False) })
      (resolution_effect d v)"
    using assms(3) by (intro runs_set_active runs_ret) (simp_all add: resolution_effect_def)
  then show ?thesis
    unfolding after_shadow_def using clean
    by (auto intro!: runs_skip silent_all)
qed

lemma resolve_runs:
  assumes v: "vars v = v"
  shows "runs_from v (resolve_deadlock_strategy1 os d) (resolution_effect d v)"
proof -
  let ?v = "v\<lparr>monitoring_active := False\<rparr>" and ?ls = "involved_locks d"
  have failed: "runs_from ?v (do { set_active True; ret (Returned False) }) (resolution_effect d v)"
    using v by (intro runs_set_active runs_ret) (simp_all add: resolution_effect_def)
  have child: "runs_from ?v (shadow_process os ?ls tids) (resolution_effect d v)" for tids
    unfolding shadow_process_def
    by (intro runs_skip runs_ret silent_all silent_unlock_multiple) (simp add: resolution_effect_def)
  have live: "runs_from ?v (break_with_victim os d w) (resolution_effect d v)"
    if "fst w = 0 \<or> names_thread (cycle d) w" for w
    using that failed child after_shadow_runs [OF _ _ v, of d "fst w" "snd w"]
    by (cases w) (auto simp: break_with_victim_def intro!: runs_skip silent_all)
  have threw: "runs_from ?v (ret (Threw f)) (resolution_effect d v)"
    if "\<exists>t\<in>set (cycle d). extract_tid_from_identifier t = Inl f" for f
    using that by (intro runs_ret) (simp add: resolution_effect_def)
  show ?thesis
    unfolding resolve_deadlock_strategy1_def
  proof (intro runs_set_active v runs_silent [OF silent_first_live first_live_returns])
    fix found :: "fault + (pid \<times> string) option"
    assume "case found of Inl f \<Rightarrow> \<exists>t\<in>set (cycle d). extract_tid_from_identifier t = Inl f
      | Inr None \<Rightarrow> True | Inr (Some w) \<Rightarrow> names_thread (cycle d) w"
    then show "runs_from ?v (case found of Inl f \<Rightarrow> ret (Threw f)
        | Inr w \<Rightarrow> break_with_victim os d (case w of None \<Rightarrow> (0, []) | Some x \<Rightarrow> x)) (resolution_effect d v)"
      using live threw by (cases found) (auto split: option.splits)
  qed
qed

text \<open>C11: A resolution that returns has set \<open>monitoring_active\<close> again: after \<open>true\<close> a thread of the
cycle with a readable number is forgotten (its wait edges, its lock set, its place in every wait
list, and its ownership of the involved locks) and nothing else has changed, after \<open>false\<close> nothing
has. An exception (a thread whose identifier \<open>stoi\<close> rejects) and the shadow process leave the flag
cleared.\<close>

theorem resolve_deadlock_effect:
  assumes "run_state (resolve_deadlock_strategy1 os d) s = (r, s')"
  shows "resolution_effect d (vars s) r (vars s')"
  using runs_fromD [OF resolve_runs assms] by simp

lemma um_find_release_owned [simp]:
  "um_find (release_owned name ls m) a = (if a \<in> set ls \<and> um_find m a = Some name then None else um_find m a)"
  by (induction ls arbitrary: m) (auto simp: release_owned_def)

lemma um_ok_release_owned [simp]: "um_ok m \<Longrightarrow> um_ok (release_owned name ls m)"
  by (induction ls arbitrary: m) (simp_all add: release_owned_def)

lemma table_forget_victim: "table_inv s \<Longrightarrow> table_inv (forget_victim name ls s)"
  by (auto simp: table_defs forget_victim_def)

lemma table_vars: "table_inv (vars s) = table_inv s"
  by (simp add: vars_def table_defs)

lemma table_active [simp]: "table_inv (s\<lparr>monitoring_active := b\<rparr>) = table_inv s"
  by (simp add: table_defs)

lemma resolve_effect_run:
  "resolution_effect d (vars s) (fst (run_state (resolve_deadlock_strategy1 os d) s))
     (vars (snd (run_state (resolve_deadlock_strategy1 os d) s)))"
  by (rule runs_fromD [OF resolve_runs]) simp_all

lemma no_cycle_without_edges: "succs u = [] \<Longrightarrow> (u, v) \<notin> (edges succs)\<^sup>+"
  by (auto simp: edges_def dest: tranclD)

text \<open>C6: When \<open>resolve_deadlock_strategy1\<close> returns true, the victim is a thread of the reported cycle,
no cycle of the wait-for graph goes through it any more, no new wait edge has appeared, none of the
involved locks belongs to it, and it is in no wait list.\<close>

theorem resolved_victim_free:
  assumes "run_state (resolve_deadlock_strategy1 os d) s = (Returned True, s')"
  shows "\<exists>name\<in>set (cycle d).
    (name, name) \<notin> (edges (waits_of s'))\<^sup>+ \<and> edges (waits_of s') \<subseteq> edges (waits_of s)
    \<and> locks_of s' name = []
    \<and> (\<forall>a\<in>set (involved_locks d). um_find (lock_owners s') a \<noteq> Some name)
    \<and> (\<forall>a. name \<notin> set (waiters_of s' a))"
proof -
  from resolve_effect_run [of d s os] assms obtain victim
    where n: "names_thread (cycle d) victim"
      and v: "vars s' = forget_victim (snd victim) (involved_locks d) ((vars s)\<lparr>monitoring_active := True\<rparr>)"
    by (auto simp: resolution_effect_def)
  let ?name = "snd victim"
  from v have w: "waits_for s' = um_erase ?name (waits_for s)"
    and l: "thread_locks s' = um_erase ?name (thread_locks s)"
    and o: "lock_owners s' = release_owned ?name (involved_locks d) (lock_owners s)"
    and f: "futex_waiters s' = um_map_values (removeAll ?name) (futex_waiters s)"
    by (cases s; cases s'; simp add: vars_def forget_victim_def)+
  have "(?name, ?name) \<notin> (edges (waits_of s'))\<^sup>+" by (rule no_cycle_without_edges) (simp add: w)
  moreover have "edges (waits_of s') \<subseteq> edges (waits_of s)" by (auto simp: edges_def w split: if_splits)
  ultimately show ?thesis using n by (intro bexI [of _ ?name]) (auto simp: names_thread_def l o f)
qed

text \<open>When it succeeds: a thread of the cycle is alive, \<open>fork\<close> and \<open>waitpid\<close> work.\<close>

definition resolvable :: "os \<Rightarrow> DeadlockInfo \<Rightarrow> bool" where
  "resolvable os d \<longleftrightarrow>
     (\<forall>t\<in>set (cycle d). \<exists>tid. extract_tid_from_identifier t = Inr tid \<and> tid \<noteq> 0)
     \<and> (\<exists>t\<in>set (cycle d). \<forall>tid. extract_tid_from_identifier t = Inr tid \<longrightarrow> (\<forall>tr. os_access os tr (status_path tid)))
     \<and> (\<forall>tr. os_fork os tr > 0) \<and> (\<forall>tr p opts. fst (os_waitpid os tr p opts) \<noteq> - 1)"

lemma first_live_finds:
  assumes "\<forall>t\<in>set ts. \<exists>tid. extract_tid_from_identifier t = Inr tid \<and> tid \<noteq> 0"
    and "\<exists>t\<in>set ts. \<forall>tid. extract_tid_from_identifier t = Inr tid \<longrightarrow> (\<forall>tr. os_access os tr (status_path tid))"
  shows "returns (\<lambda>r. \<exists>v. r = Inr (Some v) \<and> fst v \<noteq> 0) (first_live os ts)"
  using assms
proof (induction ts)
  case (Cons t ts)
  obtain tid where t: "extract_tid_from_identifier t = Inr tid" "tid \<noteq> 0" using Cons.prems(1) by auto
  show ?case
  proof (cases "\<forall>tr. os_access os tr (status_path tid)")
    case True
    then show ?thesis using t by (simp add: returns_def thread_exists_def access_def run_call)
  next
    case False
    then have "\<exists>t\<in>set ts. \<forall>tid. extract_tid_from_identifier t = Inr tid \<longrightarrow> (\<forall>tr. os_access os tr (status_path tid))"
      using Cons.prems(2) t by auto
    then have "returns (\<lambda>r. \<exists>v. r = Inr (Some v) \<and> fst v \<noteq> 0) (first_live os ts)"
      using Cons by auto
    then show ?thesis using t by (auto intro!: returns_bind returns_if returns_ret)
  qed
qed simp

lemma resolve_returns_true:
  assumes "resolvable os d"
  shows "returns (\<lambda>r. r = Returned True) (resolve_deadlock_strategy1 os d)"
proof -
  have wait: "returns (\<lambda>w. fst w \<noteq> - 1) (waitpid os p opts)" for p opts
    using assms by (simp add: resolvable_def returns_def waitpid_def run_call)
  have forked: "returns (\<lambda>p. 0 < p) (fork os)"
    using assms by (simp add: resolvable_def returns_def fork_def run_call)
  have after: "returns (\<lambda>r. r = Returned True) (after_shadow os victim name ls tids shadow)"
    for victim name ls tids shadow
    unfolding after_shadow_def
    by (rule returns_step [OF wait]) (simp add: returns_bind returns_ret)
  have "returns (\<lambda>r. r = Returned True) (break_with_victim os d v)" if "fst v \<noteq> 0" for v
    unfolding break_with_victim_def using that after
    by (auto intro!: returns_prod returns_bind returns_step [OF forked])
  then show ?thesis
    unfolding resolve_deadlock_strategy1_def
    using assms by - (rule returns_bind, rule returns_step [OF first_live_finds], auto simp: resolvable_def)
qed

text \<open>A system in which one thread, number 1, is alive and the shadow process runs and ends.\<close>

definition shadow_os :: os where
  "shadow_os = dead_os\<lparr>os_access := \<lambda>_ path. path = ''/proc/1/status'', os_fork := \<lambda>_. 50,
     os_waitpid := \<lambda>_ p _. (1, 0)\<rparr>"

definition sample_deadlock :: DeadlockInfo where
  "sample_deadlock = \<lparr>cycle = [''a[1]'', ''b[2]''], involved_locks = [65536], detection_time = 0,
     deadlock_id = 1, resolved = False\<rparr>"

lemma sample_resolvable: "resolvable shadow_os sample_deadlock"
  by (simp add: resolvable_def sample_deadlock_def sample_ids sample_names(3) shadow_os_def)

lemma sample_run:
  obtains s' where "run_state (resolve_deadlock_strategy1 shadow_os sample_deadlock) initial_state = (Returned True, s')"
  using returnsD [OF resolve_returns_true [OF sample_resolvable], of initial_state] by (metis prod.collapse)

text \<open>C32: When every thread of the cycle has a readable number, one of them is alive, \<open>fork\<close> succeeds
and the shadow process can be waited for, \<open>resolve_deadlock_strategy1\<close> returns true, whatever the
ptrace calls and the signals do.\<close>

theorem resolve_succeeds:
  assumes "resolvable os d"
  shows "fst (run_state (resolve_deadlock_strategy1 os d) s) = Returned True"
  by (rule returnsD [OF resolve_returns_true [OF assms]])

theorem resolve_succeeds_witness:
  "fst (run_state (resolve_deadlock_strategy1 shadow_os sample_deadlock) initial_state) = Returned True"
  by (rule resolve_succeeds [OF sample_resolvable])

theorem resolved_victim_free_witness:
  "\<exists>s'. \<exists>name\<in>{''a[1]'', ''b[2]''}. (name, name) \<notin> (edges (waits_of s'))\<^sup>+
     \<and> run_state (resolve_deadlock_strategy1 shadow_os sample_deadlock) initial_state = (Returned True, s')"
proof -
  obtain s' where r: "run_state (resolve_deadlock_strategy1 shadow_os sample_deadlock) initial_state = (Returned True, s')"
    by (rule sample_run)
  show ?thesis using resolved_victim_free [OF r] r by (auto simp: sample_deadlock_def)
qed

theorem resolve_deadlock_effect_witness:
  "\<exists>r s'. run_state (resolve_deadlock_strategy1 shadow_os sample_deadlock) initial_state = (r, s')
     \<and> resolution_effect sample_deadlock (vars initial_state) r (vars s')"
proof -
  obtain r s' where r: "run_state (resolve_deadlock_strategy1 shadow_os sample_deadlock) initial_state = (r, s')"
    by (metis prod.collapse)
  from r resolve_deadlock_effect [OF r] show ?thesis by blast
qed

text \<open>The clean-up keeps the owner map and the lock sets consistent only when the victim owns no
lock outside the cycle: its lock set is dropped as a whole, its ownerships only for the involved
locks.\<close>

theorem forget_victim_owners:
  assumes "owners_hold s"
  shows "owners_hold (forget_victim name ls s) \<longleftrightarrow>
    (\<forall>a. um_find (lock_owners s) a = Some name \<longrightarrow> a \<in> set ls)"
  using assms unfolding owners_hold_def forget_victim_def by (auto split: if_splits)

theorem forget_victim_owners_witness:
  "\<exists>s. owners_hold s \<and> \<not> owners_hold (forget_victim ''a[1]'' [65536] s)"
proof -
  let ?s = "initial_state\<lparr>lock_owners := [(131072, ''a[1]'')], thread_locks := [(''a[1]'', [131072])]\<rparr>"
  have o: "owners_hold ?s"
    by (simp add: owners_hold_def initial_state_def um_find_def um_at_def)
  have "um_find (lock_owners ?s) 131072 = Some ''a[1]''" by (simp add: um_find_def)
  then have "\<not> owners_hold (forget_victim ''a[1]'' [65536] ?s)"
    using forget_victim_owners [OF o, of "''a[1]''" "[65536]"] by auto
  with o show ?thesis by blast
qed

interpretation holds_frame: cache_frame "\<lambda>s. table_inv s \<and> owners_hold s"
  by unfold_locales (simp_all add: table_frame.frame table_frame.cache owners_hold_def)

lemma um_ok_filter: "um_ok m \<Longrightarrow> um_ok (filter P m)"
  by (simp add: um_ok_def um_keys_def distinct_map_fst_filter)

lemma um_find_filter_value:
  assumes "um_ok m"
  shows "um_find (filter (\<lambda>p. snd p \<noteq> n) m) a = (if um_find m a = Some n then None else um_find m a)"
proof -
  have "um_find (filter (\<lambda>p. snd p \<noteq> n) m) a = Some v \<longleftrightarrow> um_find m a = Some v \<and> v \<noteq> n" for v
    using assms um_ok_filter [OF assms] by (auto simp flip: in_set_um_find)
  then show ?thesis by (metis option.exhaust)
qed

lemma table_kill_victim: "table_inv s \<Longrightarrow> table_inv (kill_victim n s)"
  by (auto simp: table_defs kill_victim_def um_find_filter_value um_ok_filter split: if_splits)

lemma kill_victim_keeps: "table_inv s \<and> owners_hold s \<Longrightarrow> table_inv (kill_victim n s) \<and> owners_hold (kill_victim n s)"
  by (auto simp: table_defs owners_hold_def kill_victim_def um_find_filter_value um_ok_filter split: if_splits)

lemma table_emergency: "preserves (\<lambda>s. table_inv s \<and> owners_hold s) (emergency_deadlock_break os d)"
  unfolding emergency_deadlock_break_def
  by (intro keeps preserves_modify holds_frame.calls_keep holds_frame.silent_keeps silent_first_live kill_victim_keeps)

text \<open>\<open>emergency_deadlock_break\<close> keeps the tables well formed and every owner's lock in its owner's
lock set, throws or not: it releases every lock of the thread it kills.\<close>

theorem emergency_keeps_tables:
  assumes "table_inv s" and "owners_hold s"
  shows "table_inv (snd (run_state (emergency_deadlock_break os d) s))
    \<and> owners_hold (snd (run_state (emergency_deadlock_break os d) s))"
  using preservesD [OF table_emergency] assms by blast

lemma initial_tables: "table_inv initial_state" "owners_hold initial_state"
  using initial_invs by (simp_all add: owner_inv_def)

theorem emergency_keeps_tables_witness:
  "table_inv (snd (run_state (emergency_deadlock_break dead_os
       \<lparr>cycle = [''a[1]''], involved_locks = [], detection_time = 0, deadlock_id = 1, resolved = False\<rparr>)
     initial_state))"
  using emergency_keeps_tables [OF initial_tables] by blast

subsection \<open>Tracing again\<close>

text \<open>The calls after which a thread runs: a request to go on or a signal to continue that succeeded, or the
detachment, after which a signal is sent but no longer needed.\<close>

definition lets_run :: "pid \<Rightarrow> event \<Rightarrow> bool" where
  "lets_run tid e \<longleftrightarrow> e = Ptrace PTRACE_SYSCALL tid 0 \<or> e = Ptrace PTRACE_CONT tid 0 \<or> e = Kill tid SIGCONT 0"

definition set_running :: "pid \<Rightarrow> gstate \<Rightarrow> bool" where
  "set_running tid s \<longleftrightarrow> (case trace s of
     [] \<Rightarrow> False
   | e # before \<Rightarrow> lets_run tid e
       \<or> (\<exists>err rest. e = Kill tid SIGCONT err \<and> before = Ptrace (PTRACE_DETACH 0) tid 0 # rest))"

text \<open>\<open>ends_running tid Q m\<close>: a result with \<open>Q\<close> comes straight after such a call.\<close>

definition ends_running :: "pid \<Rightarrow> ('a \<Rightarrow> bool) \<Rightarrow> 'a prog \<Rightarrow> bool" where
  "ends_running tid Q m \<longleftrightarrow> valid (\<lambda>_. True) m (\<lambda>r s. Q r \<longrightarrow> set_running tid s)"

lemma ends_bind: "(\<And>x. ends_running tid Q (f x)) \<Longrightarrow> ends_running tid Q (State_Monad.bind m f)"
  unfolding ends_running_def by (rule valid_bind [where R = "\<lambda>_ _. True"]) (simp_all add: valid_def)

lemma ends_if: "ends_running tid Q m \<Longrightarrow> ends_running tid Q n \<Longrightarrow> ends_running tid Q (if b then m else n)"
  by simp

lemma ends_option: "ends_running tid Q m \<Longrightarrow> (\<And>x. ends_running tid Q (f x)) \<Longrightarrow> ends_running tid Q (case_option m f v)"
  by (cases v) simp_all

lemma ends_ret: "\<not> Q x \<Longrightarrow> ends_running tid Q (ret x)"
  by (simp add: ends_running_def valid_def)

lemma ends_decide:
  assumes "ends_running tid (\<lambda>b. b) m" "ends_running tid Q n"
  shows "ends_running tid Q (do { b \<leftarrow> m; if b then ret r else n })"
  unfolding ends_running_def
proof (rule valid_bind)
  show "valid (\<lambda>_. True) m (\<lambda>b s. b \<longrightarrow> set_running tid s)"
    using assms(1) by (simp add: ends_running_def)
  show "valid (\<lambda>s. b \<longrightarrow> set_running tid s) (if b then ret r else n) (\<lambda>r s. Q r \<longrightarrow> set_running tid s)" for b
    using assms(2) by (simp add: ends_running_def valid_def)
qed

lemma ends_ptrace:
  assumes "r = PTRACE_SYSCALL \<or> r = PTRACE_CONT" "ends_running tid Q n"
  shows "ends_running tid Q (do { err \<leftarrow> ptrace os r tid; if err = 0 then ret x else n })"
  unfolding ends_running_def
proof (rule valid_bind)
  show "valid (\<lambda>_. True) (ptrace os r tid) (\<lambda>err s. err = 0 \<longrightarrow> set_running tid s)"
    using assms(1) by (auto simp: valid_def ptrace_def run_call set_running_def lets_run_def)
  show "valid (\<lambda>s. err = 0 \<longrightarrow> set_running tid s) (if err = 0 then ret x else n) (\<lambda>r s. Q r \<longrightarrow> set_running tid s)" for err
    using assms(2) by (simp add: ends_running_def valid_def)
qed

lemma ends_syscall: "ends_running tid (\<lambda>b. b) (do { err \<leftarrow> ptrace os PTRACE_SYSCALL tid; ret (err = 0) })"
  by (simp add: ends_running_def valid_def ptrace_def run_call set_running_def lets_run_def)

lemma ends_kill:
  assumes "ends_running tid Q n"
  shows "ends_running tid Q (do { k \<leftarrow> kill os tid SIGCONT; if k = 0 then ret x else n })"
  unfolding ends_running_def
proof (rule valid_bind)
  show "valid (\<lambda>_. True) (kill os tid SIGCONT) (\<lambda>k s. k = 0 \<longrightarrow> set_running tid s)"
    by (auto simp: valid_def kill_def run_call set_running_def lets_run_def)
  show "valid (\<lambda>s. k = 0 \<longrightarrow> set_running tid s) (if k = 0 then ret x else n) (\<lambda>r s. Q r \<longrightarrow> set_running tid s)" for k
    using assms by (simp add: ends_running_def valid_def)
qed

lemma ends_detach: "\<not> Q y \<Longrightarrow> ends_running tid Q (do {
    err \<leftarrow> ptrace os (PTRACE_DETACH 0) tid;
    if err = 0 then do { k \<leftarrow> kill os tid SIGCONT; ret x } else ret y })"
  by (auto simp: ends_running_def valid_def ptrace_def kill_def run_call set_running_def)

lemma ends_attempt: "ends_running tid (\<lambda>r. r = Some True) (reattach_attempt os tid)"
  unfolding reattach_attempt_def after_attach_def after_eperm_def
  by (rule ends_syscall ends_decide ends_if ends_ret ends_bind | simp)+

lemma ends_outcome:
  assumes "ends_running tid (\<lambda>r. r = Some True) m" "ends_running tid Q n" "\<not> Q (g False)"
  shows "ends_running tid Q (do { r \<leftarrow> m; case r of Some b \<Rightarrow> ret (g b) | None \<Rightarrow> n })"
  unfolding ends_running_def
proof (rule valid_bind)
  show "valid (\<lambda>_. True) m (\<lambda>r s. r = Some True \<longrightarrow> set_running tid s)"
    using assms(1) by (simp add: ends_running_def)
  show "valid (\<lambda>s. r = Some True \<longrightarrow> set_running tid s)
      (case r of Some b \<Rightarrow> ret (g b) | None \<Rightarrow> n) (\<lambda>r s. Q r \<longrightarrow> set_running tid s)" for r
  proof (cases r)
    case None
    then show ?thesis using assms(2) by (simp add: ends_running_def)
  next
    case (Some b)
    then show ?thesis using assms(3) by (cases b) (simp_all add: valid_def)
  qed
qed

lemma ends_attempts: "ends_running tid (\<lambda>r. r = Some True) (reattach_attempts os m n tid)"
proof (induction n)
  case 0
  then show ?case by (simp add: ends_ret)
next
  case (Suc n)
  show ?case
    unfolding reattach_attempts.simps
    by (rule ends_outcome [where g = Some] ends_attempt ends_bind Suc | simp)+
qed

lemma ends_last_resort: "ends_running tid (\<lambda>b. b) (last_resort os tid)"
  unfolding last_resort_def
  by (rule ends_ptrace ends_kill ends_detach | simp)+

lemma ends_resume_traced: "ends_running tid (\<lambda>b. b) (resume_traced os tid)"
  unfolding resume_traced_def by (rule ends_ptrace ends_ret ends_bind | simp)+

text \<open>C38: When \<open>reattach_and_resume_tracing\<close> returns true, the thread has been set running by the last call:
\<open>PTRACE_SYSCALL\<close>, \<open>PTRACE_CONT\<close> or \<open>SIGCONT\<close> on it has succeeded, or it has been detached from successfully, and
then \<open>SIGCONT\<close> was sent without a look at its result.\<close>

theorem reattach_lets_run:
  assumes "run_state (reattach_and_resume_tracing os n tid) s = (True, s')"
  shows "set_running tid s'"
proof -
  have resumed: "ends_running tid (\<lambda>b. b) (if t = self then resume_traced os tid
      else if t > 0 then do { release_foreign os tid; ret False } else ret False)" for t self
    by (rule ends_if ends_resume_traced ends_bind ends_ret | simp)+
  have "ends_running tid (\<lambda>b. b) (reattach_and_resume_tracing os n tid)"
    unfolding reattach_and_resume_tracing_def
    by (rule ends_if ends_ret ends_decide [OF resumed] ends_outcome [where g = id, unfolded id_apply] ends_attempts ends_last_resort ends_bind | simp)+
  then show ?thesis using assms by (auto simp: ends_running_def dest: valid_run)
qed

definition obedient_os :: os where
  "obedient_os = dead_os\<lparr>os_access := \<lambda>_ _. True, os_ptrace := \<lambda>_ _ _. 0, os_waitpid := \<lambda>_ p _. (p, 0)\<rparr>"

lemma obedient_simps [simp]:
  "os_access obedient_os tr x" "os_ptrace obedient_os tr r p = 0" "os_waitpid obedient_os tr p opts = (p, 0)"
  "os_file obedient_os tr path = None" "os_getpid obedient_os tr = 100"
  by (simp_all add: obedient_os_def dead_os_def)

theorem reattach_lets_run_witness:
  "\<exists>s'. run_state (reattach_and_resume_tracing obedient_os 1 7) initial_state = (True, s') \<and> set_running 7 s'"
proof -
  have "fst (run_state (reattach_and_resume_tracing obedient_os 1 7) initial_state)"
    by (simp add: reattach_and_resume_tracing_def thread_exists_def get_tracer_pid_def is_thread_stopped_def
        getpid_def os_call_defs run_call reattach_attempt_def after_attach_def)
  then obtain s' where r: "run_state (reattach_and_resume_tracing obedient_os 1 7) initial_state = (True, s')"
    by (metis prod.collapse)
  with reattach_lets_run [OF r] show ?thesis by blast
qed

text \<open>\<open>reattach_and_resume_tracing\<close> ends after at most \<open>9 * max_retries + 14\<close> events, so 59
for the five retries of the code; the reading of a whole file is one event.\<close>

theorem reattach_bounded:
  "calls_made (\<lambda>_. True) (snd (run_state (reattach_and_resume_tracing os n tid) s))
     \<le> calls_made (\<lambda>_. True) s + (9 * n + 14)"
proof (rule costsD)
  let ?P = "\<lambda>_::event. True"
  have files: "costs ?P 1 (thread_exists os tid)" "costs ?P 1 (get_tracer_pid os tid)"
      "costs ?P 1 (is_thread_stopped os tid)"
    unfolding thread_exists_def get_tracer_pid_def is_thread_stopped_def
    by (rule costs_weaken, (rule costs_rules call_costs)+, simp)+
  have attempt: "costs ?P 8 (reattach_attempt os tid)"
    unfolding reattach_attempt_def after_attach_def after_eperm_def
    by (rule costs_weaken, (rule costs_rules call_costs files)+, simp)
  have attempts: "costs ?P (9 * k) (reattach_attempts os m k tid)" for m k
  proof (induction k)
    case (Suc k)
    show ?case
      unfolding reattach_attempts.simps
      by (rule costs_weaken, (rule costs_rules call_costs attempt Suc)+, simp)
  qed (simp add: costs_ret)
  show "costs ?P (9 * n + 14) (reattach_and_resume_tracing os n tid)"
    unfolding reattach_and_resume_tracing_def resume_traced_def release_foreign_def last_resort_def
    by (rule costs_weaken, (rule costs_rules call_costs files attempts)+, simp)
qed

subsection \<open>The other steps\<close>

text \<open>\<open>stop_the_world\<close> always returns true and sets its two flags, whether or not a single thread
could be detached; it touches no other variable.\<close>

theorem stop_the_world_effect:
  "fst (run_state (stop_the_world os) s) = True
   \<and> vars (snd (run_state (stop_the_world os) s)) = vars (s\<lparr>monitoring_active := False, world_stopped := True\<rparr>)"
proof -
  let ?Q = "\<lambda>r v'. r = True \<and> v' = (vars s)\<lparr>monitoring_active := False, world_stopped := True\<rparr>"
  have stop: "vars (t\<lparr>world_stopped := True\<rparr>) = (vars t)\<lparr>world_stopped := True\<rparr>" for t
    by (simp add: vars_def)
  have "runs_from (vars s) (stop_the_world os) ?Q"
    unfolding stop_the_world_def
    by (rule runs_modify)
      (auto simp: stop intro!: runs_skip runs_modify runs_ret silent_all)
  then have "?Q (fst (run_state (stop_the_world os) s)) (vars (snd (run_state (stop_the_world os) s)))"
    by (rule runs_fromD) simp
  then show ?thesis by (simp add: vars_def)
qed

lemma set_unique_threads: "set (unique_threads ts) = set ts"
proof -
  have "set (foldl (\<lambda>u t. us_insert t u) u ts) = set u \<union> set ts" for u
    by (induction ts arbitrary: u) auto
  then show ?thesis by (simp add: unique_threads_def)
qed

text \<open>The victim that \<open>choose_victim_thread\<close> returns for a non-empty cycle is one of its threads, and
its thread number can be read; the tables stay as they are.\<close>

theorem choose_victim_in_cycle:
  assumes "cycle d \<noteq> []" and "run_state (choose_victim_thread os d) s = (Inr v, s')"
  shows "v \<in> set (cycle d) \<and> (\<exists>tid. extract_tid_from_identifier v = Inr tid) \<and> vars s' = vars s"
proof -
  have first: "hd (cycle d) \<in> set (cycle d)" using assms(1) by simp
  let ?Q = "\<lambda>r v'. v' = vars s \<and>
      (\<forall>n. r = Inr n \<longrightarrow> n \<in> set (cycle d) \<and> (\<exists>tid. extract_tid_from_identifier n = Inr tid))"
  have pick: "runs_from (vars s) (case extract_tid_from_identifier n of Inl f \<Rightarrow> ret (Inl f)
      | Inr tid \<Rightarrow> ret (Inr n)) ?Q" if "n \<in> set (cycle d)" for n
    using that by (cases "extract_tid_from_identifier n") (simp_all add: runs_ret)
  have "runs_from (vars s) (choose_victim_thread os d) ?Q"
    unfolding choose_victim_thread_def
  proof (rule runs_silent [OF silent_first_live first_live_returns])
    fix found :: "fault + (pid \<times> string) option"
    assume f: "case found of Inl f \<Rightarrow> \<exists>t\<in>set (unique_threads (cycle d)). extract_tid_from_identifier t = Inl f
      | Inr None \<Rightarrow> True | Inr (Some w) \<Rightarrow> names_thread (unique_threads (cycle d)) w"
    show "runs_from (vars s) (case found of Inl f \<Rightarrow> ret (Inl f)
      | Inr w \<Rightarrow> (let best = (case w of None \<Rightarrow> [] | Some (_, thread_name) \<Rightarrow> thread_name);
              best_victim = (if best = [] \<and> cycle d \<noteq> [] then hd (cycle d) else best)
          in case extract_tid_from_identifier best_victim of
               Inl f \<Rightarrow> ret (Inl f)
             | Inr victim \<Rightarrow> ret (Inr best_victim))) ?Q"
    proof (cases found)
      case (Inl e)
      then show ?thesis by (simp add: runs_ret)
    next
      case (Inr w)
      have "(if (case w of None \<Rightarrow> [] | Some (_, n) \<Rightarrow> n) = [] \<and> cycle d \<noteq> [] then hd (cycle d)
          else (case w of None \<Rightarrow> [] | Some (_, n) \<Rightarrow> n)) \<in> set (cycle d)"
        using f first assms(1) Inr
        by (cases w) (auto simp: names_thread_def set_unique_threads)
      from pick [OF this] show ?thesis unfolding Inr Let_def by simp
    qed
  qed
  from runs_fromD [OF this assms(2)] show ?thesis by simp
qed

theorem choose_victim_in_cycle_witness:
  "\<exists>v s'. run_state (choose_victim_thread dead_os sample_deadlock) initial_state = (Inr v, s')
     \<and> v \<in> set (cycle sample_deadlock)"
proof -
  have "fst (run_state (choose_victim_thread dead_os sample_deadlock) initial_state) = Inr ''a[1]''"
    by (simp add: choose_victim_thread_def sample_deadlock_def unique_threads_def us_insert_def sample_ids
        thread_exists_def access_def run_call dead_os_def)
  then obtain s' where r: "run_state (choose_victim_thread dead_os sample_deadlock) initial_state = (Inr ''a[1]'', s')"
    by (metis prod.collapse)
  moreover have "cycle sample_deadlock \<noteq> []" by (simp add: sample_deadlock_def)
  ultimately show ?thesis using choose_victim_in_cycle [OF _ r] by blast
qed

lemma alive_line: "first_line ''State:'' text = Some line \<Longrightarrow> CHR ''S'' \<in> set line"
  by (auto simp: first_line_def find_Some_iff starts_with_def dest!: nth_mem)
    (metis in_set_takeD list.set_intros(1))

lemma cleanup_thread_failed:
  assumes "\<And>tr path content. os_file os tr path = Some content \<Longrightarrow> first_line ''State:'' content \<noteq> None"
  shows "returns (\<lambda>c. snd c = snd counts) (cleanup_thread os tid counts)"
proof -
  have alive: "returns (\<lambda>c. \<forall>text. c = Some text \<longrightarrow> is_alive text) (read_file os path)" for path
    using assms by (force simp: returns_def read_file_def run_call is_alive_def dest: alive_line split: option.splits)
  have last: "returns (\<lambda>c. snd c = snd counts) (do {
      check \<leftarrow> read_file os (status_path tid);
      ret (fst counts + c1 + c2 + c3,
           snd counts + (case check of None \<Rightarrow> 0 | Some now \<Rightarrow> if is_alive now then 0 else 1)) })" for c1 c2 c3
    by (rule returns_step [OF alive]) (auto intro!: returns_ret split: option.splits)
  show ?thesis
    unfolding cleanup_thread_def
    by (rule returns_bind returns_if returns_option returns_prod last | simp add: returns_ret)+
qed

text \<open>On a system whose status files have a \<open>State:\<close> line, the clean-up never counts a thread as
failed: the check looks for an \<open>S\<close> in the whole line, and \<open>State:\<close> has one, so even a dead or a
zombie thread passes for responsive.\<close>

theorem cleanup_never_fails:
  assumes "\<And>tr path content. os_file os tr path = Some content \<Longrightarrow> first_line ''State:'' content \<noteq> None"
  shows "snd (fst (run_state (cleanup_stuck_threads os tids) s)) = 0"
proof -
  have "returns (\<lambda>c. snd c = snd counts) (for_acc tids counts (cleanup_thread os))" for counts
  proof (induction tids arbitrary: counts)
    case (Cons t ts)
    show ?case
      unfolding for_acc.simps
      by (rule returns_step [OF cleanup_thread_failed [OF assms]])
        (use Cons in \<open>auto simp: returns_def\<close>)
  qed (simp add: returns_ret)
  from returnsD [OF this [of "(0, 0)"], of s] show ?thesis by (simp add: cleanup_stuck_threads_def)
qed

theorem cleanup_never_fails_witness:
  "snd (fst (run_state (cleanup_stuck_threads (dead_os\<lparr>os_access := \<lambda>_ _. True,
     os_file := \<lambda>_ _. Some ''State: X''\<rparr>) [7, 8]) initial_state)) = 0"
proof (rule cleanup_never_fails)
  have "first_line ''State:'' ''State: X'' = Some ''State: X''" by code_simp
  then show "os_file (dead_os\<lparr>os_access := \<lambda>_ _. True, os_file := \<lambda>_ _. Some ''State: X''\<rparr>) tr path = Some content
      \<Longrightarrow> first_line ''State:'' content \<noteq> None" for tr path content
    by (auto simp: dead_os_def)
qed

text \<open>The clean-up of the parent releases those of the given locks whose owner's name contains the
victim's number, and no other lock.\<close>

theorem release_matching_find:
  "um_find (release_matching tid ls m) a =
     (if a \<in> set ls \<and> (\<exists>owner. um_find m a = Some owner \<and> str_contains (to_string tid) owner)
      then None else um_find m a)"
  by (induction ls arbitrary: m) (auto simp: release_matching_def split: option.splits)

text \<open>So the clean-up for thread 1 takes the lock of thread 12 away.\<close>

lemma release_matching_overreach:
  "um_find (release_matching 1 [65536] [(65536, ''worker[12]'')]) 65536 = None"
  by (simp add: release_matching_def small_numbers um_find_def um_erase_def)

end
