(* ===== verification/Group_Resolution.thy ===== *)
theory Group_Resolution
  imports Strategy1
begin

text \<open>
  \<open>resolve_group_deadlock\<close> of \<open>detection.cpp\<close>: detach from every thread, write 0 into every
  held lock, send \<open>SIGCONT\<close> in twenty rounds, and leave a guardian process behind. The guardian's
  loop ends only with the target, so it takes the number of rounds it may run; \<open>None\<close> says that it
  is still in its loop then. What the guardian closes and writes for its own sake is kept as events.
\<close>

subsection \<open>Detaching\<close>

fun nuclear_detach :: "os \<Rightarrow> nat \<Rightarrow> pid \<Rightarrow> bool prog" where
  "nuclear_detach os 0 tid = ret False"
| "nuclear_detach os (Suc left) tid = do {
     err \<leftarrow> ptrace os (PTRACE_DETACH 0) tid;
     if err = 0 then ret True
     else do {
       err2 \<leftarrow> ptrace os PTRACE_ATTACH tid;
       detached \<leftarrow> (if err2 = 0 then do {
           status \<leftarrow> waitpid os tid 0x40000000;
           err3 \<leftarrow> ptrace os (PTRACE_DETACH 0) tid;
           ret (err3 = 0) }
         else ret False);
       if detached then ret True
       else do { k \<leftarrow> kill os tid SIGCONT; usleep 50000; nuclear_detach os left tid }
     }
   }"

definition traced_by_us :: "os \<Rightarrow> pid \<Rightarrow> pid \<Rightarrow> bool prog" where
  "traced_by_us os target tid = do {
     content \<leftarrow> read_file os (''/proc/'' @ to_string target @ ''/task/'' @ to_string tid @ ''/status'');
     self \<leftarrow> getpid os;
     ret (case content of None \<Rightarrow> False
          | Some now \<Rightarrow> (case first_line ''TracerPid:'' now of None \<Rightarrow> False
              | Some line \<Rightarrow> atoi (drop 10 line) = self))
   }"

definition still_traced :: "os \<Rightarrow> pid \<Rightarrow> pid list \<Rightarrow> pid list prog" where
  "still_traced os target tids = for_acc tids [] (\<lambda>tid found. do {
     ours \<leftarrow> traced_by_us os target tid;
     ret (if ours then found @ [tid] else found)
   })"

text \<open>The C program that is written, compiled and started when some threads are still traced.\<close>

definition newline :: string where
  "newline = [CHR 0x0A]"

definition helper_source :: "pid \<Rightarrow> pid list \<Rightarrow> string" where
  "helper_source target tids =
     ''#include <stdio.h>'' @ newline @ ''#include <sys/ptrace.h>'' @ newline @ ''#include <signal.h>'' @ newline
     @ ''int main() {'' @ newline @ ''  printf('' @ [CHR 0x22] @ ''PTRACE HELPER running'' @ [CHR 0x5C] @ ''n'' @ [CHR 0x22] @ '');'' @ newline
     @ concat (map (\<lambda>tid. ''  ptrace(PTRACE_DETACH, '' @ to_string tid @ '', 0, nullptr);'' @ newline
         @ ''  kill('' @ to_string tid @ '', SIGCONT);'' @ newline) tids)
     @ ''  kill('' @ to_string target @ '', SIGCONT);'' @ newline
     @ ''  kill(-'' @ to_string target @ '', SIGCONT);'' @ newline
     @ ''  printf('' @ [CHR 0x22] @ ''Done'' @ [CHR 0x5C] @ ''n'' @ [CHR 0x22] @ '');'' @ newline
     @ ''  return 0;'' @ newline @ ''}'' @ newline"

definition run_helper :: "os \<Rightarrow> pid \<Rightarrow> pid list \<Rightarrow> unit prog" where
  "run_helper os target traced =
     (if traced = [] then ret ()
      else do {
        written \<leftarrow> write_file os ''/tmp/ptrace_helper.c'' (helper_source target traced);
        if written then do {
          emit (System ''gcc -o /tmp/ptrace_helper /tmp/ptrace_helper.c 2>/dev/null'');
          emit (System ''/tmp/ptrace_helper &'')
        } else ret ()
      })"

subsection \<open>Unlocking and waking\<close>

definition all_held_locks :: "GroupDeadlockInfo \<Rightarrow> addr uset" where
  "all_held_locks gd = fold (\<lambda>r locks. fold us_insert (held_locks r) locks) (group_resolutions gd) []"

definition unlock_all :: "os \<Rightarrow> pid \<Rightarrow> addr list \<Rightarrow> unit prog" where
  "unlock_all os target locks = do {
     opened \<leftarrow> open_rw os (mem_path target);
     if opened then for_each locks (\<lambda>lock_addr. do { w \<leftarrow> pwrite os (mem_path target) lock_addr 0; ret () })
     else ret ()
   }"

definition wake_round :: "os \<Rightarrow> pid \<Rightarrow> pid list \<Rightarrow> unit prog" where
  "wake_round os target tids = do {
     k \<leftarrow> kill os target SIGCONT;
     k2 \<leftarrow> kill os (- target) SIGCONT;
     for_each tids (\<lambda>tid. do { k3 \<leftarrow> kill os tid SIGCONT; ret () });
     usleep 50000
   }"

subsection \<open>The guardian\<close>

definition proc_path :: "pid \<Rightarrow> string" where
  "proc_path target = ''/proc/'' @ to_string target"

fun guardian_loop :: "os \<Rightarrow> nat \<Rightarrow> pid \<Rightarrow> bool option prog" where
  "guardian_loop os 0 target = ret None"
| "guardian_loop os (Suc rounds) target = do {
     there \<leftarrow> access os (proc_path target);
     if \<not> there then do { emit (Unlink ''/tmp/deadlock_guardian.pid''); ret (Some True) }
     else do {
       k \<leftarrow> kill os target SIGCONT;
       k2 \<leftarrow> kill os (- target) SIGCONT;
       usleep 5000000;
       guardian_loop os rounds target
     }
   }"

definition guardian :: "os \<Rightarrow> nat \<Rightarrow> pid \<Rightarrow> bool option prog" where
  "guardian os rounds target = do {
     emit Setsid;
     emit (Close 0); emit (Close 1); emit (Close 2);
     self \<leftarrow> getpid os;
     written \<leftarrow> write_file os ''/tmp/deadlock_guardian.pid'' (to_string self @ newline);
     guardian_loop os rounds target
   }"

definition resolve_group_deadlock :: "os \<Rightarrow> nat \<Rightarrow> GroupDeadlockInfo \<Rightarrow> bool option prog" where
  "resolve_group_deadlock os rounds gd = do {
     target \<leftarrow> gets target_pid;
     all_tids \<leftarrow> list_threads os target;
     for_each all_tids (\<lambda>tid. do { detached \<leftarrow> nuclear_detach os 3 tid; ret () });
     usleep 1000000;
     traced \<leftarrow> still_traced os target all_tids;
     run_helper os target traced;
     set_active False;
     unlock_all os target (all_held_locks gd);
     for_each [0..<20] (\<lambda>_. wake_round os target all_tids);
     child \<leftarrow> fork os;
     if child = 0 then guardian os rounds target
     else do { there \<leftarrow> access os (proc_path target); ret (Some True) }
   }"

subsection \<open>The effect\<close>

lemma silent_nuclear_detach: "silent (nuclear_detach os n tid)"
  by (induction n) (simp_all add: silent_rules)

lemma silent_guardian: "silent (guardian os n target)"
proof -
  have "silent (guardian_loop os n target)"
    by (induction n) (simp_all add: silent_rules)
  then show ?thesis unfolding guardian_def by (simp add: silent_rules)
qed

lemma silent_group_steps:
  "silent (still_traced os target tids)" "silent (run_helper os target traced)"
  "silent (unlock_all os target locks)" "silent (wake_round os target tids)"
  unfolding still_traced_def traced_by_us_def run_helper_def unlock_all_def wake_round_def
  by (rule silent_rules)+

lemmas silent_group = silent_quiet silent_nuclear_detach silent_guardian silent_group_steps

lemma guardian_returns: "returns (\<lambda>r. r = None \<or> r = Some True) (guardian os n target)"
proof -
  have "returns (\<lambda>r. r = None \<or> r = Some True) (guardian_loop os n target)"
    by (induction n) (auto intro!: returns_rules returns_ret)
  then show ?thesis unfolding guardian_def by (intro returns_bind)
qed

lemma resolve_group_runs:
  assumes "vars v = v"
  shows "runs_from v (resolve_group_deadlock os n gd)
    (\<lambda>r v'. (r = None \<or> r = Some True) \<and> v' = v\<lparr>monitoring_active := False\<rparr>)"
proof -
  let ?Q = "\<lambda>r v'. (r = None \<or> r = Some True) \<and> v' = v\<lparr>monitoring_active := False\<rparr>"
  have child: "runs_from (v\<lparr>monitoring_active := False\<rparr>) (guardian os n target) ?Q" for target
    by (rule runs_last [OF silent_guardian guardian_returns]) simp
  have unlocking: "runs_from (v\<lparr>monitoring_active := False\<rparr>) (do {
      unlock_all os target locks;
      for_each [0..<20::nat] (\<lambda>_. wake_round os target tids);
      child \<leftarrow> fork os;
      if child = 0 then guardian os n target
      else do { there \<leftarrow> access os (proc_path target); ret (Some True) } }) ?Q" for target locks tids
    using child by (auto intro!: runs_skip runs_ret silent_group)
  show ?thesis
    unfolding resolve_group_deadlock_def
    by (rule unlocking runs_set_active [OF _ assms] runs_skip silent_group)+
qed

lemma group_effect_run:
  "fst (run_state (resolve_group_deadlock os n gd) s) \<noteq> Some False
   \<and> vars (snd (run_state (resolve_group_deadlock os n gd) s)) = vars (s\<lparr>monitoring_active := False\<rparr>)"
proof -
  have "let r = run_state (resolve_group_deadlock os n gd) s
    in (fst r = None \<or> fst r = Some True) \<and> vars (snd r) = (vars s)\<lparr>monitoring_active := False\<rparr>"
    unfolding Let_def by (rule runs_fromD [OF resolve_group_runs]) simp_all
  then show ?thesis by (auto simp: Let_def)
qed

text \<open>C30: \<open>resolve_group_deadlock\<close> never reports failure and never switches the monitoring on again: in
every run, of the parent as of the guardian, the only variable that has changed is
\<open>monitoring_active\<close>, which is false, and the tables still hold the deadlock.\<close>

theorem group_resolution_effect:
  "fst (run_state (resolve_group_deadlock os n gd) s) \<noteq> Some False
   \<and> vars (snd (run_state (resolve_group_deadlock os n gd) s)) = vars (s\<lparr>monitoring_active := False\<rparr>)"
  by (rule group_effect_run)

subsection \<open>The guardian ends with the target\<close>

text \<open>More rounds change nothing once the loop has ended.\<close>

lemma guardian_enough:
  "fst (run_state (guardian_loop os n target) s) = Some b \<Longrightarrow>
     run_state (guardian_loop os (n + k) target) s = run_state (guardian_loop os n target) s"
  by (induction n arbitrary: s) (auto simp: os_call_defs run_call)

text \<open>From some length of the trace on the target is gone.\<close>

definition target_ends :: "os \<Rightarrow> pid \<Rightarrow> nat \<Rightarrow> bool" where
  "target_ends os target k \<longleftrightarrow> (\<forall>tr. k \<le> length tr \<longrightarrow> \<not> os_access os tr (proc_path target))"

lemma guardian_loop_ends:
  "target_ends os target k \<Longrightarrow> k \<le> length (trace s) + 4 * n \<Longrightarrow>
     fst (run_state (guardian_loop os (Suc n) target) s) = Some True"
proof (induction n arbitrary: s)
  case 0
  then show ?case by (simp add: os_call_defs run_call target_ends_def)
next
  case (Suc n)
  show ?case
  proof (cases "os_access os (trace s) (proc_path target)")
    case False
    then show ?thesis by (simp add: os_call_defs run_call)
  next
    case True
    define s' where "s' = snd (run_state (do {
       there \<leftarrow> access os (proc_path target);
       k \<leftarrow> kill os target SIGCONT;
       k2 \<leftarrow> kill os (- target) SIGCONT;
       usleep 5000000 }) s)"
    have "k \<le> length (trace s') + 4 * n" using Suc.prems(2) by (simp add: s'_def os_call_defs run_call)
    from Suc.IH [OF Suc.prems(1) this] True show ?thesis
      by (simp add: s'_def os_call_defs run_call)
  qed
qed

lemma guardian_ends:
  assumes "target_ends os target k"
  shows "returns (\<lambda>r. r = Some True) (guardian os (Suc k) target)"
proof -
  have "returns (\<lambda>r. r = Some True) (guardian_loop os (Suc k) target)"
    unfolding returns_def using guardian_loop_ends [OF assms] by auto
  then show ?thesis unfolding guardian_def by (intro returns_bind)
qed

text \<open>\<open>resolve_group_deadlock\<close> returns true in the monitor at once, and in the guardian as soon as the
target is gone: when its \<open>/proc\<close> entry is missing after \<open>k\<close> calls, \<open>k + 1\<close> rounds are enough.\<close>

theorem group_resolution_returns:
  assumes "target_ends os (target_pid s) k"
  shows "fst (run_state (resolve_group_deadlock os (Suc k) gd) s) = Some True"
proof -
  have "returns (\<lambda>r. r = Some True) (if child = 0 then guardian os (Suc k) (target_pid s)
      else do { there \<leftarrow> access os (proc_path (target_pid s)); ret (Some True) })" for child
    by (rule returns_if guardian_ends [OF assms] returns_bind returns_ret | simp)+
  then have rest: "returns (\<lambda>r. r = Some True) (do {
      all_tids \<leftarrow> list_threads os (target_pid s);
      for_each all_tids (\<lambda>tid. do { detached \<leftarrow> nuclear_detach os 3 tid; ret () });
      usleep 1000000;
      traced \<leftarrow> still_traced os (target_pid s) all_tids;
      run_helper os (target_pid s) traced;
      set_active False;
      unlock_all os (target_pid s) (all_held_locks gd);
      for_each [0..<20::nat] (\<lambda>_. wake_round os (target_pid s) all_tids);
      child \<leftarrow> fork os;
      if child = 0 then guardian os (Suc k) (target_pid s)
      else do { there \<leftarrow> access os (proc_path (target_pid s)); ret (Some True) } })"
    by (intro returns_bind)
  show ?thesis
    using returnsD [OF rest, of s] by (simp add: resolve_group_deadlock_def)
qed

theorem group_resolution_returns_witness:
  "fst (run_state (resolve_group_deadlock dead_os 1
     \<lparr>group_cycle = [0, 1], thread_cycle = [], group_involved_locks = [], group_resolutions = []\<rparr>) initial_state) = Some True"
  using group_resolution_returns [of dead_os initial_state 0] by (simp add: target_ends_def dead_os_def)

end
