(* ===== verification/Detection.thy ===== *)
theory Detection
  imports Wait_Graph Involved_Locks Group_Detection Group_Resolution
begin

text \<open>
  \<open>detect_and_resolve_deadlocks\<close> of \<open>detection.cpp\<close>: the detection by groups, and the search over
  the wait-for graph with the resolution of each new cycle. The loop runs over the nodes of
  \<open>waits_for\<close> while its body may erase them. A node that was erased before the iterator reaches it
  is skipped; when the body erases the node that the iterator stands on, advancing it is undefined
  behaviour, the fault \<open>Iterator_invalidated\<close>, which no handler can catch.
\<close>

datatype verdict =
    Done                \<comment> \<open>the function returns\<close>
  | Raised fault        \<comment> \<open>an exception leaves it, or undefined behaviour\<close>
  | Process_exit int    \<comment> \<open>the shadow process ends\<close>
  | Guarding            \<comment> \<open>the guardian process is still in its loop\<close>

subsection \<open>Reporting one cycle\<close>

text \<open>\<open>resolve_deadlock_strategy1\<close>, and the emergency break when it returns false; the flag says whether
the deadlock counts as resolved.\<close>

definition try_resolve :: "os \<Rightarrow> DeadlockInfo \<Rightarrow> (verdict + bool) prog" where
  "try_resolve os deadlock = do {
     r \<leftarrow> resolve_deadlock_strategy1 os deadlock;
     case r of
       Threw f \<Rightarrow> ret (Inl (Raised f))
     | Exited c \<Rightarrow> ret (Inl (Process_exit c))
     | Returned b \<Rightarrow>
         if b then ret (Inr True)
         else do {
           e \<leftarrow> emergency_deadlock_break os deadlock;
           case e of Inl f \<Rightarrow> ret (Inl (Raised f)) | Inr broken \<Rightarrow> ret (Inr broken)
         }
   }"

definition report_cycle :: "os \<Rightarrow> string list \<Rightarrow> verdict prog" where
  "report_cycle os cyc = do {
     known \<leftarrow> gets (\<lambda>s. \<exists>existing\<in>set (detected_deadlocks s). cycle existing = cyc);
     if length cyc < 2 \<or> known then ret Done
     else do {
       modify (\<lambda>s. s\<lparr>deadlock_counter := deadlock_counter s + 1\<rparr>);
       locks \<leftarrow> gets (\<lambda>s. find_locks_in_deadlock s cyc);
       now \<leftarrow> system_clock_now os;
       number \<leftarrow> gets deadlock_counter;
       (let deadlock = \<lparr>cycle = cyc, involved_locks = locks, detection_time = now,
                        deadlock_id = number, resolved = False\<rparr>
        in do {
          r \<leftarrow> try_resolve os deadlock;
          case r of
            Inl v \<Rightarrow> ret v
          | Inr b \<Rightarrow> do {
              modify (\<lambda>s. s\<lparr>detected_deadlocks := detected_deadlocks s @ [deadlock\<lparr>resolved := b\<rparr>]\<rparr>);
              ret Done
            }
        })
     }
   }"

subsection \<open>The loop over the waiting threads\<close>

fun scan_threads :: "os \<Rightarrow> string list \<Rightarrow> string set \<Rightarrow> string set \<Rightarrow> verdict prog" where
  "scan_threads os [] visited stack = ret Done"
| "scan_threads os (thread_name # rest) visited stack = do {
     graph \<leftarrow> gets waits_for;
     if \<not> um_count graph thread_name \<or> thread_name \<in> visited
     then scan_threads os rest visited stack
     else (case dfs_deadlock graph thread_name visited stack [] of
       (found, visited', stack', cyc) \<Rightarrow>
         if \<not> found then scan_threads os rest visited' stack'
         else do {
           v \<leftarrow> report_cycle os (rev cyc);
           here \<leftarrow> gets (\<lambda>s. um_count (waits_for s) thread_name);
           if v \<noteq> Done then ret v
           else if \<not> here then ret (Raised Iterator_invalidated)
           else scan_threads os rest visited' stack'
         })
   }"

text \<open>The number of the group deadlock is not stored; the printed report is left out.\<close>

definition resolve_by_groups :: "os \<Rightarrow> nat \<Rightarrow> GroupDeadlockInfo \<Rightarrow> verdict option prog" where
  "resolve_by_groups os rounds info =
     (if length (group_cycle info) \<ge> 2 then do {
        modify (\<lambda>s. s\<lparr>deadlock_counter := deadlock_counter s + 1\<rparr>);
        r \<leftarrow> resolve_group_deadlock os rounds info;
        ret (case r of None \<Rightarrow> Some Guarding | Some b \<Rightarrow> if b then Some Done else None)
      } else ret None)"

definition detect_and_resolve_deadlocks :: "os \<Rightarrow> nat \<Rightarrow> verdict prog" where
  "detect_and_resolve_deadlocks os rounds = do {
     active \<leftarrow> gets monitoring_active;
     if \<not> active then ret Done
     else do {
       now \<leftarrow> system_clock_now os;
       group_deadlock \<leftarrow> gets detect_group_deadlock;
       case group_deadlock of
         Inl f \<Rightarrow> ret (Raised f)
       | Inr info \<Rightarrow> do {
           r \<leftarrow> resolve_by_groups os rounds info;
           case r of
             Some v \<Rightarrow> ret v
           | None \<Rightarrow> do {
               keys \<leftarrow> gets (\<lambda>s. um_keys (waits_for s));
               scan_threads os keys {} {}
             }
         }
     }
   }"

subsection \<open>The contract of a resolution\<close>

text \<open>What an invariant of the variables must allow, so that every resolution keeps it: forgetting or
killing a victim, the monitoring flag and the counter. \<open>detection_frame\<close> adds the record of a new
cycle, and then the whole detection keeps the invariant.\<close>

locale resolution_frame = cache_frame I for I +
  assumes active: "I (s\<lparr>monitoring_active := b\<rparr>) = I s"
    and counter: "I (s\<lparr>deadlock_counter := c\<rparr>) = I s"
    and forget: "I s \<Longrightarrow> I (forget_victim name ls s)"
    and victim_killed: "I s \<Longrightarrow> I (kill_victim name s)"
begin

lemma of_vars: "I (vars s) = I s"
  by (simp add: vars_def frame)

lemma resolve_keeps [keeps]: "preserves I (resolve_deadlock_strategy1 os d)"
proof (rule preservesI)
  fix s assume "I s"
  then have "I (vars s)" by (simp add: of_vars)
  then have "I (vars (snd (run_state (resolve_deadlock_strategy1 os d) s)))"
    using resolve_effect_run [of d s os]
    by (auto simp: resolution_effect_def active split: outcome.splits if_splits intro!: forget)
  then show "I (snd (run_state (resolve_deadlock_strategy1 os d) s))" by (simp add: of_vars)
qed

lemma emergency_keeps [keeps]: "preserves I (emergency_deadlock_break os d)"
  unfolding emergency_deadlock_break_def
  by (intro keeps preserves_modify calls_keep silent_keeps silent_first_live victim_killed)

lemma try_resolve_keeps [keeps]: "preserves I (try_resolve os d)"
proof -
  have "preserves I (case r of Threw f \<Rightarrow> ret (Inl (Raised f)) | Exited c \<Rightarrow> ret (Inl (Process_exit c))
     | Returned b \<Rightarrow> if b then ret (Inr True) else do {
         e \<leftarrow> emergency_deadlock_break os d;
         case e of Inl f \<Rightarrow> ret (Inl (Raised f)) | Inr broken \<Rightarrow> ret (Inr broken) })" for r
    by (cases r) (simp_all add: keeps)
  then show ?thesis unfolding try_resolve_def by (intro preserves_bind resolve_keeps)
qed

lemma resolve_group_keeps [keeps]: "preserves I (resolve_group_deadlock os n gd)"
proof (rule preservesI)
  fix s assume "I s"
  then have "I (vars (s\<lparr>monitoring_active := False\<rparr>))" by (simp add: of_vars active)
  then have "I (vars (snd (run_state (resolve_group_deadlock os n gd) s)))"
    using group_effect_run [of os n gd s] by simp
  then show "I (snd (run_state (resolve_group_deadlock os n gd) s))" by (simp add: of_vars)
qed

lemma resolve_by_groups_keeps [keeps]: "preserves I (resolve_by_groups os n info)"
  unfolding resolve_by_groups_def by (intro keeps preserves_modify) (simp add: counter)

end

locale detection_frame = resolution_frame I for I +
  assumes recorded: "I s \<Longrightarrow> \<forall>e\<in>set (detected_deadlocks s). cycle e \<noteq> cycle d \<Longrightarrow>
    I (s\<lparr>detected_deadlocks := detected_deadlocks s @ [d]\<rparr>)"

sublocale detection_frame \<subseteq> unrecorded: resolution_frame "\<lambda>s. I s \<and> detected_deadlocks s = ds" for ds
  by unfold_locales
    (simp_all add: frame cache active counter forget victim_killed forget_victim_def [THEN arg_cong [where f = detected_deadlocks]]
      kill_victim_def [THEN arg_cong [where f = detected_deadlocks]])

text \<open>A run of \<open>report_cycle\<close>: a cycle that is known is dropped, a new one is counted, resolved and
recorded.\<close>

definition already_known :: "string list \<Rightarrow> gstate \<Rightarrow> bool" where
  "already_known cyc s \<longleftrightarrow> length cyc < 2 \<or> (\<exists>e\<in>set (detected_deadlocks s). cycle e = cyc)"

definition counted :: "os \<Rightarrow> gstate \<Rightarrow> gstate" where
  "counted os s = s\<lparr>deadlock_counter := deadlock_counter s + 1,
     trace := System_clock (os_system_clock os (trace s)) # trace s\<rparr>"

definition new_deadlock :: "os \<Rightarrow> string list \<Rightarrow> gstate \<Rightarrow> DeadlockInfo" where
  "new_deadlock os cyc s = \<lparr>cycle = cyc, involved_locks = find_locks_in_deadlock s cyc,
     detection_time = os_system_clock os (trace s), deadlock_id = deadlock_counter s + 1, resolved = False\<rparr>"

lemma find_locks_counter [simp]:
  "find_locks_in_deadlock (s\<lparr>deadlock_counter := c\<rparr>) = find_locks_in_deadlock s"
  by (intro ext) (simp add: find_locks_in_deadlock_def locks_between_def)

lemma report_cycle_known: "already_known cyc s \<Longrightarrow> run_state (report_cycle os cyc) s = (Done, s)"
  by (auto simp: report_cycle_def already_known_def)

lemma report_cycle_new:
  assumes "\<not> already_known cyc s"
    and "run_state (try_resolve os (new_deadlock os cyc s)) (counted os s) = (r, s2)"
  shows "run_state (report_cycle os cyc) s = (case r of Inl v \<Rightarrow> (v, s2)
    | Inr b \<Rightarrow> (Done, s2\<lparr>detected_deadlocks := detected_deadlocks s2 @ [(new_deadlock os cyc s)\<lparr>resolved := b\<rparr>]\<rparr>))"
  using assms
  by (simp add: report_cycle_def already_known_def os_call_defs run_call counted_def new_deadlock_def
      split: sum.split)

context detection_frame
begin

lemma report_cycle_keeps [keeps]: "preserves I (report_cycle os cyc)"
proof (rule preservesI)
  fix s assume I: "I s"
  show "I (snd (run_state (report_cycle os cyc) s))"
  proof (cases "already_known cyc s")
    case True
    then show ?thesis using I by (simp add: report_cycle_known)
  next
    case False
    obtain r s2 where t: "run_state (try_resolve os (new_deadlock os cyc s)) (counted os s) = (r, s2)"
      by (metis prod.collapse)
    have "I (counted os s) \<and> detected_deadlocks (counted os s) = detected_deadlocks s"
      using I by (simp add: counted_def frame counter)
    then have s2: "I s2 \<and> detected_deadlocks s2 = detected_deadlocks s"
      using preservesD [OF unrecorded.try_resolve_keeps, of "counted os s"] t by (metis snd_conv)
    have "I (s2\<lparr>detected_deadlocks := detected_deadlocks s2 @ [(new_deadlock os cyc s)\<lparr>resolved := b\<rparr>]\<rparr>)" for b
      using s2 False by (intro recorded) (auto simp: new_deadlock_def already_known_def)
    with s2 show ?thesis unfolding report_cycle_new [OF False t] by (cases r) simp_all
  qed
qed

lemma scan_threads_keeps: "preserves I (scan_threads os ts V S)"
proof (induction ts arbitrary: V S)
  case (Cons t ts)
  show ?case
    unfolding scan_threads.simps by (intro keeps Cons)
qed (simp add: keeps)

lemma detect_keeps [keeps]: "preserves I (detect_and_resolve_deadlocks os n)"
  unfolding detect_and_resolve_deadlocks_def
  by (intro keeps calls_keep scan_threads_keeps)

end

interpretation table_detection: detection_frame table_inv
  by unfold_locales (erule table_forget_victim table_kill_victim | simp add: table_defs)+

text \<open>No cycle is recorded twice.\<close>

definition distinct_cycles :: "gstate \<Rightarrow> bool" where
  "distinct_cycles s \<longleftrightarrow> distinct (map cycle (detected_deadlocks s))"

interpretation cycles_detection: detection_frame distinct_cycles
  by unfold_locales (auto simp: distinct_cycles_def forget_victim_def kill_victim_def)

interpretation target_detection: detection_frame "\<lambda>s. target_pid s = p" for p
  by unfold_locales (simp_all add: forget_victim_def kill_victim_def)

text \<open>C5: Detection and resolution, however they end, keep the tables well formed and never record the
same cycle twice.\<close>

theorem detect_keeps_tables:
  assumes "table_inv s" and "distinct_cycles s"
  shows "table_inv (snd (run_state (detect_and_resolve_deadlocks os n) s))
    \<and> distinct_cycles (snd (run_state (detect_and_resolve_deadlocks os n) s))"
  using assms preservesD [OF table_detection.detect_keeps] preservesD [OF cycles_detection.detect_keeps]
  by blast

theorem detect_keeps_tables_witness:
  "table_inv (snd (run_state (detect_and_resolve_deadlocks dead_os 1) deadlocked_pair))"
proof -
  have "distinct_cycles deadlocked_pair"
    by (simp add: distinct_cycles_def deadlocked_pair_def initial_state_def)
  from detect_keeps_tables [OF deadlocked_pair_tables this] show ?thesis by blast
qed

text \<open>While \<open>monitoring_active\<close> is false, detection does nothing at all.\<close>

theorem detect_when_inactive:
  assumes "\<not> monitoring_active s"
  shows "run_state (detect_and_resolve_deadlocks os n) s = (Done, s)"
  using assms by (simp add: detect_and_resolve_deadlocks_def)

theorem detect_when_inactive_witness:
  "run_state (detect_and_resolve_deadlocks dead_os 1) (deadlocked_pair\<lparr>monitoring_active := False\<rparr>)
    = (Done, deadlocked_pair\<lparr>monitoring_active := False\<rparr>)"
  by (rule detect_when_inactive) simp

text \<open>The detection by groups reads three tables only.\<close>

lemma detect_group_trace [simp]: "detect_group_deadlock (s\<lparr>trace := t\<rparr>) = detect_group_deadlock s"
proof -
  have l: "add_thread_locks (s\<lparr>trace := t\<rparr>) = add_thread_locks s"
    by (intro ext) (simp add: add_thread_locks_def)
  have "populate_group (s\<lparr>trace := t\<rparr>) = populate_group s"
    by (intro ext) (simp add: populate_group_def l)
  then have a: "analyze_conflict_groups (s\<lparr>trace := t\<rparr>) = analyze_conflict_groups s"
    by (simp add: analyze_conflict_groups_def group_threads_def)
  have "pick_thread (s\<lparr>trace := t\<rparr>) = pick_thread s" by (intro ext) (simp add: pick_thread_def)
  then have "expand_group_cycle_to_threads (s\<lparr>trace := t\<rparr>) = expand_group_cycle_to_threads s"
    by (intro ext) (simp add: expand_group_cycle_to_threads_def a)
  moreover have "find_group_cycles (s\<lparr>trace := t\<rparr>) = find_group_cycles s"
    by (simp add: find_group_cycles_def group_wait_graph_def a)
  ultimately show ?thesis by (auto simp: detect_group_deadlock_def Let_def a)
qed

lemma group_detection_run:
  assumes "monitoring_active s" and "detect_group_deadlock s = Inr info" and "2 \<le> length (group_cycle info)"
    and "run_state (detect_and_resolve_deadlocks os n) s = (v, s')"
  shows "(v = Done \<or> v = Guarding) \<and> \<not> monitoring_active s' \<and> waits_for s' = waits_for s"
proof -
  define s1 where "s1 = s\<lparr>trace := System_clock (os_system_clock os (trace s)) # trace s,
    deadlock_counter := deadlock_counter s + 1\<rparr>"
  obtain r t where g: "run_state (resolve_group_deadlock os n info) s1 = (r, t)" by (metis prod.collapse)
  have e: "vars t = vars (s1\<lparr>monitoring_active := False\<rparr>)" and "r \<noteq> Some False"
    using group_effect_run [of os n info s1] g by simp_all
  have "monitoring_active t = False" "waits_for t = waits_for s"
    using arg_cong [OF e, of monitoring_active] arg_cong [OF e, of waits_for] by (simp_all add: s1_def)
  moreover have "(v, s') = (case r of None \<Rightarrow> Guarding | Some b \<Rightarrow> Done, t)"
    using assms g \<open>r \<noteq> Some False\<close>
    by (auto simp: detect_and_resolve_deadlocks_def os_call_defs run_call resolve_by_groups_def s1_def
        split: option.splits if_splits)
  ultimately show ?thesis by (auto split: option.splits)
qed

text \<open>C23: A group deadlock ends all detection: its resolution reports success and leaves
\<open>monitoring_active\<close> false, with the deadlocked threads still in the tables.\<close>

theorem group_deadlock_ends_detection:
  assumes "monitoring_active s" and "detect_group_deadlock s = Inr info" and "2 \<le> length (group_cycle info)"
    and "run_state (detect_and_resolve_deadlocks os n) s = (v, s')"
  shows "(v = Done \<or> v = Guarding) \<and> \<not> monitoring_active s' \<and> waits_for s' = waits_for s"
  by (rule group_detection_run [OF assms])

theorem group_deadlock_ends_detection_witness:
  "\<exists>v s'. run_state (detect_and_resolve_deadlocks dead_os 1) deadlocked_pair = (v, s') \<and> \<not> monitoring_active s'"
proof -
  obtain info where i: "detect_group_deadlock deadlocked_pair = Inr info" "2 \<le> length (group_cycle info)"
    by (rule deadlocked_pair_detect)
  obtain v s' where r: "run_state (detect_and_resolve_deadlocks dead_os 1) deadlocked_pair = (v, s')"
    by (metis prod.collapse)
  have "monitoring_active deadlocked_pair" by (simp add: deadlocked_pair_def initial_state_def)
  from group_deadlock_ends_detection [OF this i r] r show ?thesis by blast
qed

subsection \<open>What the search over the threads finds\<close>

text \<open>Up to its first hit the search changes nothing; it is then in the situation that \<open>dfs_decides\<close>
describes. Without a hit every thread with waits is settled.\<close>

lemma scan_until_hit:
  assumes "settled (waits_of s) V"
  shows "(\<exists>W. settled (waits_of s) W \<and> V \<subseteq> W \<and> (\<forall>t\<in>set ts. um_count (waits_for s) t \<longrightarrow> t \<in> W)
      \<and> run_state (scan_threads os ts V {}) s = (Done, s))
    \<or> (\<exists>t rest W V' S' cyc. settled (waits_of s) W \<and> t \<notin> W
      \<and> dfs_deadlock (waits_for s) t W {} [] = (True, V', S', cyc)
      \<and> run_state (scan_threads os ts V {}) s = run_state (do {
          v \<leftarrow> report_cycle os (rev cyc);
          here \<leftarrow> gets (\<lambda>s. um_count (waits_for s) t);
          if v \<noteq> Done then ret v
          else if \<not> here then ret (Raised Iterator_invalidated)
          else scan_threads os rest V' S' }) s)"
  using assms
proof (induction ts arbitrary: V)
  case Nil
  then show ?case by auto
next
  case (Cons t ts)
  show ?case
  proof (cases "\<not> um_count (waits_for s) t \<or> t \<in> V")
    case True
    then have "run_state (scan_threads os (t # ts) V {}) s = run_state (scan_threads os ts V {}) s" by simp
    with Cons.IH [OF Cons.prems] True show ?thesis by auto
  next
    case False
    obtain f V' S' c where d: "dfs_deadlock (waits_for s) t V {} [] = (f, V', S', c)" by (metis prod.collapse)
    show ?thesis
    proof (cases f)
      case True
      with d have hit: "dfs_deadlock (waits_for s) t V {} [] = (True, V', S', c)" by simp
      then have "run_state (scan_threads os (t # ts) V {}) s = run_state (do {
          v \<leftarrow> report_cycle os (rev c);
          here \<leftarrow> gets (\<lambda>s. um_count (waits_for s) t);
          if v \<noteq> Done then ret v
          else if \<not> here then ret (Raised Iterator_invalidated)
          else scan_threads os ts V' S' }) s" using False by simp
      with hit False Cons.prems show ?thesis by blast
    next
      case False': False
      with d False Cons.prems have "settled (waits_of s) V'" "t \<in> V'" "S' = {}" "V \<subseteq> V'"
        using dfs_settled(1) [of "waits_for s" t V "{}" "[]" V' S' c] dfs_fail(1) [of "waits_for s" t V "{}" "[]" V' S' c]
          dfs_visited_grows(1) [of V "waits_for s" t "{}" "[]"] by auto
      then have "\<And>W. V' \<subseteq> W \<Longrightarrow> V \<subseteq> W \<and> t \<in> W" by blast
      moreover have e: "run_state (scan_threads os (t # ts) V {}) s = run_state (scan_threads os ts V' {}) s"
        using False False' d \<open>S' = {}\<close> by simp
      ultimately show ?thesis
        unfolding e set_simps ball_simps using Cons.IH [OF \<open>settled (waits_of s) V'\<close>] by blast
    qed
  qed
qed

text \<open>Without a cycle of groups the detection is this search.\<close>

lemma detect_by_threads:
  assumes "monitoring_active s" "find_group_cycles s = []"
  shows "run_state (detect_and_resolve_deadlocks os n) s = run_state (scan_threads os (um_keys (waits_for s)) {} {})
    (s\<lparr>trace := System_clock (os_system_clock os (trace s)) # trace s\<rparr>)"
proof -
  have "detect_group_deadlock s = Inr no_group_deadlock" using assms(2) by (simp add: detect_group_deadlock_def)
  then show ?thesis
    using assms(1)
    by (simp add: detect_and_resolve_deadlocks_def os_call_defs run_call no_group_deadlock_def resolve_by_groups_def)
qed

lemma no_cycle_run:
  assumes "monitoring_active s" and "find_group_cycles s = []" and "acyclic (edges (waits_of s))"
  shows "run_state (detect_and_resolve_deadlocks os n) s
    = (Done, s\<lparr>trace := System_clock (os_system_clock os (trace s)) # trace s\<rparr>)"
proof -
  let ?s = "s\<lparr>trace := System_clock (os_system_clock os (trace s)) # trace s\<rparr>"
  have "\<not> fst (dfs_deadlock (waits_for s) t W {} [])" if "settled (waits_of s) W" "t \<notin> W" for t W
    using dfs_decides [OF that] assms(3) by (auto simp: acyclic_def)
  then have "run_state (scan_threads os (um_keys (waits_for s)) {} {}) ?s = (Done, ?s)"
    using scan_until_hit [of ?s "{}" "um_keys (waits_for s)" os] by force
  then show ?thesis using detect_by_threads [OF assms(1,2)] by simp
qed

text \<open>C10: When neither the groups nor the threads have a cycle, detection reports nothing and changes no
variable.\<close>

theorem no_false_alarm:
  assumes "monitoring_active s" and "find_group_cycles s = []" and "acyclic (edges (waits_of s))"
  shows "fst (run_state (detect_and_resolve_deadlocks os n) s) = Done
    \<and> vars (snd (run_state (detect_and_resolve_deadlocks os n) s)) = vars s"
  by (simp add: no_cycle_run [OF assms] vars_def)

theorem no_false_alarm_witness:
  "fst (run_state (detect_and_resolve_deadlocks dead_os 1) initial_state) = Done"
proof -
  have "find_group_cycles initial_state = []" by code_simp
  moreover have "acyclic (edges (waits_of initial_state))"
    by (simp add: edges_def initial_state_def um_at_def acyclic_def)
  moreover have "monitoring_active initial_state" by (simp add: initial_state_def)
  ultimately show ?thesis using no_false_alarm by blast
qed

interpretation recorded_detection: detection_frame "\<lambda>s. detected_deadlocks s \<noteq> []"
  by unfold_locales (simp_all add: forget_victim_def kill_victim_def)

lemma try_resolve_abnormal: "returns (\<lambda>r. r \<noteq> Inl Done) (try_resolve os d)"
proof -
  have "returns (\<lambda>r. r \<noteq> Inl Done) (case r of Threw f \<Rightarrow> ret (Inl (Raised f)) | Exited c \<Rightarrow> ret (Inl (Process_exit c))
     | Returned b \<Rightarrow> if b then ret (Inr True) else do {
         e \<leftarrow> emergency_deadlock_break os d;
         case e of Inl f \<Rightarrow> ret (Inl (Raised f)) | Inr broken \<Rightarrow> ret (Inr broken) })" for r
    by (cases r) (auto intro!: returns_rules returns_ret)
  then show ?thesis unfolding try_resolve_def by (intro returns_bind)
qed

lemma report_cycle_records:
  assumes "\<not> already_known cyc s"
  shows "fst (run_state (report_cycle os cyc) s) \<noteq> Done
    \<or> detected_deadlocks (snd (run_state (report_cycle os cyc) s)) \<noteq> []"
proof -
  obtain r s2 where t: "run_state (try_resolve os (new_deadlock os cyc s)) (counted os s) = (r, s2)"
    by (metis prod.collapse)
  then have "r \<noteq> Inl Done" using returnsD [OF try_resolve_abnormal] by (metis fst_conv)
  then show ?thesis unfolding report_cycle_new [OF assms t] by (cases r) auto
qed

text \<open>A first cycle among the threads is reported, unless the groups have one.\<close>

lemma first_cycle_reported:
  assumes "monitoring_active s" and "find_group_cycles s = []" and "\<not> acyclic (edges (waits_of s))"
    and "detected_deadlocks s = []"
  obtains t rest V S cyc where
    "\<not> already_known cyc (s\<lparr>trace := System_clock (os_system_clock os (trace s)) # trace s\<rparr>)"
    "\<forall>u\<in>set cyc. waits_of s u \<noteq> []"
    "run_state (detect_and_resolve_deadlocks os n) s = run_state (do {
       v \<leftarrow> report_cycle os cyc;
       here \<leftarrow> gets (\<lambda>s. um_count (waits_for s) t);
       if v \<noteq> Done then ret v
       else if \<not> here then ret (Raised Iterator_invalidated)
       else scan_threads os rest V S }) (s\<lparr>trace := System_clock (os_system_clock os (trace s)) # trace s\<rparr>)"
proof -
  define s1 where "s1 = s\<lparr>trace := System_clock (os_system_clock os (trace s)) # trace s\<rparr>"
  have all: "\<not> (\<forall>t\<in>set (um_keys (waits_for s)). um_count (waits_for s) t \<longrightarrow> t \<in> W)" if "settled (waits_of s) W" for W
  proof
    assume "\<forall>t\<in>set (um_keys (waits_for s)). um_count (waits_for s) t \<longrightarrow> t \<in> W"
    then have "u \<in> W" if "waits_of s u \<noteq> []" for u
      using that by (auto simp: um_keys_find um_count_def um_at_def split: option.splits)
    with \<open>settled (waits_of s) W\<close> assms(3) show False by (blast intro: adj.acyclic_if_covered)
  qed
  have waits_s1: "waits_for s1 = waits_for s" by (simp add: s1_def)
  obtain t rest W V' S' c where h: "dfs_deadlock (waits_for s1) t W {} [] = (True, V', S', c)"
    and r: "run_state (scan_threads os (um_keys (waits_for s)) {} {}) s1 = run_state (do {
          v \<leftarrow> report_cycle os (rev c);
          here \<leftarrow> gets (\<lambda>s. um_count (waits_for s) t);
          if v \<noteq> Done then ret v
          else if \<not> here then ret (Raised Iterator_invalidated)
          else scan_threads os rest V' S' }) s1"
    using scan_until_hit [of s1 "{}" "um_keys (waits_for s)" os, OF settled_empty] all
    unfolding waits_s1 by blast
  note walk = dfs_found_walk [OF h]
  have "\<not> already_known (rev c) s1" using walk(2) assms(4) by (simp add: already_known_def s1_def)
  moreover have "\<forall>u\<in>set (rev c). waits_of s u \<noteq> []"
  proof
    fix u assume "u \<in> set (rev c)"
    with walk(2,4) have "u \<in> set (butlast (rev c))" by (cases "rev c" rule: rev_cases) auto
    with walk(3) show "waits_of s u \<noteq> []" unfolding waits_s1 by (rule walk_butlast)
  qed
  ultimately show thesis
    using that [of "rev c" t rest V' S'] detect_by_threads [OF assms(1,2)] r unfolding s1_def by simp
qed


text \<open>C9: When the threads have a cycle, the groups have none and nothing has been recorded before,
detection does not stay silent: it records a deadlock or ends abnormally.\<close>

theorem deadlock_is_detected:
  assumes "monitoring_active s" and "find_group_cycles s = []" and "\<not> acyclic (edges (waits_of s))"
    and "detected_deadlocks s = []"
  shows "fst (run_state (detect_and_resolve_deadlocks os n) s) \<noteq> Done
    \<or> detected_deadlocks (snd (run_state (detect_and_resolve_deadlocks os n) s)) \<noteq> []"
proof -
  let ?s1 = "s\<lparr>trace := System_clock (os_system_clock os (trace s)) # trace s\<rparr>"
  obtain t rest V S cyc where new: "\<not> already_known cyc ?s1"
    and run: "run_state (detect_and_resolve_deadlocks os n) s = run_state (do {
       v \<leftarrow> report_cycle os cyc;
       here \<leftarrow> gets (\<lambda>s. um_count (waits_for s) t);
       if v \<noteq> Done then ret v
       else if \<not> here then ret (Raised Iterator_invalidated)
       else scan_threads os rest V S }) ?s1"
    by (rule first_cycle_reported [OF assms])
  from report_cycle_records [OF new, of os] obtain v s2
    where v: "run_state (report_cycle os cyc) ?s1 = (v, s2)" "v \<noteq> Done \<or> detected_deadlocks s2 \<noteq> []"
    by (metis prod.collapse)
  have "detected_deadlocks (snd (run_state (scan_threads os rest V S) s2)) \<noteq> []" if "detected_deadlocks s2 \<noteq> []"
    using that preservesD [OF recorded_detection.scan_threads_keeps] by blast
  then show ?thesis unfolding run using v by auto
qed

text \<open>Two deadlocked threads whose lock sets share a lock, so that they are one group.\<close>

definition deadlocked_group :: gstate where
  "deadlocked_group = deadlocked_pair\<lparr>
     thread_locks := [(''b[2]'', [0x30000, 0x20000]), (''a[1]'', [0x30000, 0x10000])]\<rparr>"

lemma deadlocked_group_cycle: "find_group_cycles deadlocked_group = []"
proof -
  have "analyze_conflict_groups deadlocked_group = [\<lparr>group_id = 0, threads = [''a[1]'', ''b[2]''],
      locks_held = [0x20000, 0x10000, 0x30000], locks_wanted = [0x10000, 0x20000], conflicting_groups = []\<rparr>]"
    by code_simp
  then have "group_wait_graph deadlocked_group = []"
    by (simp add: group_wait_graph_def add_group_edges_def group_of_def deadlocked_group_def deadlocked_pair_def
        initial_state_def size_max_def)
  then show ?thesis by (simp add: find_group_cycles_def collect_group_cycles_def um_keys_def)
qed

lemma deadlocked_group_edges: "(''a[1]'', ''b[2]'') \<in> edges (waits_of deadlocked_group)"
    "(''b[2]'', ''a[1]'') \<in> edges (waits_of deadlocked_group)"
  by (simp_all add: edges_def deadlocked_group_def deadlocked_pair_def um_at_def um_find_def)

lemma deadlocked_group_cyclic: "(''b[2]'', ''b[2]'') \<in> (edges (waits_of deadlocked_group))\<^sup>+"
  using deadlocked_group_edges by (meson trancl.r_into_trancl trancl_trans)

lemma deadlocked_group_start: "monitoring_active deadlocked_group" "detected_deadlocks deadlocked_group = []"
  by (simp_all add: deadlocked_group_def deadlocked_pair_def initial_state_def)

theorem deadlock_is_detected_witness:
  "fst (run_state (detect_and_resolve_deadlocks dead_os 1) deadlocked_group) \<in> - {Done}
    \<or> 0 < length (detected_deadlocks (snd (run_state (detect_and_resolve_deadlocks dead_os 1) deadlocked_group)))"
  using deadlock_is_detected [OF deadlocked_group_start(1) deadlocked_group_cycle _ deadlocked_group_start(2)]
    deadlocked_group_cyclic by (auto simp: acyclic_def)

subsection \<open>Resolving the thread at the iterator\<close>

definition lives_and_forks :: "os \<Rightarrow> pid \<Rightarrow> bool" where
  "lives_and_forks os tid \<longleftrightarrow> (\<forall>tr. os_access os tr (status_path tid)) \<and> (\<forall>tr. os_fork os tr > 0)
     \<and> (\<forall>tr p opts. fst (os_waitpid os tr p opts) \<noteq> - 1)"

lemma resolve_head_runs:
  assumes "extract_tid_from_identifier t = Inr tid" "tid \<noteq> 0" "lives_and_forks os tid" "cycle d = t # ts" "vars v = v"
  shows "runs_from v (resolve_deadlock_strategy1 os d)
    (\<lambda>r v'. r = Returned True \<and> waits_for v' = um_erase t (waits_for v))"
proof -
  let ?Q = "\<lambda>r v'. r = Returned True \<and> waits_for v' = um_erase t (waits_for v)"
  have first: "returns (\<lambda>r. r = Inr (Some (tid, t))) (first_live os (cycle d))"
    using assms by (simp add: returns_def thread_exists_def access_def run_call lives_and_forks_def)
  have forked: "returns (\<lambda>p. 0 < p) (fork os)" and waited: "returns (\<lambda>w. fst w \<noteq> - 1) (waitpid os p opts)" for p opts
    using assms(3) by (simp_all add: returns_def fork_def waitpid_def run_call lives_and_forks_def)
  have clean: "runs_from (v\<lparr>monitoring_active := False\<rparr>) (do {
      modify (forget_victim t (involved_locks d)); usleep 50000; set_active True; ret (Returned True) }) ?Q"
    using assms(5)
    by (intro runs_modify runs_skip runs_set_active runs_ret silent_calls) (simp_all add: forget_victim_def vars_def)
  have parent: "runs_from (v\<lparr>monitoring_active := False\<rparr>)
      (after_shadow os tid t (involved_locks d) tids shadow) ?Q" for tids shadow
    unfolding after_shadow_def
    by (rule runs_silent [OF _ waited]) (use clean in \<open>auto intro!: runs_skip silent_all\<close>)
  have "runs_from (v\<lparr>monitoring_active := False\<rparr>) (break_with_victim os d (tid, t)) ?Q"
    unfolding break_with_victim_def prod.case using assms(2) parent
    by (auto intro!: runs_skip silent_all runs_silent [OF _ forked])
  then show ?thesis
    unfolding resolve_deadlock_strategy1_def
    by (intro runs_set_active assms(5) runs_silent [OF silent_first_live first]) simp
qed

text \<open>The first waiting thread of the iteration order is on its way into a cycle, which is then the first one
reported, and begins with this thread.\<close>

lemma first_root_reported:
  assumes "monitoring_active s" and "find_group_cycles s = []" and "detected_deadlocks s = []"
    and "waits_for s = (t, ws) # rest"
    and "(t, u) \<in> (edges (waits_of s))\<^sup>*" and "(u, u) \<in> (edges (waits_of s))\<^sup>+"
  obtains ts V S where
    "\<not> already_known (t # ts) (s\<lparr>trace := System_clock (os_system_clock os (trace s)) # trace s\<rparr>)"
    "run_state (detect_and_resolve_deadlocks os n) s = run_state (do {
       v \<leftarrow> report_cycle os (t # ts);
       here \<leftarrow> gets (\<lambda>s. um_count (waits_for s) t);
       if v \<noteq> Done then ret v
       else if \<not> here then ret (Raised Iterator_invalidated)
       else scan_threads os (map fst rest) V S }) (s\<lparr>trace := System_clock (os_system_clock os (trace s)) # trace s\<rparr>)"
proof -
  define s1 where "s1 = s\<lparr>trace := System_clock (os_system_clock os (trace s)) # trace s\<rparr>"
  have s1: "waits_for s1 = waits_for s" "detected_deadlocks s1 = []" using assms(3) by (simp_all add: s1_def)
  obtain V S c where d: "dfs_deadlock (waits_for s) t {} {} [] = (True, V, S, c)"
    using dfs_decides [of "waits_for s" "{}" t "[]"] assms(5,6) by (metis (full_types) empty_iff prod.collapse settled_empty)
  note f = dfs_found_walk [OF d]
  then obtain ts where c: "rev c = t # ts" by (cases "rev c") auto
  have new: "\<not> already_known (rev c) s1" using f(2) by (simp add: already_known_def s1)
  have keys: "um_keys (waits_for s) = t # map fst rest" and found: "um_find (waits_for s) t = Some ws"
    using assms(4) by (simp_all add: um_keys_def um_find_def)
  have "run_state (detect_and_resolve_deadlocks os n) s = run_state (do {
       v \<leftarrow> report_cycle os (t # ts);
       here \<leftarrow> gets (\<lambda>s. um_count (waits_for s) t);
       if v \<noteq> Done then ret v
       else if \<not> here then ret (Raised Iterator_invalidated)
       else scan_threads os (map fst rest) V S }) s1"
    unfolding detect_by_threads [OF assms(1,2)] s1_def [symmetric]
    using d by (simp add: s1 um_count_def keys found c)
  with new show thesis by (intro that) (simp_all add: c s1_def)
qed

text \<open>C25: When the first waiting thread of the iteration order is on its way into a cycle, alive, and is
resolved successfully, it is itself the victim: its node is erased while the loop stands on it, and
the loop goes on with an invalid iterator.\<close>

theorem resolving_the_root_is_undefined:
  assumes "monitoring_active s" and "find_group_cycles s = []" and "detected_deadlocks s = []"
    and "waits_for s = (t, ws) # rest"
    and "(t, u) \<in> (edges (waits_of s))\<^sup>*" and "(u, u) \<in> (edges (waits_of s))\<^sup>+"
    and "extract_tid_from_identifier t = Inr tid" and "tid \<noteq> 0" and "lives_and_forks os tid"
  shows "fst (run_state (detect_and_resolve_deadlocks os n) s) = Raised Iterator_invalidated"
proof -
  let ?s1 = "s\<lparr>trace := System_clock (os_system_clock os (trace s)) # trace s\<rparr>"
  obtain ts V S where new: "\<not> already_known (t # ts) ?s1"
    and run: "run_state (detect_and_resolve_deadlocks os n) s = run_state (do {
       v \<leftarrow> report_cycle os (t # ts);
       here \<leftarrow> gets (\<lambda>s. um_count (waits_for s) t);
       if v \<noteq> Done then ret v
       else if \<not> here then ret (Raised Iterator_invalidated)
       else scan_threads os (map fst rest) V S }) ?s1"
    by (rule first_root_reported [OF assms(1-6)])
  let ?d = "new_deadlock os (t # ts) ?s1" and ?s = "counted os ?s1"
  obtain r s2 where r: "run_state (resolve_deadlock_strategy1 os ?d) ?s = (r, s2)" by (metis prod.collapse)
  have "runs_from (vars ?s) (resolve_deadlock_strategy1 os ?d)
      (\<lambda>r v'. r = Returned True \<and> waits_for v' = um_erase t (waits_for (vars ?s)))"
    by (rule resolve_head_runs [OF assms(7-9)]) (simp_all add: new_deadlock_def)
  from runs_fromD [OF this r] have r': "r = Returned True" and w: "waits_for s2 = um_erase t (waits_for s)"
    by (simp_all add: counted_def)
  then have "run_state (try_resolve os ?d) ?s = (Inr True, s2)" by (simp add: try_resolve_def r)
  from report_cycle_new [OF new this] show ?thesis unfolding run by (simp add: w um_count_def)
qed

theorem resolving_the_root_is_undefined_witness:
  "fst (run_state (detect_and_resolve_deadlocks (dead_os\<lparr>os_access := \<lambda>_ _. True, os_fork := \<lambda>_. 50,
     os_waitpid := \<lambda>_ p _. (1, 0)\<rparr>) 1) deadlocked_group) = Raised Iterator_invalidated"
proof (rule resolving_the_root_is_undefined [OF deadlocked_group_start(1) deadlocked_group_cycle deadlocked_group_start(2)
      _ rtrancl_refl deadlocked_group_cyclic sample_ids(2)])
  show "waits_for deadlocked_group = (''b[2]'', [''a[1]'']) # [(''a[1]'', [''b[2]''])]"
    by (simp add: deadlocked_group_def deadlocked_pair_def)
qed (simp_all add: lives_and_forks_def)

text \<open>C26: When monitoring is on, the groups have no cycle, no deadlock has been recorded yet, and the first waiting thread
of the iteration order leads into a cycle of waits and has an identifier without a readable number, then the exception
of \<open>stoi\<close> or \<open>substr\<close> ends the detection, and leaves \<open>monitoring_active\<close> false.\<close>

theorem unreadable_name_disables_detection:
  assumes "monitoring_active s" and "find_group_cycles s = []" and "detected_deadlocks s = []"
    and "waits_for s = (t, ws) # rest"
    and "(t, u) \<in> (edges (waits_of s))\<^sup>*" and "(u, u) \<in> (edges (waits_of s))\<^sup>+"
    and "extract_tid_from_identifier t = Inl f"
  shows "fst (run_state (detect_and_resolve_deadlocks os n) s) = Raised f
    \<and> \<not> monitoring_active (snd (run_state (detect_and_resolve_deadlocks os n) s))"
proof -
  let ?s1 = "s\<lparr>trace := System_clock (os_system_clock os (trace s)) # trace s\<rparr>"
  obtain ts V S where new: "\<not> already_known (t # ts) ?s1"
    and run: "run_state (detect_and_resolve_deadlocks os n) s = run_state (do {
       v \<leftarrow> report_cycle os (t # ts);
       here \<leftarrow> gets (\<lambda>s. um_count (waits_for s) t);
       if v \<noteq> Done then ret v
       else if \<not> here then ret (Raised Iterator_invalidated)
       else scan_threads os (map fst rest) V S }) ?s1"
    by (rule first_root_reported [OF assms(1-6)])
  let ?s = "counted os ?s1"
  have "run_state (try_resolve os (new_deadlock os (t # ts) ?s1)) ?s
      = (Inl (Raised f), ?s\<lparr>monitoring_active := False\<rparr>)"
    using assms(7) by (simp add: try_resolve_def resolve_deadlock_strategy1_def set_active_def new_deadlock_def)
  from report_cycle_new [OF new this] show ?thesis unfolding run by simp
qed

definition bracketed_group :: gstate where
  "bracketed_group = initial_state\<lparr>
     lock_owners := [(0x20000, ''b[2]''), (0x10000, ''p[io][1]'')],
     thread_locks := [(''b[2]'', [0x30000, 0x20000]), (''p[io][1]'', [0x30000, 0x10000])],
     waits_for := [(''p[io][1]'', [''b[2]'']), (''b[2]'', [''p[io][1]''])],
     futex_waiters := [(0x10000, [''b[2]'']), (0x20000, [''p[io][1]''])]\<rparr>"

lemma bracketed_group_cycle: "find_group_cycles bracketed_group = []"
proof -
  have "analyze_conflict_groups bracketed_group = [\<lparr>group_id = 0, threads = [''p[io][1]'', ''b[2]''],
      locks_held = [0x20000, 0x10000, 0x30000], locks_wanted = [0x10000, 0x20000], conflicting_groups = []\<rparr>]"
    by code_simp
  then have "group_wait_graph bracketed_group = []"
    by (simp add: group_wait_graph_def add_group_edges_def group_of_def bracketed_group_def
        initial_state_def size_max_def)
  then show ?thesis by (simp add: find_group_cycles_def collect_group_cycles_def um_keys_def)
qed

theorem unreadable_name_disables_detection_witness:
  "fst (run_state (detect_and_resolve_deadlocks dead_os 1) bracketed_group) = Raised Invalid_argument"
proof -
  let ?s = bracketed_group
  have "(''p[io][1]'', ''b[2]'') \<in> edges (waits_of ?s)" "(''b[2]'', ''p[io][1]'') \<in> edges (waits_of ?s)"
    by (simp_all add: edges_def bracketed_group_def um_at_def um_find_def)
  then have c: "(''p[io][1]'', ''p[io][1]'') \<in> (edges (waits_of ?s))\<^sup>+" by (meson trancl.r_into_trancl trancl_trans)
  have "extract_tid_from_identifier (''p'' @ ''['' @ ''io'' @ '']'' @ ''[1]'') = stoi ''io''"
    by (rule extract_tid_between) simp_all
  moreover have "stoi ''io'' = Inl Invalid_argument" by code_simp
  ultimately have bad: "extract_tid_from_identifier ''p[io][1]'' = Inl Invalid_argument" by simp
  have w: "waits_for ?s = (''p[io][1]'', [''b[2]'']) # [(''b[2]'', [''p[io][1]''])]" "monitoring_active ?s"
    "detected_deadlocks ?s = []" by (simp_all add: bracketed_group_def initial_state_def)
  from unreadable_name_disables_detection [OF w(2) bracketed_group_cycle w(3,1) rtrancl_refl c bad] show ?thesis by blast
qed

end
