(* ===== verification/Trace_Growth.thy ===== *)
theory Trace_Growth
  imports Detection
begin

text \<open>
  Whatever the program does, it only adds calls to the trace. With the fact that every round of the event
  loop makes a call, this is what ends the loop after a signal.
\<close>

lemma grows_set_active: "grows (set_active b)"
  unfolding set_active_def by (rule grows_steps) simp

lemma grows_identifier: "grows (get_thread_identifier os tid)"
  unfolding get_thread_identifier_def get_thread_name_def Let_def
  by ((rule grows_rules | simp)+)

lemma grows_handle_syscall: "grows (handle_syscall os tid)"
  unfolding handle_syscall_def Let_def on_wait_def on_wake_def on_lock_def update_lock_stats_def
  by ((rule grows_rules grows_identifier
    | simp add: lock_update_def stats_update_def wait_edge_def refresh_waiters_def Let_def split: option.split)+)

lemma grows_resolve: "grows (resolve_deadlock_strategy1 os d)"
proof -
  have "grows (after_shadow os victim name locks tids shadow)" for victim name locks tids shadow
    unfolding after_shadow_def
    by ((rule grows_rules grows_set_active silent_grows [OF silent_cleanup_stuck] silent_threads [THEN silent_grows]
      | simp add: forget_victim_def)+)
  note parent = this
  have "grows (break_with_victim os d v)" for v
    unfolding break_with_victim_def
    by (rule grows_rules grows_set_active silent_threads [THEN silent_grows] silent_helpers [THEN silent_grows] parent)+
  note victim = this
  show ?thesis
    unfolding resolve_deadlock_strategy1_def
    by (rule grows_rules grows_set_active silent_grows [OF silent_first_live] victim)+
qed

lemma grows_emergency: "grows (emergency_deadlock_break os d)"
  unfolding emergency_deadlock_break_def
  by ((rule grows_rules grows_identifier silent_grows [OF silent_first_live] | simp add: kill_victim_def)+)

lemma grows_try_resolve: "grows (try_resolve os d)"
proof -
  have "grows (case r of Threw f \<Rightarrow> ret (Inl (Raised f)) | Exited c \<Rightarrow> ret (Inl (Process_exit c))
     | Returned b \<Rightarrow> if b then ret (Inr True) else do {
         e \<leftarrow> emergency_deadlock_break os d;
         case e of Inl f \<Rightarrow> ret (Inl (Raised f)) | Inr broken \<Rightarrow> ret (Inr broken) })" for r
    by (cases r) (simp_all add: grows_rules grows_emergency)
  then show ?thesis unfolding try_resolve_def by (intro grows_bind grows_resolve)
qed

lemma grows_report: "grows (report_cycle os cyc)"
  unfolding report_cycle_def Let_def
  by ((rule grows_rules grows_try_resolve | simp)+)

lemma grows_scan: "grows (scan_threads os ts V S)"
proof (induction ts arbitrary: V S)
  case (Cons t ts)
  show ?case unfolding scan_threads.simps by ((rule grows_rules grows_report Cons)+)
qed (simp add: grows_steps)

lemma grows_group: "grows (resolve_group_deadlock os n gd)"
  unfolding resolve_group_deadlock_def
  by ((rule grows_rules grows_set_active silent_group [THEN silent_grows])+)

lemma grows_detect: "grows (detect_and_resolve_deadlocks os n)"
proof -
  have "grows (resolve_by_groups os n info)" for info
    unfolding resolve_by_groups_def by ((rule grows_rules grows_group | simp)+)
  note groups = this
  show ?thesis
    unfolding detect_and_resolve_deadlocks_def by (rule grows_rules grows_scan groups)+
qed

end
