(* ===== verification/Main_Loop.thy ===== *)
theory Main_Loop
  imports Trace_Growth
begin

text \<open>
  \<open>main.cpp\<close>: attaching to the threads of the target, the event loop and the clean shutdown. Each round of
  the loop waits for one event without blocking. The signal handler sets \<open>should_exit\<close> at any time: the
  loop's test of it is \<open>interrupted\<close>. The loop has fuel, one unit per round, and gives \<open>None\<close> while it
  still runs. The process's \<open>step\<close> relation adds to the rounds the freedom of the library to keep its
  hash containers in any order, and its reachable states keep the tables well formed.
\<close>

definition tid_alive :: "os \<Rightarrow> pid \<Rightarrow> bool prog" where
  "tid_alive os tid = do { r \<leftarrow> kill os tid 0; ret (r = 0) }"

text \<open>\<open>catch (...)\<close> stops every exception; undefined behaviour is not one.\<close>

definition catch_all :: "verdict \<Rightarrow> verdict" where
  "catch_all v = (case v of Raised f \<Rightarrow> if f = Iterator_invalidated then v else Done | _ \<Rightarrow> v)"

definition handle_event :: "os \<Rightarrow> nat \<Rightarrow> pid \<Rightarrow> verdict prog" where
  "handle_event os rounds tid = do {
     alive \<leftarrow> tid_alive os tid;
     if \<not> alive then ret Done
     else do {
       handle_syscall os tid;
       v \<leftarrow> detect_and_resolve_deadlocks os rounds;
       ret (catch_all v)
     }
   }"

definition resume_tid :: "os \<Rightarrow> pid \<Rightarrow> unit prog" where
  "resume_tid os tid = do {
     alive \<leftarrow> tid_alive os tid;
     if \<not> alive then ret ()
     else do {
       r \<leftarrow> ptrace os PTRACE_SYSCALL tid;
       if r \<noteq> 0 then do { c \<leftarrow> ptrace os PTRACE_CONT tid; ret () } else ret ()
     }
   }"

text \<open>\<open>PTRACE_O_TRACESYSGOOD | PTRACE_O_EXITKILL\<close>, and \<open>__WALL\<close> with and without \<open>WNOHANG\<close>.\<close>

abbreviation trace_options :: nat where "trace_options \<equiv> 0x100001"
abbreviation WALL :: int where "WALL \<equiv> 0x40000000"
abbreviation WALL_WNOHANG :: int where "WALL_WNOHANG \<equiv> 0x40000001"

definition attach_thread :: "os \<Rightarrow> pid \<Rightarrow> unit prog" where
  "attach_thread os tid = do {
     alive \<leftarrow> tid_alive os tid;
     if \<not> alive then ret ()
     else do {
       r \<leftarrow> ptrace os PTRACE_ATTACH tid;
       if r = 0 then do {
         w \<leftarrow> waitpid os tid WALL;
         o1 \<leftarrow> ptrace os (PTRACE_SETOPTIONS trace_options) tid;
         o2 \<leftarrow> ptrace os PTRACE_SYSCALL tid;
         ret ()
       } else ret ()
     }
   }"

definition attach_all_threads :: "os \<Rightarrow> pid \<Rightarrow> unit prog" where
  "attach_all_threads os pid = do { tids \<leftarrow> list_threads os pid; for_each tids (attach_thread os) }"

definition if_alive :: "os \<Rightarrow> ptrace_request \<Rightarrow> pid \<Rightarrow> unit prog" where
  "if_alive os request tid = do {
     alive \<leftarrow> tid_alive os tid;
     if alive then do { r \<leftarrow> ptrace os request tid; ret () } else ret ()
   }"

definition shutdown_clean :: "os \<Rightarrow> pid \<Rightarrow> unit prog" where
  "shutdown_clean os pid = do {
     modify (\<lambda>s. s\<lparr>is_resolving := True\<rparr>);
     tids \<leftarrow> list_threads os pid;
     for_each tids (if_alive os PTRACE_INTERRUPT);
     usleep 50000;
     for_each tids (if_alive os (PTRACE_DETACH 0))
   }"

subsection \<open>The event loop\<close>

text \<open>The macros of \<open>sys/wait.h\<close> on a status word.\<close>

definition WIFEXITED :: "int \<Rightarrow> bool" where
  "WIFEXITED status \<longleftrightarrow> status mod 128 = 0"

definition WIFSIGNALED :: "int \<Rightarrow> bool" where
  "WIFSIGNALED status \<longleftrightarrow> status mod 128 \<noteq> 0 \<and> status mod 128 \<noteq> 127"

definition syscall_stop :: "int \<Rightarrow> bool" where
  "syscall_stop status \<longleftrightarrow> status div 256 = 133"

definition main_round :: "os \<Rightarrow> nat \<Rightarrow> verdict prog" where
  "main_round os rounds = do {
     (tid, status) \<leftarrow> waitpid os (- 1) WALL_WNOHANG;
     if tid \<le> 0 then do { usleep 1000; ret Done }
     else do {
       alive \<leftarrow> tid_alive os tid;
       if \<not> alive then ret Done
       else if WIFEXITED status \<or> WIFSIGNALED status then ret Done
       else do {
         resolving \<leftarrow> gets is_resolving;
         v \<leftarrow> (if syscall_stop status \<and> \<not> resolving then handle_event os rounds tid else ret Done);
         if v \<noteq> Done then ret v
         else do {
           resolving \<leftarrow> gets is_resolving;
           if \<not> resolving then do { resume_tid os tid; ret Done } else ret Done
         }
       }
     }
   }"

fun main_loop :: "os \<Rightarrow> nat \<Rightarrow> nat \<Rightarrow> verdict option prog" where
  "main_loop os rounds 0 = ret None"
| "main_loop os rounds (Suc k) = do {
     should_exit \<leftarrow> interrupted os;
     if should_exit then ret (Some Done)
     else do {
       v \<leftarrow> main_round os rounds;
       if v \<noteq> Done then ret (Some v) else main_loop os rounds k
     }
   }"

text \<open>The variable \<open>target_pid\<close> of this function shadows the global one, which keeps the value 0.\<close>

definition main_program :: "os \<Rightarrow> nat \<Rightarrow> nat \<Rightarrow> string list \<Rightarrow> verdict option prog" where
  "main_program os rounds k argv =
     (if length argv < 2 then ret (Some (Process_exit 1))
      else (let target = atoi (argv ! 1) in do {
        attach_all_threads os target;
        r \<leftarrow> main_loop os rounds k;
        if r = Some Done then do { shutdown_clean os target; ret (Some (Process_exit 0)) } else ret r
      }))"

subsection \<open>What a round keeps\<close>

lemma silent_main [simp]:
  "silent (tid_alive os tid)" "silent (resume_tid os tid)" "silent (attach_thread os tid)"
  "silent (attach_all_threads os pid)" "silent (if_alive os request tid)"
  unfolding tid_alive_def resume_tid_def attach_thread_def attach_all_threads_def if_alive_def
  by ((rule silent_rules silent_helpers)+)+

text \<open>The contract of a whole run: besides the detection's, that of the handlers.\<close>

locale monitor_frame = detection_frame I for I +
  assumes handled: "preserves I (handle_syscall os tid)"
begin

lemma handle_event_keeps [keeps]: "preserves I (handle_event os n tid)"
  unfolding handle_event_def by (intro keeps handled silent_keeps silent_main)

lemma main_round_keeps [keeps]: "preserves I (main_round os n)"
  unfolding main_round_def
  by (rule handle_event_keeps keeps calls_keep silent_keeps [OF silent_main(1)] silent_keeps [OF silent_main(2)])+

lemma main_loop_keeps [keeps]: "preserves I (main_loop os n k)"
  by (induction k) (auto intro!: keeps)

end

interpretation table_monitor: monitor_frame table_inv
  by unfold_locales (rule table_handle_syscall)

text \<open>The variables that the handlers of the events do not write.\<close>

definition unhandled :: "gstate \<Rightarrow> pid \<times> bool \<times> bool \<times> DeadlockInfo list \<times> 64 word" where
  "unhandled s = (target_pid s, monitoring_active s, is_resolving s, detected_deadlocks s, deadlock_counter s)"

lemma unhandled_simps: "unhandled (s\<lparr>thread_info_cache := c, futex_waiters := w,
         wait_start_times := st, waits_for := waits, thread_locks := held,
         lock_owners := lo, lock_stats := ls\<rparr>) = unhandled s"
  by (simp add: unhandled_def)

interpretation unhandled_frame: cache_frame "\<lambda>s. unhandled s = v" for v
  by unfold_locales (simp_all add: unhandled_def)

lemma unhandled_handle_syscall: "preserves (\<lambda>s. unhandled s = v) (handle_syscall os tid)"
  unfolding handle_syscall_def Let_def on_wait_def on_wake_def on_lock_def update_lock_stats_def
  by (intro keeps preserves_modify unhandled_frame.calls_keep unhandled_frame.get_thread_identifier_keeps)
    (auto simp: unhandled_def lock_update_def stats_update_def wait_edge_def refresh_waiters_def Let_def split: option.splits)

lemma unhandled_keeps:
  assumes "\<And>s s'. unhandled s = unhandled s' \<Longrightarrow> I s = I s'"
  shows "preserves I (handle_syscall os tid)"
  using assms preservesD [OF unhandled_handle_syscall refl] by (metis preservesI)

interpretation cycles_monitor: monitor_frame distinct_cycles
  by unfold_locales (rule unhandled_keeps, simp add: unhandled_def distinct_cycles_def)

interpretation target_monitor: monitor_frame "\<lambda>s. target_pid s = p" for p
  by unfold_locales (rule unhandled_keeps, simp add: unhandled_def)

interpretation resolving_monitor: monitor_frame "\<lambda>s. is_resolving s = b" for b
  by unfold_locales
    (simp_all add: forget_victim_def kill_victim_def, rule unhandled_keeps, simp add: unhandled_def)

definition switched_off :: "DeadlockInfo list \<Rightarrow> 64 word \<Rightarrow> gstate \<Rightarrow> bool" where
  "switched_off ds c s \<longleftrightarrow> \<not> monitoring_active s \<and> detected_deadlocks s = ds \<and> deadlock_counter s = c"

interpretation off_frame: cache_frame "switched_off ds c" for ds c
  by unfold_locales (simp_all add: switched_off_def)

lemma off_detect: "preserves (switched_off ds c) (detect_and_resolve_deadlocks os n)"
  by (rule preservesI) (simp add: detect_and_resolve_deadlocks_def switched_off_def)

lemma off_main_round: "preserves (switched_off ds c) (main_round os n)"
proof -
  have "preserves (switched_off ds c) (handle_syscall os tid)" for tid
    by (rule unhandled_keeps) (simp add: unhandled_def switched_off_def)
  note handled = this
  show ?thesis
    unfolding main_round_def handle_event_def
    by (rule keeps off_frame.calls_keep off_frame.silent_keeps [OF silent_main(1)] off_frame.silent_keeps [OF silent_main(2)]
        off_detect handled)+
qed

subsection \<open>The reachable states\<close>

text \<open>The same content: hash containers that were inserted into may be rehashed, and then list their
elements in another order. (The inner maps of \<open>wait_start_times\<close> are never listed.)\<close>

definition same_sets :: "('k, 'a uset) umap \<Rightarrow> ('k, 'a uset) umap \<Rightarrow> bool" where
  "same_sets m m' \<longleftrightarrow> um_ok m' \<and> (\<forall>k. rel_option (\<lambda>x y. set x = set y \<and> distinct y) (um_find m k) (um_find m' k))"

definition same_content :: "gstate \<Rightarrow> gstate \<Rightarrow> bool" where
  "same_content s s' \<longleftrightarrow>
     um_sim (thread_info_cache s) (thread_info_cache s') \<and> um_sim (futex_waiters s) (futex_waiters s')
     \<and> um_sim (wait_start_times s) (wait_start_times s') \<and> same_sets (waits_for s) (waits_for s')
     \<and> same_sets (thread_locks s) (thread_locks s') \<and> um_sim (lock_owners s) (lock_owners s')
     \<and> um_sim (lock_stats s) (lock_stats s')
     \<and> s' = s\<lparr>thread_info_cache := thread_info_cache s', futex_waiters := futex_waiters s',
         wait_start_times := wait_start_times s', waits_for := waits_for s', thread_locks := thread_locks s',
         lock_owners := lock_owners s', lock_stats := lock_stats s'\<rparr>"

inductive step :: "os \<Rightarrow> nat \<Rightarrow> gstate \<Rightarrow> gstate \<Rightarrow> bool" for os n where
  round: "\<not> os_interrupted os (trace s) \<Longrightarrow> run_state (main_round os n) s = (Done, s') \<Longrightarrow> step os n s s'"
| rehash: "same_content s s' \<Longrightarrow> step os n s s'"

inductive reachable :: "os \<Rightarrow> nat \<Rightarrow> gstate \<Rightarrow> gstate \<Rightarrow> bool" for os n s0 where
  start: "reachable os n s0 s0"
| more: "reachable os n s0 s \<Longrightarrow> step os n s s' \<Longrightarrow> reachable os n s0 s'"

inductive_cases stepE: "step os n s s'"

lemma reachable_keeps:
  assumes "reachable os n s0 s" and "I s0"
    and "preserves I (main_round os n)" and "\<And>s s'. I s \<Longrightarrow> same_content s s' \<Longrightarrow> I s'"
  shows "I s"
  using assms(1)
proof induction
  case (more s s')
  from \<open>step os n s s'\<close> show ?case
    by (cases rule: stepE) (use more assms(3,4) in \<open>auto dest: preservesD\<close>)
qed (rule assms(2))

lemma same_sets_at: "same_sets m m' \<Longrightarrow> set (um_at [] m' k) = set (um_at [] m k) \<and> distinct (um_at [] m' k)"
  unfolding same_sets_def um_at_def by (auto elim!: allE [of _ k] simp: option_rel_Some1 option_rel_Some2 split: option.splits)

lemma table_inv_rehash: "table_inv s \<Longrightarrow> same_content s s' \<Longrightarrow> table_inv s'"
  using same_sets_at [of "waits_for s" "waits_for s'"] same_sets_at [of "thread_locks s" "thread_locks s'"]
  by (simp add: table_defs same_content_def um_sim_def same_sets_def)

lemma same_content_unhandled:
  assumes "same_content s s'"
  shows "unhandled s' = unhandled s"
proof -
  have "s' = s\<lparr>thread_info_cache := thread_info_cache s', futex_waiters := futex_waiters s',
         wait_start_times := wait_start_times s', waits_for := waits_for s', thread_locks := thread_locks s',
         lock_owners := lock_owners s', lock_stats := lock_stats s'\<rparr>" using assms by (simp add: same_content_def)
  from arg_cong [OF this, of unhandled] show ?thesis by (simp only: unhandled_simps)
qed

lemma same_content_scalars:
  assumes "same_content s s'"
  shows "target_pid s' = target_pid s" "is_resolving s' = is_resolving s" "distinct_cycles s' = distinct_cycles s"
    "switched_off ds c s' = switched_off ds c s"
  using same_content_unhandled [OF assms] by (simp_all add: unhandled_def distinct_cycles_def switched_off_def)

text \<open>C2: In every state that the monitor can reach from its start, the tables are well formed, no cycle is
recorded twice, the global \<open>target_pid\<close> is still 0 and \<open>is_resolving\<close> is false.\<close>

theorem reachable_invariants:
  assumes "reachable os n initial_state s"
  shows "table_inv s \<and> distinct_cycles s \<and> target_pid s = 0 \<and> \<not> is_resolving s"
proof (intro conjI)
  show "table_inv s"
    by (rule reachable_keeps [OF assms initial_invs(1) table_monitor.main_round_keeps table_inv_rehash])
  show "distinct_cycles s"
    by (rule reachable_keeps [OF assms _ cycles_monitor.main_round_keeps])
      (simp_all add: same_content_scalars, simp add: distinct_cycles_def initial_state_def)
  show "target_pid s = 0"
    by (rule reachable_keeps [OF assms _ target_monitor.main_round_keeps])
      (simp_all add: same_content_scalars, simp add: initial_state_def)
  have "is_resolving s = False"
    by (rule reachable_keeps [OF assms _ resolving_monitor.main_round_keeps])
      (simp_all add: same_content_scalars, simp add: initial_state_def)
  then show "\<not> is_resolving s" by simp
qed

theorem reachable_invariants_witness:
  "target_pid (snd (run_state (main_round dead_os 1) initial_state)) = 0"
proof -
  have "fst (run_state (main_round dead_os 1) initial_state) = Done"
    by (simp add: main_round_def os_call_defs run_call dead_os_def)
  then have "step dead_os 1 initial_state (snd (run_state (main_round dead_os 1) initial_state))"
    by (intro step.round) (simp_all add: dead_os_def prod_eq_iff)
  from reachable_invariants [OF reachable.more [OF reachable.start this]] show ?thesis by blast
qed

text \<open>C22: Once \<open>monitoring_active\<close> is false it is false for ever, and no deadlock is counted or recorded any
more.\<close>

theorem switched_off_forever:
  assumes "reachable os n s s'" and "\<not> monitoring_active s"
  shows "\<not> monitoring_active s' \<and> detected_deadlocks s' = detected_deadlocks s
    \<and> deadlock_counter s' = deadlock_counter s"
proof -
  have "switched_off (detected_deadlocks s) (deadlock_counter s) s'"
    by (rule reachable_keeps [OF assms(1) _ off_main_round])
      (simp_all add: same_content_scalars, simp add: switched_off_def assms(2))
  then show ?thesis by (simp add: switched_off_def)
qed

theorem switched_off_forever_witness:
  "\<not> monitoring_active (snd (run_state (main_round dead_os 1) (initial_state\<lparr>monitoring_active := False\<rparr>)))"
proof -
  let ?s = "initial_state\<lparr>monitoring_active := False\<rparr>"
  have "fst (run_state (main_round dead_os 1) ?s) = Done"
    by (simp add: main_round_def os_call_defs run_call dead_os_def)
  then have "step dead_os 1 ?s (snd (run_state (main_round dead_os 1) ?s))"
    by (intro step.round) (simp_all add: dead_os_def prod_eq_iff)
  from switched_off_forever [OF reachable.more [OF reachable.start this]] show ?thesis by simp
qed

subsection \<open>Every stop is answered\<close>

text \<open>The calls that answer a stop: a request to go on, or the check that finds the thread gone.\<close>

definition answers_stop :: "pid \<Rightarrow> event \<Rightarrow> bool" where
  "answers_stop tid ev \<longleftrightarrow> ev = Ptrace PTRACE_SYSCALL tid 0 \<or> (\<exists>r. ev = Ptrace PTRACE_CONT tid r)
     \<or> (\<exists>r. ev = Kill tid 0 r \<and> r \<noteq> 0)"

lemma resume_tid_last: "\<exists>ev rest. trace (snd (run_state (resume_tid os tid) s)) = ev # rest \<and> answers_stop tid ev"
  by (auto simp: resume_tid_def tid_alive_def os_call_defs run_call answers_stop_def)

text \<open>C20: A round that gets the stop of a thread and returns normally ends with a request to let this thread run
(\<open>PTRACE_SYSCALL\<close>, which succeeded, or else \<open>PTRACE_CONT\<close>) or with the check that finds it gone, unless the shutdown has
begun: no event is left unanswered.\<close>

theorem every_stop_is_answered:
  assumes "os_waitpid os (trace s) (- 1) WALL_WNOHANG = (tid, status)" and "0 < tid"
    and "\<not> WIFEXITED status" and "\<not> WIFSIGNALED status" and "\<not> is_resolving s"
    and "run_state (main_round os n) s = (Done, s')"
  shows "\<exists>ev rest. trace s' = ev # rest \<and> answers_stop tid ev"
proof -
  let ?s1 = "s\<lparr>trace := Waitpid (- 1) WALL_WNOHANG (tid, status) # trace s\<rparr>"
  let ?r = "os_kill os (trace ?s1) tid 0"
  let ?s2 = "s\<lparr>trace := Kill tid 0 ?r # trace ?s1\<rparr>"
  define m where "m = (if syscall_stop status then handle_event os n tid else ret Done)"
  have e: "run_state (main_round os n) s = (if ?r \<noteq> 0 then (Done, ?s2) else run_state (do {
      v \<leftarrow> m;
      if v \<noteq> Done then ret v
      else do { resolving \<leftarrow> gets is_resolving; if \<not> resolving then do { resume_tid os tid; ret Done } else ret Done }
    }) ?s2)"
    using assms(1-5) by (simp add: main_round_def tid_alive_def os_call_defs run_call m_def)
  have m: "preserves (\<lambda>s. is_resolving s = False) m"
    unfolding m_def by (intro keeps resolving_monitor.handle_event_keeps)
  obtain v s3 where r: "run_state m ?s2 = (v, s3)" by (metis prod.collapse)
  then have "is_resolving s3 = False" using preservesD [OF m, of ?s2] assms(5) by simp
  moreover obtain ev rest where "trace (snd (run_state (resume_tid os tid) s3)) = ev # rest" "answers_stop tid ev"
    using resume_tid_last [of os tid s3] by blast
  ultimately show ?thesis
    using assms(6) r unfolding e by (auto simp: answers_stop_def split: if_splits prod.splits)
qed

text \<open>A thread that was stopped by a signal (\<open>SIGSTOP\<close>), on a system where everything succeeds.\<close>

definition signal_os :: os where
  "signal_os = dead_os\<lparr>os_kill := \<lambda>_ _ _. 0, os_ptrace := \<lambda>_ _ _. 0, os_waitpid := \<lambda>_ _ _. (7, 4991)\<rparr>"

theorem every_stop_is_answered_witness:
  "\<exists>ev rest. trace (snd (run_state (main_round signal_os 1) initial_state)) = ev # rest \<and> answers_stop 7 ev"
proof -
  obtain v s' where r: "run_state (main_round signal_os 1) initial_state = (v, s')" by (metis prod.collapse)
  then have "v = Done"
    by (auto simp: main_round_def tid_alive_def resume_tid_def os_call_defs run_call signal_os_def dead_os_def
        syscall_stop_def initial_state_def WIFEXITED_def WIFSIGNALED_def)
  then show ?thesis
    using every_stop_is_answered [of signal_os initial_state 7 4991 1 s'] r
    by (simp add: signal_os_def WIFEXITED_def WIFSIGNALED_def initial_state_def)
qed

subsection \<open>How a round can end\<close>

text \<open>The shadow process exits with 0, and nothing else in the detection exits.\<close>

definition detection_verdict :: "verdict \<Rightarrow> bool" where
  "detection_verdict v \<longleftrightarrow> v \<in> {Done, Process_exit 0} \<union> range Raised"

lemma resolve_exits: "returns (\<lambda>r. \<forall>c. r = Exited c \<longrightarrow> c = 0) (resolve_deadlock_strategy1 os d)"
  unfolding returns_def
proof (intro allI impI)
  fix s c
  assume "fst (run_state (resolve_deadlock_strategy1 os d) s) = Exited c"
  with resolve_effect_run [of d s os] show "c = 0" by (simp add: resolution_effect_def)
qed

lemma report_verdicts: "returns detection_verdict (report_cycle os cyc)"
proof -
  have t: "returns (\<lambda>r. \<forall>v. r = Inl v \<longrightarrow> detection_verdict v) (try_resolve os d)" for d
    unfolding try_resolve_def
    by (rule returns_step [OF resolve_exits])
      (auto simp: detection_verdict_def intro!: returns_rules returns_ret split: outcome.splits)
  have t2: "returns detection_verdict (do {
      r \<leftarrow> try_resolve os d;
      case r of
        Inl v \<Rightarrow> ret v
      | Inr b \<Rightarrow> do {
          modify (\<lambda>s. s\<lparr>detected_deadlocks := detected_deadlocks s @ [d\<lparr>resolved := b\<rparr>]\<rparr>);
          ret Done
        }
    })" for d
    by (rule returns_step [OF t]) (auto simp: detection_verdict_def intro!: returns_ret returns_bind returns_sum)
  show ?thesis
    unfolding report_cycle_def Let_def
    by (intro t2 returns_if returns_bind [where m = "gets _"] returns_bind [where m = "modify _"]
        returns_bind [where m = "system_clock_now _"] returns_ret) (simp_all add: detection_verdict_def)
qed

lemma scan_verdicts: "returns detection_verdict (scan_threads os ts V S)"
proof (induction ts arbitrary: V S)
  case (Cons t ts)
  show ?case
    unfolding scan_threads.simps
    by (intro returns_if returns_bind [where m = "gets _"] returns_prod returns_step [OF report_verdicts] Cons returns_ret)
      (auto simp: detection_verdict_def intro: returns_ret)
qed (simp add: returns_ret detection_verdict_def)

lemma detect_verdicts: "returns (\<lambda>v. detection_verdict v \<or> v = Guarding) (detect_and_resolve_deadlocks os n)"
proof -
  let ?Q = "\<lambda>v. detection_verdict v \<or> v = Guarding"
  have scan: "returns ?Q (scan_threads os ts V S)" for ts V S using scan_verdicts by (simp add: returns_def)
  have groups: "returns (\<lambda>r. \<forall>v. r = Some v \<longrightarrow> ?Q v) (resolve_by_groups os n info)" for info
    unfolding resolve_by_groups_def
    by (intro returns_rules returns_ret) (auto simp: detection_verdict_def split: option.splits if_splits)
  show ?thesis
    unfolding detect_and_resolve_deadlocks_def
    by (intro returns_if returns_bind [where m = "gets _"] returns_bind [where m = "system_clock_now _"] returns_sum
        returns_step [OF groups] returns_option returns_ret scan)
      (auto simp: detection_verdict_def)
qed

definition round_verdicts :: "verdict set" where
  "round_verdicts = {Done, Raised Iterator_invalidated, Guarding, Process_exit 0}"

lemma main_round_verdicts: "returns (\<lambda>v. v \<in> round_verdicts) (main_round os n)"
proof -
  let ?Q = "\<lambda>v. v \<in> round_verdicts"
  have "returns ?Q (handle_event os n tid)" for tid
    unfolding handle_event_def
    by (intro returns_if returns_bind [where m = "tid_alive _ _"] returns_bind [where m = "handle_syscall _ _"]
        returns_step [OF detect_verdicts] returns_ret)
      (auto simp: catch_all_def round_verdicts_def detection_verdict_def split: verdict.splits)
  then have m: "returns ?Q (if b then handle_event os n tid else ret Done)" for b tid
    by (simp add: returns_def round_verdicts_def)
  show ?thesis
    unfolding main_round_def
    by (intro returns_rules returns_step [OF m] returns_ret) (auto simp: round_verdicts_def)
qed

subsection \<open>The end of the loop\<close>

lemma main_round_calls: "\<exists>e new. trace (snd (run_state (main_round os n) s)) = new @ e # trace s"
proof -
  have event: "grows (if b then handle_event os n tid else ret Done)" for b tid
    unfolding handle_event_def
    by (rule grows_rules grows_handle_syscall grows_detect silent_main [THEN silent_grows])+
  define body where "body = (\<lambda>(tid, status). if tid \<le> 0 then do { usleep 1000; ret Done }
     else do {
       alive \<leftarrow> tid_alive os tid;
       if \<not> alive then ret Done
       else if WIFEXITED status \<or> WIFSIGNALED status then ret Done
       else do {
         resolving \<leftarrow> gets is_resolving;
         v \<leftarrow> (if syscall_stop status \<and> \<not> resolving then handle_event os n tid else ret Done);
         if v \<noteq> Done then ret v
         else do {
           resolving \<leftarrow> gets is_resolving;
           if \<not> resolving then do { resume_tid os tid; ret Done } else ret Done
         }
       }
     })"
  have "grows (body w)" for w
    unfolding body_def
    by (rule event grows_rules silent_main [THEN silent_grows])+
  note body = growsD [OF this]
  obtain w e where "run_state (waitpid os (- 1) WALL_WNOHANG) s = (w, s\<lparr>trace := e # trace s\<rparr>)"
    by (simp add: waitpid_def run_call)
  moreover obtain new where "trace (snd (run_state (body w) (s\<lparr>trace := e # trace s\<rparr>))) = new @ e # trace s"
    using body [of w "s\<lparr>trace := e # trace s\<rparr>"] by auto
  ultimately have "trace (snd (run_state (main_round os n) s)) = new @ e # trace s"
    unfolding main_round_def body_def [symmetric] by simp
  then show ?thesis by blast
qed

lemma main_loop_ends:
  assumes "\<And>tr. L \<le> length tr \<Longrightarrow> os_interrupted os tr" and "L \<le> length (trace s) + k"
  shows "\<exists>v\<in>round_verdicts. fst (run_state (main_loop os n (Suc k)) s) = Some v"
  using assms(2)
proof (induction k arbitrary: s)
  case 0
  then show ?case using assms(1) [of "trace s"] by (simp add: interrupted_def round_verdicts_def)
next
  case (Suc k)
  show ?case
  proof (cases "os_interrupted os (trace s)")
    case True
    then show ?thesis by (simp add: interrupted_def round_verdicts_def)
  next
    case False
    obtain v s' where r: "run_state (main_round os n) s = (v, s')" by (metis prod.collapse)
    then have v: "v \<in> round_verdicts" using returnsD [OF main_round_verdicts] by (metis fst_conv)
    obtain e new where "trace s' = new @ e # trace s" using main_round_calls [of os n s] r by auto
    with Suc.prems have "L \<le> length (trace s') + k" by simp
    from Suc.IH [OF this] v r False show ?thesis
      by (subst main_loop.simps) (simp add: interrupted_def del: main_loop.simps)
  qed
qed

subsection \<open>The attachment and the shutdown\<close>

text \<open>The calls made for one thread, the last one first: it is gone; or a request is made, whatever its result.
The attachment goes on only when the thread could be attached to.\<close>

definition alive_block :: "ptrace_request \<Rightarrow> pid \<Rightarrow> event list \<Rightarrow> bool" where
  "alive_block request tid evs \<longleftrightarrow>
     (\<exists>r. r \<noteq> 0 \<and> evs = [Kill tid 0 r]) \<or> (\<exists>r. evs = [Ptrace request tid r, Kill tid 0 0])"

definition attach_block :: "pid \<Rightarrow> event list \<Rightarrow> bool" where
  "attach_block tid evs \<longleftrightarrow>
     (\<exists>r. r \<noteq> 0 \<and> evs = [Kill tid 0 r]) \<or> (\<exists>r. r \<noteq> 0 \<and> evs = [Ptrace PTRACE_ATTACH tid r, Kill tid 0 0])
     \<or> (\<exists>w o1 o2. evs = [Ptrace PTRACE_SYSCALL tid o2, Ptrace (PTRACE_SETOPTIONS trace_options) tid o1,
          Waitpid tid WALL w, Ptrace PTRACE_ATTACH tid 0, Kill tid 0 0])"

definition task_dir :: "pid \<Rightarrow> string" where
  "task_dir pid = ''/proc/'' @ to_string pid @ ''/task''"

definition attach_trace :: "pid \<Rightarrow> string list option \<Rightarrow> event list \<Rightarrow> bool" where
  "attach_trace pid dir evs \<longleftrightarrow> (\<exists>blocks. list_all2 attach_block (list_tids dir) blocks
     \<and> evs = concat (rev blocks) @ [List_dir (task_dir pid) dir])"

definition shutdown_trace :: "pid \<Rightarrow> string list option \<Rightarrow> event list \<Rightarrow> bool" where
  "shutdown_trace pid dir evs \<longleftrightarrow> (\<exists>interrupts detaches.
     list_all2 (alive_block PTRACE_INTERRUPT) (list_tids dir) interrupts
     \<and> list_all2 (alive_block (PTRACE_DETACH 0)) (list_tids dir) detaches
     \<and> evs = concat (rev detaches) @ [Usleep 50000] @ concat (rev interrupts) @ [List_dir (task_dir pid) dir])"

lemma for_each_blocks:
  assumes "\<And>x s. \<exists>b. B x b \<and> trace (snd (run_state (f x) s)) = b @ trace s"
  shows "\<exists>bs. list_all2 B xs bs \<and> trace (snd (run_state (for_each xs f) s)) = concat (rev bs) @ trace s"
proof (induction xs arbitrary: s)
  case (Cons x xs)
  obtain u s1 where r: "run_state (f x) s = (u, s1)" by (metis prod.collapse)
  obtain b where b: "B x b" "trace s1 = b @ trace s" using assms [of x s] r by auto
  obtain bs where "list_all2 B xs bs" "trace (snd (run_state (for_each xs f) s1)) = concat (rev bs) @ trace s1"
    using Cons.IH by blast
  with b r show ?case by (intro exI [of _ "b # bs"]) simp
qed simp

lemma if_alive_block: "\<exists>b. alive_block request tid b \<and> trace (snd (run_state (if_alive os request tid) s)) = b @ trace s"
  by (cases "os_kill os (trace s) tid 0 = 0")
    (auto simp: alive_block_def if_alive_def tid_alive_def os_call_defs run_call)

lemma attach_thread_block: "\<exists>b. attach_block tid b \<and> trace (snd (run_state (attach_thread os tid) s)) = b @ trace s"
proof (cases "os_kill os (trace s) tid 0 = 0")
  case True
  then show ?thesis
    by (cases "os_ptrace os (Kill tid 0 0 # trace s) PTRACE_ATTACH tid = 0")
      (auto simp: attach_block_def attach_thread_def tid_alive_def os_call_defs run_call)
qed (auto simp: attach_block_def attach_thread_def tid_alive_def os_call_defs run_call)

lemma attach_all_threads_trace:
  obtains evs where "attach_trace pid (os_dir os (trace s) (task_dir pid)) evs"
    "trace (snd (run_state (attach_all_threads os pid) s)) = evs @ trace s"
proof -
  let ?dir = "os_dir os (trace s) (task_dir pid)"
  let ?s1 = "s\<lparr>trace := List_dir (task_dir pid) ?dir # trace s\<rparr>"
  obtain bs where bs: "list_all2 attach_block (list_tids ?dir) bs"
    "trace (snd (run_state (for_each (list_tids ?dir) (attach_thread os)) ?s1)) = concat (rev bs) @ trace ?s1"
    using for_each_blocks [of attach_block "attach_thread os", OF attach_thread_block] by blast
  then show thesis
    by (intro that [of "concat (rev bs) @ [List_dir (task_dir pid) ?dir]"])
      (auto simp: attach_trace_def attach_all_threads_def list_threads_def os_call_defs run_call task_dir_def)
qed

lemma shutdown_clean_trace:
  obtains evs where "shutdown_trace pid (os_dir os (trace s) (task_dir pid)) evs"
    "trace (snd (run_state (shutdown_clean os pid) s)) = evs @ trace s"
    "vars (snd (run_state (shutdown_clean os pid) s)) = vars (s\<lparr>is_resolving := True\<rparr>)"
proof -
  let ?dir = "os_dir os (trace s) (task_dir pid)"
  let ?tids = "list_tids ?dir"
  let ?s1 = "s\<lparr>is_resolving := True, trace := List_dir (task_dir pid) ?dir # trace s\<rparr>"
  have "\<exists>s2. run_state m s1 = ((), s2)" for m :: "unit prog" and s1 by (cases "run_state m s1") simp
  note unit_run = this
  obtain s2 where s2: "run_state (for_each ?tids (if_alive os PTRACE_INTERRUPT)) ?s1 = ((), s2)"
    using unit_run by blast
  let ?s3 = "s2\<lparr>trace := Usleep 50000 # trace s2\<rparr>"
  obtain s4 where s4: "run_state (for_each ?tids (if_alive os (PTRACE_DETACH 0))) ?s3 = ((), s4)"
    using unit_run by blast
  have run: "snd (run_state (shutdown_clean os pid) s) = s4"
    using s2 s4 by (simp add: shutdown_clean_def list_threads_def os_call_defs run_call task_dir_def)
  have "silent (for_each ?tids (if_alive os request))" for request by (rule silent_rules silent_main)+
  from silentD [OF this, of PTRACE_INTERRUPT ?s1] silentD [OF this, of "PTRACE_DETACH 0" ?s3] s2 s4
  have "vars s4 = vars ?s3" "vars s2 = vars ?s1" by simp_all
  then have v: "vars s4 = vars (s\<lparr>is_resolving := True\<rparr>)" by (simp add: vars_def)
  note blocks = for_each_blocks [of "alive_block request" "if_alive os request" for request, OF if_alive_block]
  obtain bs where i: "list_all2 (alive_block PTRACE_INTERRUPT) ?tids bs" "trace s2 = concat (rev bs) @ trace ?s1"
    using blocks [of PTRACE_INTERRUPT ?tids ?s1] s2 by auto
  obtain ds where d: "list_all2 (alive_block (PTRACE_DETACH 0)) ?tids ds" "trace s4 = concat (rev ds) @ trace ?s3"
    using blocks [of "PTRACE_DETACH 0" ?tids ?s3] s4 by auto
  show thesis
    by (rule that [of "concat (rev ds) @ [Usleep 50000] @ concat (rev bs) @ [List_dir (task_dir pid) ?dir]"])
      (use i d v in \<open>auto simp: run shutdown_trace_def\<close>)
qed

text \<open>C31: The shutdown takes the threads of the target in their order: it interrupts each one that is not gone, waits 50
milliseconds, and then detaches from each one that is not gone. It makes no other call and sets
\<open>is_resolving\<close>.\<close>

theorem shutdown_detaches_all:
  "\<exists>evs. shutdown_trace pid (os_dir os (trace s) (task_dir pid)) evs
     \<and> trace (snd (run_state (shutdown_clean os pid) s)) = evs @ trace s
     \<and> vars (snd (run_state (shutdown_clean os pid) s)) = vars (s\<lparr>is_resolving := True\<rparr>)"
  by (rule shutdown_clean_trace [of pid os s]) blast

text \<open>A thread that is not gone is interrupted and detached from.\<close>

theorem shutdown_detaches_all_witness:
  "\<exists>r r' rest. trace (snd (run_state (shutdown_clean (dead_os\<lparr>os_dir := \<lambda>_ _. Some [''.'', ''..'', ''7''], os_kill := \<lambda>_ _ _. 0\<rparr>) 7) initial_state))
      = Ptrace (PTRACE_DETACH 0) 7 r # Kill 7 0 0 # Usleep 50000 # Ptrace PTRACE_INTERRUPT 7 r' # Kill 7 0 0 # rest"
proof -
  let ?os = "dead_os\<lparr>os_dir := \<lambda>_ _. Some [''.'', ''..'', ''7''], os_kill := \<lambda>_ _ _. 0\<rparr>"
  let ?s = "snd (run_state (shutdown_clean ?os 7) initial_state)"
  have l: "list_tids (Some [''.'', ''..'', ''7'']) = [7]" by code_simp
  obtain evs where "shutdown_trace 7 (Some [''.'', ''..'', ''7'']) evs" "trace ?s = evs @ trace initial_state"
    using shutdown_detaches_all [of 7 ?os initial_state] by auto
  moreover have "\<forall>e\<in>set (trace ?s). \<forall>r. e = Kill 7 0 r \<longrightarrow> r = 0"
    by (simp add: shutdown_clean_def list_threads_def if_alive_def tid_alive_def os_call_defs run_call l
        dead_os_def initial_state_def)
  ultimately show ?thesis
    by (auto simp: shutdown_trace_def l alive_block_def list_all2_Cons1)
qed

end
