(* ===== verification/Deadlock_Watch.thy ===== *)
theory Deadlock_Watch
  imports Main_Loop
begin

text \<open>
  What the monitoring, the detection and the event loop achieve together. Thread names in the tables are
  identifiers; and no deadlock escapes the monitor: as long as it is switched on and has recorded
  nothing, the graph of the waits has no cycle after any round of the loop.
\<close>

subsection \<open>Thread names\<close>

text \<open>Every thread name in the tables has the property \<open>P\<close>.\<close>

definition names_in :: "(string \<Rightarrow> bool) \<Rightarrow> gstate \<Rightarrow> bool" where
  "names_in P s \<longleftrightarrow>
     (\<forall>t. um_find (waits_for s) t \<noteq> None \<or> um_find (thread_locks s) t \<noteq> None
        \<or> um_find (wait_start_times s) t \<noteq> None \<longrightarrow> P t)
   \<and> (\<forall>t. \<forall>u\<in>set (waits_of s t). P u)
   \<and> (\<forall>a. \<forall>t\<in>set (waiters_of s a). P t)
   \<and> (\<forall>a t. um_find (lock_owners s) a = Some t \<longrightarrow> P t)
   \<and> (\<forall>a st. um_find (lock_stats s) a = Some st \<longrightarrow>
        P (current_owner st) \<and> (\<forall>t\<in>set (waiting_threads st). P t))"

lemma names_stats_update: "P t \<Longrightarrow> names_in P s \<Longrightarrow> names_in P (stats_update a t now s)"
  by (auto simp: names_in_def stats_update_def Let_def split: option.splits)

lemma names_lock_update: "P t \<Longrightarrow> names_in P s \<Longrightarrow> names_in P (lock_update t a s)"
  by (auto simp: names_in_def lock_update_def)

lemma names_wait_edge: "P t \<Longrightarrow> names_in P s \<Longrightarrow> names_in P (wait_edge t a s)"
  by (auto simp: names_in_def wait_edge_def split: option.splits)

lemma names_refresh_waiters: "names_in P s \<Longrightarrow> names_in P (refresh_waiters a s)"
  by (auto simp: names_in_def refresh_waiters_def Let_def split: option.splits)

lemma names_forget: "names_in P s \<Longrightarrow> names_in P (forget_victim n ls s)"
  by (auto simp: names_in_def forget_victim_def split: if_splits)

lemma names_kill: "table_inv s \<Longrightarrow> names_in P s \<Longrightarrow> names_in P (kill_victim n s)"
  by (auto simp: names_in_def kill_victim_def table_defs um_find_filter_value split: if_splits)

lemma same_sets_None: "same_sets m m' \<Longrightarrow> um_find m' k = None \<longleftrightarrow> um_find m k = None"
  unfolding same_sets_def by (cases "um_find m k"; cases "um_find m' k") (auto elim!: allE [of _ k])

lemma names_rehash: "names_in P s \<Longrightarrow> same_content s s' \<Longrightarrow> names_in P s'"
  using same_sets_None [of "waits_for s" "waits_for s'"] same_sets_None [of "thread_locks s" "thread_locks s'"]
    same_sets_at [of "waits_for s" "waits_for s'"]
  by (auto simp: names_in_def same_content_def um_sim_def um_at_def)

lemma cache_updates:
  "thread_info_cache (lock_update t a s) = thread_info_cache s"
  "thread_info_cache (stats_update a t now s) = thread_info_cache s"
  "thread_info_cache (wait_edge t a s) = thread_info_cache s"
  "thread_info_cache (refresh_waiters a s) = thread_info_cache s"
  by (simp_all add: lock_update_def stats_update_def wait_edge_def refresh_waiters_def Let_def split: option.split)

lemma names_initial: "names_in P initial_state"
  by (simp add: names_in_def initial_state_def um_at_def)

interpretation names_frame: cache_frame "names_in P" for P
  by unfold_locales (simp_all add: names_in_def)

text \<open>What the handlers need of the names: \<open>I\<close> is an invariant of the name cache that a lookup keeps, and
under \<open>I\<close> the identifier of a thread with \<open>T\<close> has the property \<open>P\<close>.\<close>

locale name_source =
  fixes os :: os and I :: "gstate \<Rightarrow> bool" and T :: "pid \<Rightarrow> bool" and P :: "string \<Rightarrow> bool"
  assumes cache_only: "thread_info_cache s = thread_info_cache s' \<Longrightarrow> I s = I s'"
    and looked_up: "T tid \<Longrightarrow> valid I (get_thread_identifier os tid) (\<lambda>t s. P t \<and> I s)"
begin

abbreviation named :: "gstate \<Rightarrow> bool" where
  "named s \<equiv> I s \<and> names_in P s"

sublocale env_frame named
  by unfold_locales (use cache_only [OF refl] names_frame.frame in \<open>simp add: cache_only [of "_\<lparr>trace := _\<rparr>" "_"]\<close>)

lemma named_modify:
  "(\<And>s. thread_info_cache (f s) = thread_info_cache s) \<Longrightarrow> (\<And>s. names_in P s \<Longrightarrow> names_in P (f s)) \<Longrightarrow>
     preserves named (modify f)"
  using cache_only by (intro preserves_modify) blast

lemma named_lookup:
  assumes "T tid" and "\<And>t. P t \<Longrightarrow> preserves named (f t)"
  shows "preserves named (State_Monad.bind (get_thread_identifier os tid) f)"
proof -
  have "valid named (get_thread_identifier os tid) (\<lambda>t s. P t \<and> named s)"
    using looked_up [OF assms(1)] names_frame.get_thread_identifier_keeps [of P os tid] by (simp add: valid_def preserves_def)
  moreover have "valid (\<lambda>s. P t \<and> named s) (f t) (\<lambda>_. named)" for t
    using assms(2) by (simp add: valid_def preserves_def)
  ultimately show ?thesis unfolding preserves_def by (rule valid_bind)
qed

lemma named_on_lock: "T tid \<Longrightarrow> preserves named (on_lock os tid a)"
  unfolding on_lock_def update_lock_stats_def
  by (rule preserves_if, rule preserves_ret, rule named_lookup, assumption, intro keeps named_modify calls_keep)
    (simp_all add: names_lock_update names_stats_update cache_updates)

lemma named_on_wait: "T tid \<Longrightarrow> preserves named (on_wait os tid a)"
  unfolding on_wait_def
  by (rule preserves_if, rule preserves_ret, rule named_lookup, assumption, intro keeps named_modify calls_keep)
    (simp_all add: names_wait_edge names_refresh_waiters cache_updates, simp_all add: names_in_def)

lemma named_on_wake: "T tid \<Longrightarrow> preserves named (on_wake os tid a)"
  unfolding on_wake_def
  by (rule named_lookup, assumption, intro keeps named_modify) (auto simp: names_in_def split: option.splits)

lemma named_handle_syscall: "T tid \<Longrightarrow> preserves named (handle_syscall os tid)"
  unfolding handle_syscall_def Let_def
  by (intro keeps calls_keep named_on_lock named_on_wait named_on_wake)

end

definition is_identifier :: "string \<Rightarrow> bool" where
  "is_identifier t \<longleftrightarrow> (\<exists>name tid. t = thread_identifier name tid)"

definition names_ok :: "gstate \<Rightarrow> bool" where
  "names_ok s \<longleftrightarrow> names_in is_identifier s"

interpretation any_name: name_source os "\<lambda>_. True" "\<lambda>_. True" is_identifier for os
proof
  show "valid (\<lambda>_. True) (get_thread_identifier os tid) (\<lambda>t s. is_identifier t \<and> True)" for tid
    using identifier_run [of os tid] by (fastforce simp: valid_def is_identifier_def)
qed simp

interpretation names_detection: detection_frame "\<lambda>s. table_inv s \<and> names_in P s" for P
  by unfold_locales
    (simp_all add: table_frame.frame table_frame.cache names_frame.frame names_frame.cache table_forget_victim
      table_kill_victim names_forget names_kill, simp_all add: table_defs names_in_def)

interpretation typed_monitor: monitor_frame "\<lambda>s. table_inv s \<and> names_in is_identifier s"
proof unfold_locales
  show "preserves (\<lambda>s. table_inv s \<and> names_in is_identifier s) (handle_syscall os tid)" for os tid
    using preserves_both [OF table_handle_syscall any_name.named_handle_syscall] by simp
qed

text \<open>C13: Every thread name in the tables of a reachable state is the text that \<open>get_thread_identifier\<close> makes from a
name and a number: \<open>name[number]\<close>.\<close>

theorem reachable_names:
  assumes "reachable os n initial_state s"
  shows "names_ok s"
proof -
  have "table_inv s \<and> names_in is_identifier s"
    by (rule reachable_keeps [OF assms _ typed_monitor.main_round_keeps])
      (auto simp: initial_invs(1) table_inv_rehash names_rehash names_initial)
  then show ?thesis by (simp add: names_ok_def)
qed

theorem reachable_names_witness:
  "names_ok (snd (run_state (main_round signal_os 1) initial_state))"
proof -
  have "fst (run_state (main_round signal_os 1) initial_state) = Done"
    by (simp add: main_round_def tid_alive_def resume_tid_def os_call_defs run_call signal_os_def dead_os_def
        syscall_stop_def initial_state_def WIFEXITED_def WIFSIGNALED_def)
  then have "step signal_os 1 initial_state (snd (run_state (main_round signal_os 1) initial_state))"
    by (intro step.round) (simp_all add: signal_os_def dead_os_def prod_eq_iff)
  from reachable_names [OF reachable.more [OF reachable.start this]] show ?thesis .
qed

subsection \<open>Detections that record nothing\<close>

text \<open>Every thread of the tables has a number in its identifier.\<close>

definition readable :: "gstate \<Rightarrow> bool" where
  "readable s \<longleftrightarrow> (\<forall>t \<in> set (um_keys (thread_locks s)) \<union> set (um_keys (waits_for s)).
     \<exists>tid. extract_tid_from_identifier t = Inr tid)"


text \<open>A resolution that throws has met an identifier without a number and has changed no table.\<close>

definition same_tables :: "gstate \<Rightarrow> gstate \<Rightarrow> bool" where
  "same_tables s s' \<longleftrightarrow> waits_for s' = waits_for s \<and> thread_locks s' = thread_locks s"

definition threw_at :: "string list \<Rightarrow> gstate \<Rightarrow> verdict \<Rightarrow> gstate \<Rightarrow> bool" where
  "threw_at ts s v s' \<longleftrightarrow> (\<exists>f. v = Raised f \<and> (\<exists>t\<in>set ts. extract_tid_from_identifier t = Inl f)) \<and> same_tables s s'"

lemma same_tables_vars: "same_tables (vars s) (vars s') = same_tables s s'"
  by (simp add: same_tables_def vars_def)

lemma same_tables_active: "vars s' = (vars s)\<lparr>monitoring_active := b\<rparr> \<Longrightarrow> same_tables s s'"
  unfolding same_tables_vars [of s s', symmetric] by (simp add: same_tables_def)

lemma emergency_throws:
  assumes "run_state (emergency_deadlock_break os d) s = (Inl f, s')"
  shows "(\<exists>t\<in>set (cycle d). extract_tid_from_identifier t = Inl f) \<and> same_tables s s'"
proof -
  obtain r s1 where r: "run_state (first_live os (cycle d)) s = (r, s1)" by (metis prod.collapse)
  then have "r = Inl f" "s' = s1"
    using assms by (auto simp: emergency_deadlock_break_def split: sum.splits option.splits prod.splits)
  moreover have "vars s1 = vars s" using silentD [OF silent_first_live, of os "cycle d" s] r by simp
  ultimately show ?thesis
    using returnsD [OF first_live_returns, of "cycle d" os s] r same_tables_vars [of s s1]
    by (auto simp: same_tables_def)
qed

lemma resolve_throws:
  assumes "run_state (resolve_deadlock_strategy1 os d) s = (r, s')" and "\<And>b. r = Returned b \<Longrightarrow> \<not> b"
  shows "same_tables s s'" "r = Threw f \<Longrightarrow> \<exists>t\<in>set (cycle d). extract_tid_from_identifier t = Inl f"
proof -
  have e: "resolution_effect d (vars s) r (vars s')" using resolve_effect_run [of d s os] assms(1) by simp
  then show "same_tables s s'"
    using assms(2) by (auto simp: resolution_effect_def intro: same_tables_active split: outcome.splits if_splits)
  show "r = Threw f \<Longrightarrow> \<exists>t\<in>set (cycle d). extract_tid_from_identifier t = Inl f"
    using e by (simp add: resolution_effect_def)
qed

lemma try_resolve_throws:
  assumes "run_state (try_resolve os d) s = (Inl v, s')"
  shows "v \<in> range Process_exit \<or> threw_at (cycle d) s v s'"
proof -
  obtain r s1 where r: "run_state (resolve_deadlock_strategy1 os d) s = (r, s1)" by (metis prod.collapse)
  note t = resolve_throws [OF r]
  show ?thesis
  proof (cases r)
    case (Threw f)
    then show ?thesis using assms r t by (auto simp: try_resolve_def threw_at_def)
  next
    case (Exited c)
    then show ?thesis using assms r by (auto simp: try_resolve_def)
  next
    case (Returned b)
    then obtain f where "\<not> b" "run_state (emergency_deadlock_break os d) s1 = (Inl f, s')" "v = Raised f"
      using assms r by (auto simp: try_resolve_def split: if_splits sum.splits prod.splits)
    then show ?thesis
      using emergency_throws [of os d s1 f s'] t(1) Returned by (auto simp: threw_at_def same_tables_def)
  qed
qed

lemma report_cycle_ends:
  assumes "\<not> already_known cyc s" and "run_state (report_cycle os cyc) s = (v, s')"
  shows "v \<in> range Process_exit \<or> threw_at cyc s v s' \<or> v = Done \<and> detected_deadlocks s' \<noteq> []"
proof -
  obtain r s2 where t: "run_state (try_resolve os (new_deadlock os cyc s)) (counted os s) = (r, s2)"
    by (metis prod.collapse)
  show ?thesis
  proof (cases r)
    case (Inl w)
    then have "v = w" "s' = s2" using report_cycle_new [OF assms(1) t] assms(2) by simp_all
    then show ?thesis
      using try_resolve_throws [OF t [unfolded Inl]] by (auto simp: threw_at_def same_tables_def counted_def new_deadlock_def)
  next
    case (Inr b)
    then show ?thesis using report_cycle_new [OF assms(1) t] assms(2) by auto
  qed
qed

text \<open>How a detection can end without having recorded a deadlock and without having been switched off.\<close>

lemma detect_covers:
  assumes "wf_tables s" and "run_state (detect_and_resolve_deadlocks os n) s = (v, s')"
    and "monitoring_active s'" and "detected_deadlocks s' = []"
  shows "v \<in> range Process_exit \<or> v = Guarding \<or> v = Raised Iterator_invalidated
    \<or> acyclic (edges (waits_of s)) \<and> vars s' = vars s \<or> same_tables s s' \<and> \<not> readable s"
proof -
  define s1 where "s1 = s\<lparr>trace := System_clock (os_system_clock os (trace s)) # trace s\<rparr>"
  have on: "monitoring_active s"
    using assms(2,3) by (cases "monitoring_active s") (simp_all add: detect_and_resolve_deadlocks_def)
  have none: "detected_deadlocks s = []"
    using preservesD [OF recorded_detection.detect_keeps] assms(2,4) by (metis snd_conv)
  have s1: "same_tables s s1" by (simp add: s1_def same_tables_def)
  consider f where "detect_group_deadlock s = Inl f" | "find_group_cycles s = []"
    | info where "detect_group_deadlock s = Inr info" "find_group_cycles s \<noteq> []" by (metis sum.exhaust)
  then show ?thesis
  proof cases
    case 1
    then have "\<not> readable s" using detect_group_deadlock_exists [OF assms(1)] by (auto simp: readable_def)
    moreover have "s' = s1"
      using 1 on assms(2) by (simp add: detect_and_resolve_deadlocks_def os_call_defs run_call s1_def)
    ultimately show ?thesis using s1 by simp
  next
    case 3
    then have "group_cycle info = find_group_cycles s" "2 \<le> length (find_group_cycles s)"
      using find_group_cycles_spec [OF assms(1)] group_cycle_found by auto
    with group_detection_run [OF on 3(1) _ assms(2)] assms(3) show ?thesis by simp
  next
    case 2
    show ?thesis
    proof (cases "acyclic (edges (waits_of s))")
      case True
      from no_cycle_run [OF on 2 True, of os n] assms(2) True show ?thesis by (auto simp: vars_def)
    next
      case False
      obtain t rest V S cyc where new: "\<not> already_known cyc s1"
        and succ: "\<forall>u\<in>set cyc. waits_of s u \<noteq> []"
        and run: "run_state (detect_and_resolve_deadlocks os n) s = run_state (do {
          v \<leftarrow> report_cycle os cyc;
          here \<leftarrow> gets (\<lambda>s. um_count (waits_for s) t);
          if v \<noteq> Done then ret v
          else if \<not> here then ret (Raised Iterator_invalidated)
          else scan_threads os rest V S }) s1"
        unfolding s1_def by (rule first_cycle_reported [OF on 2 False none])
      obtain w s2 where w: "run_state (report_cycle os cyc) s1 = (w, s2)" by (metis prod.collapse)
      have "detected_deadlocks (snd (run_state (scan_threads os rest V S) s2)) \<noteq> []" if "detected_deadlocks s2 \<noteq> []"
        using that preservesD [OF recorded_detection.scan_threads_keeps] by blast
      then have "w \<in> range Process_exit \<and> v = w \<or> threw_at cyc s1 w s2 \<and> v = w \<and> s' = s2"
        using report_cycle_ends [OF new w] w assms(2,4) unfolding run by (auto simp: threw_at_def split: if_splits)
      moreover have "\<not> readable s" if "t \<in> set cyc" "extract_tid_from_identifier t = Inl f" for t f
      proof -
        have "t \<in> set (um_keys (waits_for s))"
          using that(1) succ by (auto simp: um_keys_find um_at_def split: option.splits)
        then show ?thesis using that(2) by (force simp: readable_def)
      qed
      ultimately show ?thesis using s1 by (auto simp: threw_at_def same_tables_def)
    qed
  qed
qed

subsection \<open>No deadlock escapes\<close>

definition no_missed :: "gstate \<Rightarrow> bool" where
  "no_missed s \<longleftrightarrow> (monitoring_active s \<and> detected_deadlocks s = [] \<and> readable s \<longrightarrow> acyclic (edges (waits_of s)))"

interpretation missed_frame: env_frame no_missed
  by unfold_locales (simp add: no_missed_def readable_def)

lemma no_missed_vars: "no_missed (vars s) = no_missed s"
  by (simp add: no_missed_def readable_def vars_def)

lemma vars_waits: "vars s = vars s' \<Longrightarrow> waits_for s = waits_for s'"
  by (drule arg_cong [where f = waits_for]) (simp add: vars_def)

lemma handle_event_watches:
  "valid (\<lambda>s. table_inv s \<and> no_missed s) (handle_event os n tid) (\<lambda>v s. v = Done \<longrightarrow> no_missed s)"
proof (rule validI)
  fix s assume "table_inv s \<and> no_missed s"
  then have inv: "table_inv s" and nm: "no_missed s" by simp_all
  obtain alive s0 where a: "run_state (tid_alive os tid) s = (alive, s0)" by (metis prod.collapse)
  have v0: "vars s0 = vars s" using silentD [OF silent_main(1), of os tid s] a by simp
  obtain u s1 where h: "run_state (handle_syscall os tid) s0 = (u, s1)" by (metis prod.collapse)
  obtain v s2 where d: "run_state (detect_and_resolve_deadlocks os n) s1 = (v, s2)" by (metis prod.collapse)
  have inv0: "table_inv s0" using preservesD [OF table_frame.silent_keeps [OF silent_main(1)] inv] a by (metis snd_conv)
  have "table_inv s1" using preservesD [OF table_handle_syscall inv0] h by (metis snd_conv)
  then have wf: "wf_tables s1" by (simp add: table_inv_def)
  have "no_missed s2" if "catch_all v = Done"
  proof (cases "monitoring_active s2 \<and> detected_deadlocks s2 = []")
    case True
    with detect_covers [OF wf d] that
    have "acyclic (edges (waits_of s1)) \<and> vars s2 = vars s1 \<or> same_tables s1 s2 \<and> \<not> readable s1"
      by (auto simp: catch_all_def)
    then show ?thesis
    proof
      assume a: "acyclic (edges (waits_of s1)) \<and> vars s2 = vars s1"
      then show ?thesis using vars_waits [of s2 s1] by (simp add: no_missed_def)
    qed (auto simp: no_missed_def same_tables_def readable_def)
  qed (auto simp: no_missed_def)
  moreover have "no_missed s0" using nm v0 by (metis no_missed_vars)
  ultimately show "fst (run_state (handle_event os n tid) s) = Done \<longrightarrow> no_missed (snd (run_state (handle_event os n tid) s))"
    by (cases alive) (simp_all add: handle_event_def a h d)
qed

interpretation watch_frame: env_frame "\<lambda>s. table_inv s \<and> no_missed s"
  by unfold_locales (simp add: table_frame.frame missed_frame.frame)

lemma main_round_watches:
  "valid (\<lambda>s. table_inv s \<and> no_missed s) (main_round os n) (\<lambda>v s. v = Done \<longrightarrow> no_missed s)"
proof -
  let ?P = "\<lambda>s. table_inv s \<and> no_missed s" and ?Q = "\<lambda>v s. v = Done \<longrightarrow> no_missed s"
  note skip = watch_frame.silent_keeps [unfolded preserves_def]
  have stop: "valid ?P (ret Done) ?Q" by (simp add: valid_def)
  have event: "valid ?P (if b then handle_event os n tid else ret Done) ?Q" for b tid
    using handle_event_watches stop by simp
  have resume: "valid ?P (if b then do { usleep 1000; ret Done } else do {
      alive \<leftarrow> tid_alive os tid;
      if \<not> alive then ret Done
      else if WIFEXITED status \<or> WIFSIGNALED status then ret Done
      else do {
        resolving \<leftarrow> gets is_resolving;
        v \<leftarrow> (if syscall_stop status \<and> \<not> resolving then handle_event os n tid else ret Done);
        if v \<noteq> Done then ret v
        else do {
          resolving \<leftarrow> gets is_resolving;
          if \<not> resolving then do { resume_tid os tid; ret Done } else ret Done
        }
      }
    }) ?Q" for b tid status
  proof -
    have go_on: "preserves no_missed (do {
        resolving \<leftarrow> gets is_resolving;
        if \<not> resolving then do { resume_tid os tid; ret Done } else ret Done })"
      by (intro keeps missed_frame.silent_keeps silent_main)
    then have "valid (\<lambda>s. v = Done \<longrightarrow> no_missed s) (if v \<noteq> Done then ret v else do {
        resolving \<leftarrow> gets is_resolving;
        if \<not> resolving then do { resume_tid os tid; ret Done } else ret Done }) ?Q" for v
      by (simp add: valid_def preserves_def)
    note last = valid_bind [OF event this]
    show ?thesis
      by (rule stop valid_bind [OF skip, OF silent_calls(8)] valid_bind [OF skip, OF silent_main(1)]
          valid_bind [OF skip, OF silent_steps(2)] last valid_if)+
  qed
  show ?thesis
    unfolding main_round_def
    by (rule valid_bind [OF skip, OF silent_calls(6)], rule valid_prod, rule resume)
qed

lemma same_sets_keys: "same_sets m m' \<Longrightarrow> set (um_keys m') = set (um_keys m)"
  by (rule set_eqI) (simp add: um_keys_find same_sets_None)

lemma no_missed_rehash: "no_missed s \<Longrightarrow> same_content s s' \<Longrightarrow> no_missed s'"
proof -
  assume nm: "no_missed s" and c: "same_content s s'"
  have w: "same_sets (waits_for s) (waits_for s')" and l: "same_sets (thread_locks s) (thread_locks s')"
    using c by (simp_all add: same_content_def)
  have "edges (waits_of s') = edges (waits_of s)" using same_sets_at [OF w] by (simp add: edges_def)
  moreover have "readable s' = readable s" by (simp add: readable_def same_sets_keys [OF w] same_sets_keys [OF l])
  ultimately show ?thesis
    using nm same_content_unhandled [OF c] by (simp add: no_missed_def unhandled_def)
qed


text \<open>C3: While the monitor is switched on and has not recorded a deadlock, no deadlock has escaped it: from tables
without a cycle of waits (the empty ones of the start, for instance) it reaches no state with a cycle,
provided that each thread of the tables has an identifier with a number.\<close>

theorem no_deadlock_is_missed:
  assumes "reachable os n s0 s" and "table_inv s0" and "acyclic (edges (waits_of s0))"
    and "monitoring_active s" and "detected_deadlocks s = []" and "readable s"
  shows "acyclic (edges (waits_of s))"
proof -
  have "table_inv s \<and> no_missed s"
    using assms(1)
  proof induction
    case start
    show ?case using assms(2,3) by (simp add: no_missed_def)
  next
    case (more s s')
    from \<open>step os n s s'\<close> consider "run_state (main_round os n) s = (Done, s')" | "same_content s s'"
      by (auto elim: stepE)
    then show ?case
    proof cases
      case 1
      then show ?thesis
        using valid_run [OF main_round_watches more.IH 1] preservesD [OF table_monitor.main_round_keeps, of s os n] more.IH
        by simp
    qed (use more.IH table_inv_rehash no_missed_rehash in blast)
  qed
  with assms(4-) show ?thesis by (simp add: no_missed_def)
qed

text \<open>\<open>b[2]\<close> waits for \<open>a[1]\<close>, and the monitor gets the stop of another thread.\<close>

definition one_waits :: gstate where
  "one_waits = deadlocked_pair\<lparr>waits_for := [(''b[2]'', [''a[1]''])], futex_waiters := [(0x10000, [''b[2]''])]\<rparr>"

lemma one_waits_at: "waits_of one_waits t = (if t = ''b[2]'' then [''a[1]''] else [])"
  by (simp add: one_waits_def um_at_def um_find_def)

lemma one_waits_acyclic: "acyclic (edges (waits_of one_waits))"
proof -
  have "edges (waits_of one_waits) = {(''b[2]'', ''a[1]'')}"
    by (auto simp: edges_def one_waits_at split: if_splits)
  then show ?thesis by (simp add: acyclic_def trancl_insert)
qed

lemma one_waits_tables: "table_inv one_waits"
  by (auto simp: table_defs one_waits_def deadlocked_pair_def initial_state_def um_ok_def um_keys_def um_at_def
      um_find_def junk_addr_def split: if_splits)

theorem no_deadlock_is_missed_witness:
  "waits_of (snd (run_state (main_round signal_os 1) one_waits)) ''b[2]'' = [''a[1]'']
    \<and> acyclic (edges (waits_of (snd (run_state (main_round signal_os 1) one_waits))))"
proof -
  obtain v s where r: "run_state (main_round signal_os 1) one_waits = (v, s)" by (metis prod.collapse)
  then have v: "v = Done" and s: "vars s = vars one_waits"
    by (auto simp: main_round_def tid_alive_def resume_tid_def os_call_defs run_call signal_os_def dead_os_def
        syscall_stop_def WIFEXITED_def WIFSIGNALED_def one_waits_def deadlocked_pair_def initial_state_def vars_def)
  then have e: "waits_for s = waits_for one_waits" "thread_locks s = thread_locks one_waits"
      "monitoring_active s = monitoring_active one_waits" "detected_deadlocks s = detected_deadlocks one_waits"
    unfolding vars_eq_iff by auto
  have "step signal_os 1 one_waits s"
    using r v by (intro step.round) (simp_all add: signal_os_def dead_os_def)
  from no_deadlock_is_missed [OF reachable.more [OF reachable.start this] one_waits_tables one_waits_acyclic]
  have "acyclic (edges (waits_of s))"
    unfolding readable_def e
    by (auto simp: one_waits_def deadlocked_pair_def initial_state_def um_keys_def sample_ids)
  then show ?thesis unfolding r snd_conv e by (simp add: one_waits_at)
qed

end
