(* ===== verification/Monitor_Life.thy ===== *)
theory Monitor_Life
  imports Main_Loop
begin

text \<open>
  The life of the monitor as the trace of its calls shows it: the attachment, the rounds of the loop, the
  shutdown. The processes that \<open>fork\<close> makes run the same program from there on; \<open>forked\<close> tells whether a run
  is the run of such a child. Only a child can leave the loop without a signal, and then undefined behaviour is all
  that can keep the monitor from its shutdown.
\<close>

subsection \<open>Results that only a child returns\<close>

definition forked :: "gstate \<Rightarrow> bool" where
  "forked s \<longleftrightarrow> Fork 0 \<in> set (trace s)"

definition child_only :: "('a \<Rightarrow> bool) \<Rightarrow> 'a prog \<Rightarrow> bool" where
  "child_only Q m \<longleftrightarrow> valid (\<lambda>_. True) m (\<lambda>r s. Q r \<longrightarrow> forked s)"

lemma grows_forked: "grows m \<Longrightarrow> forked s \<Longrightarrow> forked (snd (run_state m s))"
  using growsD [of m s] by (auto simp: forked_def)

lemma child_ret: "\<not> Q x \<Longrightarrow> child_only Q (ret x)"
  by (simp add: child_only_def valid_def)

lemma child_bind: "(\<And>x. child_only Q (f x)) \<Longrightarrow> child_only Q (State_Monad.bind m f)"
  unfolding child_only_def by (rule valid_bind [where R = "\<lambda>_ _. True"]) (simp_all add: valid_def)

lemma child_if: "(b \<Longrightarrow> child_only Q m) \<Longrightarrow> (\<not> b \<Longrightarrow> child_only Q n) \<Longrightarrow> child_only Q (if b then m else n)"
  by simp

lemma child_option:
  "(v = None \<Longrightarrow> child_only Q m) \<Longrightarrow> (\<And>x. v = Some x \<Longrightarrow> child_only Q (f x)) \<Longrightarrow> child_only Q (case_option m f v)"
  by (cases v) simp_all

lemma child_sum:
  "(\<And>x. v = Inl x \<Longrightarrow> child_only Q (f x)) \<Longrightarrow> (\<And>x. v = Inr x \<Longrightarrow> child_only Q (g x)) \<Longrightarrow> child_only Q (case_sum f g v)"
  by (cases v) simp_all

lemma child_prod: "(\<And>x y. v = (x, y) \<Longrightarrow> child_only Q (f x y)) \<Longrightarrow> child_only Q (case_prod f v)"
  by (cases v) simp

text \<open>The first program returned such a result, and the second only adds to the trace; or the second does.\<close>

lemma child_step:
  assumes "child_only R m" and "\<And>x. R x \<Longrightarrow> grows (f x)" and "\<And>x. \<not> R x \<Longrightarrow> child_only Q (f x)"
  shows "child_only Q (State_Monad.bind m f)"
  unfolding child_only_def
proof (rule valid_bind)
  show "valid (\<lambda>_. True) m (\<lambda>x s. R x \<longrightarrow> forked s)" using assms(1) by (simp add: child_only_def)
  show "valid (\<lambda>s. R x \<longrightarrow> forked s) (f x) (\<lambda>r s. Q r \<longrightarrow> forked s)" for x
    using grows_forked [OF assms(2), of x] assms(3) [of x] by (cases "R x") (simp_all add: child_only_def valid_def)
qed

lemma child_fork: "child_only (\<lambda>p. p = 0) (fork os)"
  by (simp add: child_only_def valid_def fork_def run_call forked_def)

lemmas child_rules = child_bind child_if child_option child_sum child_prod

lemma child_resolve: "child_only (\<lambda>r. \<exists>c. r = Exited c) (resolve_deadlock_strategy1 os d)"
proof -
  let ?Q = "\<lambda>r. \<exists>c. r = Exited c"
  have after: "child_only ?Q (after_shadow os victim name locks tids shadow)" for victim name locks tids shadow
    unfolding after_shadow_def by (intro child_rules child_ret) simp_all
  have split: "child_only ?Q (do {
      shadow \<leftarrow> fork os;
      if shadow = 0 then shadow_process os locks tids
      else if shadow > 0 then after_shadow os victim name locks tids shadow
      else do { set_active True; ret (Returned False) } })" for victim name locks tids
    by (rule child_step [OF child_fork])
      (auto intro!: silent_grows silent_threads child_rules after child_ret)
  have "child_only ?Q (break_with_victim os d v)" for v
    unfolding break_with_victim_def
    by (intro child_prod child_if split child_bind [where m = "set_active _"] child_bind [where m = "gets _"]
        child_bind [where m = "list_threads _ _"] child_bind [where m = "for_each _ _"] child_bind [where m = "kill _ _ _"]
        child_bind [where m = "usleep _"] child_ret) simp
  then show ?thesis
    unfolding resolve_deadlock_strategy1_def by (intro child_rules child_ret) simp_all
qed

text \<open>The verdicts of a child.\<close>

abbreviation child_verdict :: "verdict \<Rightarrow> bool" where
  "child_verdict v \<equiv> v = Guarding \<or> (\<exists>c. v = Process_exit c)"

lemma child_report: "child_only child_verdict (report_cycle os cyc)"
proof -
  have t: "child_only (\<lambda>r. \<exists>v. r = Inl v \<and> child_verdict v) (try_resolve os d)" for d
    unfolding try_resolve_def
    by (rule child_step [OF child_resolve])
      (auto intro!: grows_rules child_rules child_ret split: outcome.split)
  have t2: "child_only child_verdict (do {
      r \<leftarrow> try_resolve os d;
      case r of
        Inl v \<Rightarrow> ret v
      | Inr b \<Rightarrow> do {
          modify (\<lambda>s. s\<lparr>detected_deadlocks := detected_deadlocks s @ [d\<lparr>resolved := b\<rparr>]\<rparr>);
          ret Done
        }
    })" for d
    by (rule child_step [OF t]) (auto intro!: grows_rules child_sum child_ret child_bind)
  show ?thesis
    unfolding report_cycle_def Let_def
    by (intro t2 child_if child_bind [where m = "gets _"] child_bind [where m = "modify _"]
        child_bind [where m = "system_clock_now _"] child_ret) simp_all
qed

lemma child_scan: "child_only child_verdict (scan_threads os ts V S)"
proof (induction ts arbitrary: V S)
  case (Cons t ts)
  show ?case
    unfolding scan_threads.simps
    by (intro child_if child_bind [where m = "gets _"] child_prod child_step [OF child_report] Cons child_ret)
      (auto intro!: grows_rules grows_scan)
qed (simp add: child_ret)

lemma child_detect: "child_only child_verdict (detect_and_resolve_deadlocks os n)"
proof -
  have split: "child_only (\<lambda>r. r = None) (do {
      child \<leftarrow> fork os;
      if child = 0 then guardian os n target
      else do { there \<leftarrow> access os (proc_path target); ret (Some True) } })" for target
    by (rule child_step [OF child_fork]) (auto intro!: silent_grows silent_guardian child_bind child_ret)
  have group: "child_only (\<lambda>r. r = None) (resolve_group_deadlock os n gd)" for gd
    unfolding resolve_group_deadlock_def
    by (intro split child_bind [where m = "gets _"] child_bind [where m = "list_threads _ _"]
        child_bind [where m = "for_each _ _"] child_bind [where m = "usleep _"] child_bind [where m = "still_traced _ _ _"]
        child_bind [where m = "run_helper _ _ _"] child_bind [where m = "set_active _"]
        child_bind [where m = "unlock_all _ _ _"])
  have groups: "child_only (\<lambda>r. \<exists>v. r = Some v \<and> child_verdict v) (resolve_by_groups os n info)" for info
    unfolding resolve_by_groups_def
    by (intro child_if child_bind [where m = "modify _"] child_step [OF group] child_ret)
      (auto intro!: grows_rules child_ret split: option.split)
  show ?thesis
    unfolding detect_and_resolve_deadlocks_def
    by (intro child_if child_bind [where m = "gets _"] child_bind [where m = "system_clock_now _"] child_sum
        child_step [OF groups] child_option child_ret child_scan)
      (auto intro!: grows_rules grows_scan)
qed

lemma grows_main: "grows (handle_event os n tid)" "grows (main_round os n)" "grows (main_loop os n k)"
proof -
  show event: "grows (handle_event os n tid)" for tid
    unfolding handle_event_def
    by (rule grows_rules grows_handle_syscall grows_detect silent_main [THEN silent_grows])+
  show round: "grows (main_round os n)"
    unfolding main_round_def
    by (rule event grows_rules silent_main [THEN silent_grows])+
  show "grows (main_loop os n k)"
    by (induction k) (auto intro!: grows_rules round simp: interrupted_def)
qed

lemma child_round: "child_only child_verdict (main_round os n)"
proof -
  have "child_only child_verdict (handle_event os n tid)" for tid
    unfolding handle_event_def
    by (intro child_if child_bind [where m = "tid_alive _ _"] child_bind [where m = "handle_syscall _ _"]
        child_step [OF child_detect] child_ret)
      (auto intro!: grows_rules simp: catch_all_def split: verdict.splits)
  then have event: "child_only child_verdict (if b then handle_event os n tid else ret Done)" for b tid
    by (simp add: child_ret)
  show ?thesis
    unfolding main_round_def
    by (intro child_if child_prod child_bind [where m = "waitpid _ _ _"] child_bind [where m = "usleep _"]
        child_bind [where m = "tid_alive _ _"] child_bind [where m = "gets _"] child_bind [where m = "resume_tid _ _"]
        child_step [OF event] child_ret)
      (auto intro!: grows_rules silent_main [THEN silent_grows])
qed

lemma child_loop: "child_only (\<lambda>r. \<exists>v. r = Some v \<and> child_verdict v) (main_loop os n k)"
proof (induction k)
  case (Suc k)
  show ?case
    unfolding main_loop.simps interrupted_def
    by (intro child_if child_bind [where m = "gets _"] child_step [OF child_round] child_ret Suc)
      (auto intro!: grows_rules grows_main)
qed (simp add: child_ret)

subsection \<open>From the attachment to the shutdown\<close>

lemma main_loop_verdicts: "returns (\<lambda>r. \<forall>v. r = Some v \<longrightarrow> v \<in> round_verdicts) (main_loop os n k)"
proof (induction k)
  case (Suc k)
  show ?case
    unfolding main_loop.simps interrupted_def
    by (intro returns_if returns_bind [where m = "gets _"] returns_step [OF main_round_verdicts] returns_ret Suc)
      (auto simp: round_verdicts_def)
qed (simp add: returns_ret)

text \<open>C4: The monitor attaches to the threads of the target, one after the other in their order, before anything else. When
its program ends, and it is not a child made by \<open>fork\<close>, then it has met undefined behaviour in the detection, or it exits
with 0, and its last calls have interrupted every thread of the target that is not gone and have detached from it:
no other path leads out of the program.\<close>

theorem monitor_attaches_and_detaches:
  assumes "2 \<le> length argv" and "run_state (main_program os n k argv) s = (Some v, s')" and "\<not> forked s'"
  shows "\<exists>dir attach rest. attach_trace (atoi (argv ! 1)) dir attach \<and> trace s' = rest @ attach @ trace s
    \<and> (v = Raised Iterator_invalidated
       \<or> v = Process_exit 0 \<and> (\<exists>dir' shut rounds. shutdown_trace (atoi (argv ! 1)) dir' shut \<and> rest = shut @ rounds))"
proof -
  let ?pid = "atoi (argv ! 1)"
  obtain u s1 where a: "run_state (attach_all_threads os ?pid) s = (u, s1)" by (metis prod.collapse)
  obtain r s2 where l: "run_state (main_loop os n k) s1 = (r, s2)" by (metis prod.collapse)
  obtain attach where attach: "attach_trace ?pid (os_dir os (trace s) (task_dir ?pid)) attach" "trace s1 = attach @ trace s"
    using attach_all_threads_trace [of ?pid os s] a by auto
  obtain rounds where rounds: "trace s2 = rounds @ trace s1"
    using growsD [OF grows_main(3), of os n k s1] l by auto
  have run: "(Some v, s') = (if r = Some Done then (Some (Process_exit 0), snd (run_state (shutdown_clean os ?pid) s2)) else (r, s2))"
    using assms(1,2) a l by (simp add: main_program_def Let_def split: if_splits prod.splits)
  show ?thesis
  proof (cases "r = Some Done")
    case True
    obtain shut where "shutdown_trace ?pid (os_dir os (trace s2) (task_dir ?pid)) shut"
      "trace (snd (run_state (shutdown_clean os ?pid) s2)) = shut @ trace s2"
      using shutdown_clean_trace [of ?pid os s2] by blast
    with True run attach rounds show ?thesis by (intro exI [of _ "shut @ rounds"] exI conjI) auto
  next
    case False
    with run have r: "r = Some v" "s' = s2" by auto
    then have "v \<in> round_verdicts" using returnsD [OF main_loop_verdicts, of os n k s1] l by simp
    moreover have "\<not> child_verdict v"
      using valid_run [OF child_loop [unfolded child_only_def] TrueI l] r assms(3) by blast
    ultimately have "v = Raised Iterator_invalidated" using False r by (auto simp: round_verdicts_def)
    with attach rounds r show ?thesis by (intro exI [of _ rounds] exI conjI) auto
  qed
qed

text \<open>The monitor attaches to thread 7, is stopped by a signal before its first round, and detaches.\<close>

definition stopping_os :: os where
  "stopping_os = dead_os\<lparr>os_dir := \<lambda>_ _. Some [''.'', ''..'', ''7''], os_kill := \<lambda>_ _ _. 0, os_ptrace := \<lambda>_ _ _. 0,
     os_interrupted := \<lambda>_. True\<rparr>"

lemma stopping_run:
  "fst (run_state (main_program stopping_os 1 1 [''monitor'', ''7'']) initial_state) = Some (Process_exit 0)"
  "\<not> forked (snd (run_state (main_program stopping_os 1 1 [''monitor'', ''7'']) initial_state))"
proof -
  have l: "list_tids (Some [''.'', ''..'', ''7'']) = [7]" "atoi ''7'' = 7" by code_simp+
  show "fst (run_state (main_program stopping_os 1 1 [''monitor'', ''7'']) initial_state) = Some (Process_exit 0)"
    "\<not> forked (snd (run_state (main_program stopping_os 1 1 [''monitor'', ''7'']) initial_state))"
    by (simp_all add: main_program_def attach_all_threads_def attach_thread_def shutdown_clean_def list_threads_def
        if_alive_def tid_alive_def interrupted_def os_call_defs run_call l stopping_os_def dead_os_def initial_state_def forked_def)
qed

theorem monitor_attaches_and_detaches_witness:
  "\<exists>dir shut rest. shutdown_trace 7 dir shut
    \<and> trace (snd (run_state (main_program stopping_os 1 1 [''monitor'', ''7'']) initial_state)) = shut @ rest"
proof -
  let ?s = "snd (run_state (main_program stopping_os 1 1 [''monitor'', ''7'']) initial_state)"
  have l: "atoi ''7'' = 7" by code_simp
  have run: "run_state (main_program stopping_os 1 1 [''monitor'', ''7'']) initial_state = (Some (Process_exit 0), ?s)"
    using stopping_run(1) by (metis prod.collapse)
  obtain dir shut attach rounds where "shutdown_trace 7 dir shut" "trace ?s = (shut @ rounds) @ attach @ trace initial_state"
    using monitor_attaches_and_detaches [OF _ run stopping_run(2)] by (auto simp: l)
  then show ?thesis by (intro exI [of _ dir] exI [of _ shut] exI [of _ "rounds @ attach @ trace initial_state"]) simp
qed

subsection \<open>The program ends\<close>

text \<open>A guardian guards process 0, whose entry in \<open>/proc\<close> it does not find; so it ends at once.\<close>

lemma scan_not_guarding: "fst (run_state (scan_threads os ts V S) s) \<noteq> Guarding"
  using returnsD [OF scan_verdicts, of os ts V S s] by (auto simp: detection_verdict_def)

lemma detect_not_guarding:
  assumes "target_ends os (target_pid s) n"
  shows "fst (run_state (detect_and_resolve_deadlocks os (Suc n)) s) \<noteq> Guarding"
proof -
  have group: "fst (run_state (resolve_by_groups os (Suc n) info) t) \<noteq> Some Guarding" if "target_pid t = target_pid s" for info t
  proof -
    let ?t = "t\<lparr>deadlock_counter := deadlock_counter t + 1\<rparr>"
    have "fst (run_state (resolve_group_deadlock os (Suc n) info) ?t) = Some True"
      by (rule group_resolution_returns) (simp add: that assms)
    then show ?thesis by (auto simp: resolve_by_groups_def split: prod.splits)
  qed
  let ?s = "s\<lparr>trace := System_clock (os_system_clock os (trace s)) # trace s\<rparr>"
  show ?thesis
  proof (cases "detect_group_deadlock s")
    case (Inr info)
    obtain r s1 where "run_state (resolve_by_groups os (Suc n) info) ?s = (r, s1)" by (metis prod.collapse)
    then show ?thesis
      using group [of ?s info] scan_not_guarding [of os] Inr
      by (auto simp: detect_and_resolve_deadlocks_def os_call_defs run_call split: option.splits)
  qed (simp add: detect_and_resolve_deadlocks_def os_call_defs run_call)
qed

lemma valid_skip: "preserves I m \<Longrightarrow> (\<And>x. valid I (f x) Q) \<Longrightarrow> valid I (State_Monad.bind m f) Q"
  unfolding preserves_def by (rule valid_bind)

lemma loop_not_guarding:
  assumes "target_ends os p n"
  shows "valid (\<lambda>s. target_pid s = p) (main_loop os (Suc n) k) (\<lambda>r _. r \<noteq> Some Guarding)"
proof -
  let ?I = "\<lambda>s. target_pid s = p"
  have detect: "valid ?I (detect_and_resolve_deadlocks os (Suc n)) (\<lambda>v _. v \<noteq> Guarding)"
    using detect_not_guarding assms by (auto intro: validI)
  have "valid ?I (handle_event os (Suc n) tid) (\<lambda>v _. v \<noteq> Guarding)" for tid
    unfolding handle_event_def
    by (intro valid_if valid_skip target_monitor.handled target_detection.silent_keeps silent_main valid_bind [OF detect])
      (auto simp: valid_def catch_all_def split: verdict.splits)
  then have event: "valid ?I (if b then handle_event os (Suc n) tid else ret Done) (\<lambda>v s. v \<noteq> Guarding)" for b tid
    by (simp add: valid_def)
  have round: "valid ?I (main_round os (Suc n)) (\<lambda>v s. v \<noteq> Guarding)"
    unfolding main_round_def
    by (intro valid_if valid_prod valid_skip [where m = "waitpid _ _ _"] valid_skip [where m = "usleep _"]
        valid_skip [where m = "tid_alive _ _"] valid_skip [where m = "gets _"] target_detection.calls_keep
        target_detection.silent_keeps silent_main preserves_gets valid_bind [OF event])
      (auto simp: valid_def split: prod.splits)
  have "valid ?I (main_round os (Suc n)) (\<lambda>v s. v \<noteq> Guarding \<and> ?I s)"
    using round target_monitor.main_round_keeps [of p os "Suc n"] by (simp add: valid_def preserves_def)
  note round = this
  show ?thesis
  proof (induction k)
    case (Suc k)
    show ?case
      unfolding main_loop.simps interrupted_def
      by (intro valid_skip [where m = "gets _"] preserves_gets valid_if valid_bind [OF round])
        (use Suc in \<open>auto simp: valid_def\<close>)
  qed (simp add: valid_def)
qed

text \<open>C21: Linux has no process 0, so nothing is found at \<open>/proc/0\<close>. When \<open>should_exit\<close> is set by the time that \<open>L\<close> calls
have been made, the program ends within \<open>L + 1\<close> rounds of its loop, and no guardian runs on: the process exits with 0, as
the monitor or as a shadow process, unless the detection has run into undefined behaviour, the erased iterator of
its loop.\<close>

theorem main_program_ends:
  assumes "\<And>tr. \<not> os_access os tr (proc_path 0)"
    and "\<And>tr. L \<le> length tr \<Longrightarrow> os_interrupted os tr" and "2 \<le> length argv"
  shows "fst (run_state (main_program os (Suc n) (Suc L) argv) initial_state)
    \<in> {Some (Process_exit 0), Some (Raised Iterator_invalidated)}"
proof -
  let ?pid = "atoi (argv ! 1)"
  obtain s1 where a: "run_state (attach_all_threads os ?pid) initial_state = ((), s1)"
    by (cases "run_state (attach_all_threads os ?pid) initial_state") simp
  have "target_pid s1 = 0"
    using preservesD [OF target_detection.silent_keeps [OF silent_main(4)], of initial_state 0 os ?pid] a
    by (simp add: initial_state_def)
  obtain v s2 where l: "run_state (main_loop os (Suc n) (Suc L)) s1 = (Some v, s2)" "v \<in> round_verdicts"
    using main_loop_ends [of L os s1 L "Suc n", OF assms(2)]
    by (cases "run_state (main_loop os (Suc n) (Suc L)) s1") (auto simp del: main_loop.simps)
  have "target_ends os 0 n" using assms(1) by (simp add: target_ends_def)
  from valid_run [OF loop_not_guarding [OF this] _ l(1)] \<open>target_pid s1 = 0\<close> have "v \<noteq> Guarding" by simp
  moreover have "run_state (main_program os (Suc n) (Suc L) argv) initial_state = (if v = Done
      then (Some (Process_exit 0), snd (run_state (shutdown_clean os ?pid) s2)) else (Some v, s2))"
    using assms(3) a l(1) by (simp add: main_program_def Let_def del: main_loop.simps split: prod.splits)
  ultimately show ?thesis using l(2) by (auto simp: round_verdicts_def)
qed

text \<open>Stops are delivered all the time, until the signal comes.\<close>

theorem main_program_ends_witness:
  "fst (run_state (main_program (signal_os\<lparr>os_interrupted := \<lambda>tr. 30 \<le> length tr\<rparr>) 1 31 [''monitor'', ''42'']) initial_state)
    \<in> {Some (Process_exit 0), Some (Raised Iterator_invalidated)}"
  using main_program_ends [of "signal_os\<lparr>os_interrupted := \<lambda>tr. 30 \<le> length tr\<rparr>" 30 "[''monitor'', ''42'']" 0]
  by (simp add: signal_os_def dead_os_def numeral_eq_Suc del: main_loop.simps)

end
