(* ===== verification/No_Exceptions.thy ===== *)
theory No_Exceptions
  imports Deadlock_Watch
begin

text \<open>
  The handler \<open>catch (...)\<close> of \<open>main\<close> around the detection. What it can catch comes from the names of the threads alone:
  as long as no thread puts a bracket into its name, every identifier can be read back and no exception is
  thrown in any reachable state, through all the cycles that a detection resolves.
\<close>

subsection \<open>Names without brackets\<close>

definition no_brackets :: "string \<Rightarrow> bool" where
  "no_brackets name \<longleftrightarrow> CHR ''['' \<notin> set name \<and> CHR '']'' \<notin> set name"

text \<open>\<open>comm\<close> files without brackets, and thread ids of the type \<open>pid_t\<close>.\<close>

definition comm_plain :: "os \<Rightarrow> bool" where
  "comm_plain os \<longleftrightarrow> (\<forall>tr path text. os_file os tr (path @ ''/comm'') = Some text \<longrightarrow> no_brackets text)"

definition is_pid_t :: "pid \<Rightarrow> bool" where
  "is_pid_t p \<longleftrightarrow> - 2147483648 \<le> p \<and> p \<le> 2147483647"

definition cache_plain :: "gstate \<Rightarrow> bool" where
  "cache_plain s \<longleftrightarrow> (\<forall>tid info. um_find (thread_info_cache s) tid = Some info \<longrightarrow> no_brackets (info_name info))"

definition readable_name :: "string \<Rightarrow> bool" where
  "readable_name t \<longleftrightarrow> (\<exists>tid. extract_tid_from_identifier t = Inr tid)"

interpretation plain_frame: env_frame cache_plain
  by unfold_locales (simp add: cache_plain_def)

lemma comm_name_plain:
  assumes "\<And>c. content = Some c \<Longrightarrow> no_brackets c"
  shows "no_brackets (comm_name content)"
proof (cases content)
  case (Some c)
  have "set (comm_name content) \<subseteq> set c"
    using arg_cong [OF fgets_append [of 255 c], of set] by (auto simp: comm_name_def Some)
  then show ?thesis using assms Some by (auto simp: no_brackets_def)
qed (simp add: comm_name_def no_brackets_def)

lemma thread_name_plain: "no_brackets (''thread-'' @ to_string tid)"
  using to_string_no_bracket [of tid] by (simp add: no_brackets_def)

lemma get_thread_name_plain:
  assumes "comm_plain os" and "cache_plain s"
  shows "no_brackets (fst (run_state (get_thread_name os tid) s)) \<and> cache_plain (snd (run_state (get_thread_name os tid) s))"
proof (cases "um_find (thread_info_cache s) tid")
  case None
  have comm: "no_brackets (comm_name (os_file os tr (''/proc/'' @ p @ ''/comm'')))" for tr p
    using assms(1) [unfolded comm_plain_def, rule_format, of tr "''/proc/'' @ p"] by (intro comm_name_plain) simp
  note task = comm [of _ "to_string q @ ''/task/'' @ to_string tid" for q, simplified append_assoc]
  show ?thesis
    using None assms(2) comm [of _ "to_string tid"] task thread_name_plain
    by (auto simp: get_thread_name_def os_call_defs run_call Let_def cache_plain_def)
qed (use assms in \<open>simp add: get_thread_name_def cache_plain_def\<close>)

lemma plain_source:
  assumes "comm_plain os"
  shows "name_source os cache_plain is_pid_t readable_name"
proof
  show "valid cache_plain (get_thread_identifier os tid) (\<lambda>t s. readable_name t \<and> cache_plain s)" if "is_pid_t tid" for tid
  proof (rule validI)
    fix s assume "cache_plain s"
    from get_thread_name_plain [OF assms this, of tid] that
    show "readable_name (fst (run_state (get_thread_identifier os tid) s)) \<and> cache_plain (snd (run_state (get_thread_identifier os tid) s))"
      by (auto simp: get_thread_identifier_def readable_name_def is_pid_t_def no_brackets_def split: prod.splits
          intro!: exI [of _ tid] extract_tid_identifier)
  qed
qed (simp add: cache_plain_def)

lemma plain_identifier: "comm_plain os \<Longrightarrow> preserves cache_plain (get_thread_identifier os tid)"
  using get_thread_name_plain [of os _ tid] unfolding get_thread_identifier_def
  by (intro keeps preservesI) simp_all

subsection \<open>The detection\<close>

lemma plain_vars: "cache_plain (vars s) = cache_plain s"
  by (simp add: cache_plain_def vars_def)

lemma plain_report:
  assumes "comm_plain os"
  shows "preserves cache_plain (report_cycle os cyc)"
proof -
  have resolve: "preserves cache_plain (resolve_deadlock_strategy1 os d)" for d
  proof (rule preservesI)
    fix s assume "cache_plain s"
    moreover have "thread_info_cache v' = thread_info_cache v" if "resolution_effect d v r v'" for v r v'
      using that by (auto simp: resolution_effect_def forget_victim_def split: outcome.splits if_splits)
    ultimately have "cache_plain (vars (snd (run_state (resolve_deadlock_strategy1 os d) s)))"
      using resolve_effect_run [of d s os] plain_vars [of s] by (metis cache_plain_def)
    then show "cache_plain (snd (run_state (resolve_deadlock_strategy1 os d) s))" by (simp add: plain_vars)
  qed
  have emergency: "preserves cache_plain (emergency_deadlock_break os d)" for d
    unfolding emergency_deadlock_break_def
    by (intro keeps preserves_modify plain_identifier [OF assms] plain_frame.calls_keep plain_frame.silent_keeps
        silent_first_live) (simp add: kill_victim_def cache_plain_def)
  have outcome: "preserves cache_plain (case r of Threw f \<Rightarrow> ret (g f) | Exited c \<Rightarrow> ret (h c) | Returned b \<Rightarrow> k b)"
    if "\<And>b. preserves cache_plain (k b)" for r g h and k :: "bool \<Rightarrow> (verdict + bool) prog"
    using that by (cases r) (simp_all add: keeps)
  have "preserves cache_plain (try_resolve os d)" for d
    unfolding try_resolve_def by (rule outcome keeps resolve emergency)+
  note try_resolve = this
  show ?thesis
    unfolding report_cycle_def Let_def
    by (intro keeps preserves_modify try_resolve plain_frame.calls_keep) (simp_all add: cache_plain_def)
qed

text \<open>The invariant under which nothing throws.\<close>

definition readable_state :: "gstate \<Rightarrow> bool" where
  "readable_state s \<longleftrightarrow> table_inv s \<and> names_in readable_name s \<and> cache_plain s"

interpretation readable_frame: env_frame readable_state
  by unfold_locales (simp add: readable_state_def table_frame.frame names_frame.frame plain_frame.frame)

lemma readable_split: "readable_state = (\<lambda>s. (table_inv s \<and> names_in readable_name s) \<and> cache_plain s)"
  by (rule ext) (simp add: readable_state_def)

definition no_exception :: "verdict \<Rightarrow> bool" where
  "no_exception v \<longleftrightarrow> (\<forall>f. v = Raised f \<longrightarrow> f = Iterator_invalidated)"

lemma report_readable:
  assumes "comm_plain os" and "\<forall>t\<in>set cyc. readable_name t"
  shows "valid readable_state (report_cycle os cyc) (\<lambda>v s. no_exception v \<and> readable_state s)"
proof (rule validI)
  fix s assume I: "readable_state s"
  have keep: "preserves readable_state (report_cycle os cyc)"
    unfolding readable_split
    by (rule preserves_both [OF names_detection.report_cycle_keeps plain_report [OF assms(1)]])
  obtain v s' where r: "run_state (report_cycle os cyc) s = (v, s')" by (metis prod.collapse)
  have "no_exception v"
  proof (cases "already_known cyc s")
    case True
    then show ?thesis using report_cycle_known [of cyc s os] r by (simp add: no_exception_def)
  next
    case False
    from report_cycle_ends [OF False r] show ?thesis
      using assms(2) by (auto simp: no_exception_def threw_at_def readable_name_def)
  qed
  then show "no_exception (fst (run_state (report_cycle os cyc) s)) \<and> readable_state (snd (run_state (report_cycle os cyc) s))"
    using preservesD [OF keep I] r by simp
qed

lemma walk_named:
  assumes "names_in P s" and "walk (waits_of s) ts" and "2 \<le> length ts"
  shows "\<forall>t\<in>set ts. P t"
  using assms(2,3)
proof (induction ts)
  case (Cons t ts)
  then obtain u us where ts: "ts = u # us" by (cases ts) auto
  with Cons.prems have e: "u \<in> set (waits_of s t)" and w: "walk (waits_of s) ts" by (auto simp: walk_Cons)
  from e have "um_find (waits_for s) t \<noteq> None" by (cases "um_find (waits_for s) t") (auto simp: um_at_def)
  with e assms(1) have "P t" "P u" by (auto simp: names_in_def)
  with Cons.IH [OF w] ts show ?case by (cases us) auto
qed simp

lemma scan_readable:
  assumes "comm_plain os"
  shows "valid readable_state (scan_threads os ts V S) (\<lambda>v s. no_exception v \<and> readable_state s)"
proof (induction ts arbitrary: V S)
  case (Cons t ts)
  show ?case
  proof (rule validI)
    fix s assume I: "readable_state s"
    obtain found V' S' c where d: "dfs_deadlock (waits_for s) t V S [] = (found, V', S', c)" by (metis surj_pair)
    consider (skip) "\<not> um_count (waits_for s) t \<or> t \<in> V" | (none) "um_count (waits_for s) t" "t \<notin> V" "\<not> found"
      | (found) "um_count (waits_for s) t" "t \<notin> V" found by blast
    then show "no_exception (fst (run_state (scan_threads os (t # ts) V S) s)) \<and> readable_state (snd (run_state (scan_threads os (t # ts) V S) s))"
    proof cases
      case skip
      then show ?thesis using validD [OF Cons.IH I] by simp
    next
      case none
      then show ?thesis using validD [OF Cons.IH I] d by simp
    next
      case found
      then have "walk (waits_of s) (rev c)" "2 \<le> length (rev c)" using dfs_found_walk [of "waits_for s" t V S V' S' c] d by simp_all
      then have "\<forall>u\<in>set (rev c). readable_name u" using walk_named I by (auto simp only: readable_state_def)
      note rep = report_readable [OF assms this]
      obtain v s1 where r: "run_state (report_cycle os (rev c)) s = (v, s1)" by (metis prod.collapse)
      with valid_run [OF rep I r] have "no_exception v" "readable_state s1" by simp_all
      then show ?thesis
        using found d r validD [OF Cons.IH, of s1] by (simp add: no_exception_def)
    qed
  qed
qed (simp add: valid_def no_exception_def)

lemma plain_detect:
  assumes "comm_plain os"
  shows "preserves cache_plain (resolve_by_groups os n info)"
    and "preserves cache_plain (detect_and_resolve_deadlocks os n)"
proof -
  have scan: "preserves cache_plain (scan_threads os ts V S)" for ts V S
    by (induction ts arbitrary: V S) (auto intro!: keeps plain_report [OF assms] split: prod.split)
  have "preserves cache_plain (resolve_group_deadlock os n gd)" for gd
  proof (rule preservesI)
    fix s assume "cache_plain s"
    then have "cache_plain (vars (snd (run_state (resolve_group_deadlock os n gd) s)))"
      using group_effect_run [of os n gd s] by (simp add: plain_vars) (simp add: cache_plain_def vars_def)
    then show "cache_plain (snd (run_state (resolve_group_deadlock os n gd) s))" by (simp add: plain_vars)
  qed
  then show groups: "preserves cache_plain (resolve_by_groups os n info)" for info
    unfolding resolve_by_groups_def by (intro keeps preserves_modify) (simp add: cache_plain_def)
  show "preserves cache_plain (detect_and_resolve_deadlocks os n)"
    unfolding detect_and_resolve_deadlocks_def
    by (intro keeps plain_frame.calls_keep scan groups)
qed

lemma detect_readable:
  assumes "comm_plain os"
  shows "valid readable_state (detect_and_resolve_deadlocks os n) (\<lambda>v s. no_exception v \<and> readable_state s)"
proof (rule validI)
  fix s assume I: "readable_state s"
  let ?s = "s\<lparr>trace := System_clock (os_system_clock os (trace s)) # trace s\<rparr>"
  have keep: "preserves readable_state (detect_and_resolve_deadlocks os n)"
    "preserves readable_state (resolve_by_groups os n info)" for info
    unfolding readable_split
    by (intro preserves_both names_detection.detect_keeps names_detection.resolve_by_groups_keeps plain_detect assms)+
  have "wf_tables s" using I by (simp add: readable_state_def table_inv_def)
  moreover have "\<exists>tid. extract_tid_from_identifier t = Inr tid"
    if "t \<in> set (um_keys (thread_locks s)) \<union> set (um_keys (waits_for s))" for t
    using that I by (auto simp: readable_state_def names_in_def readable_name_def um_keys_find)
  ultimately obtain info where info: "detect_group_deadlock s = Inr info" using detect_group_deadlock_exists by blast
  obtain r s1 where r: "run_state (resolve_by_groups os n info) ?s = (r, s1)" by (metis prod.collapse)
  have "readable_state ?s" using I by (simp add: readable_frame.frame)
  then have s1: "readable_state s1" using preservesD [OF keep(2)] r by (metis snd_conv)
  have "no_exception v" if "r = Some v" for v
    using that r by (auto simp: resolve_by_groups_def no_exception_def split: prod.splits option.splits if_splits)
  then have "no_exception (fst (run_state (detect_and_resolve_deadlocks os n) s))"
    using info r validD [OF scan_readable [OF assms] s1]
    by (auto simp: detect_and_resolve_deadlocks_def os_call_defs run_call no_exception_def split: option.splits)
  then show "no_exception (fst (run_state (detect_and_resolve_deadlocks os n) s))
    \<and> readable_state (snd (run_state (detect_and_resolve_deadlocks os n) s))"
    using preservesD [OF keep(1) I] by blast
qed

subsection \<open>The whole run\<close>

definition pids_fit :: "os \<Rightarrow> bool" where
  "pids_fit os \<longleftrightarrow> (\<forall>tr p options. is_pid_t (fst (os_waitpid os tr p options)))"

lemma syscall_readable:
  assumes "comm_plain os" and "is_pid_t tid"
  shows "preserves readable_state (handle_syscall os tid)"
  using preserves_both [OF table_handle_syscall name_source.named_handle_syscall [OF plain_source [OF assms(1)] assms(2)]]
  by (simp add: readable_state_def [abs_def] conj_ac)

lemma round_readable:
  assumes "comm_plain os" and "pids_fit os"
  shows "preserves readable_state (main_round os n)"
proof -
  have detect: "preserves readable_state (detect_and_resolve_deadlocks os n)"
    using detect_readable [OF assms(1)] by (simp add: preserves_def valid_def)
  have event: "preserves readable_state (handle_event os n tid)" if "is_pid_t tid" for tid
    unfolding handle_event_def
    by (intro keeps readable_frame.silent_keeps silent_main detect syscall_readable [OF assms(1) that])
  have "returns (\<lambda>w. is_pid_t (fst w)) (waitpid os p options)" for p options
    using assms(2) by (simp add: returns_def waitpid_def run_call pids_fit_def)
  note stop = this
  note quiet = keeps readable_frame.calls_keep readable_frame.silent_keeps [OF silent_main(1)]
    readable_frame.silent_keeps [OF silent_main(2)]
  show ?thesis
    unfolding main_round_def
  proof (rule preserves_step [OF stop readable_frame.calls_keep(6)])
    fix w :: "pid \<times> int" assume w: "is_pid_t (fst w)"
    show "preserves readable_state (case w of (tid, status) \<Rightarrow>
        if tid \<le> 0 then do { usleep 1000; ret Done }
        else do {
          alive \<leftarrow> tid_alive os tid;
          if \<not> alive then ret Done
          else if WIFEXITED status \<or> WIFSIGNALED status then ret Done
          else do {
            resolving \<leftarrow> gets is_resolving;
            v \<leftarrow> (if syscall_stop status \<and> \<not> resolving then handle_event os n tid else ret Done);
            if v \<noteq> Done then ret v
            else do {
              resolving \<leftarrow> gets is_resolving;
              if \<not> resolving then do { resume_tid os tid; ret Done } else ret Done
            }
          }
        })"
      using w by (cases w) (simp only: prod.case fst_conv, (rule quiet event | assumption)+)
  qed
qed

text \<open>C19: As long as no thread has a bracket in its name (the kernel's \<open>comm\<close>) and thread ids are of the type \<open>pid_t\<close>, no
exception is thrown: in every reachable state, after the event of any thread has been handled, the detection by groups and
the search with all its resolutions meet only identifiers whose number \<open>stoi\<close> can read, so that \<open>catch (...)\<close> catches
nothing. (The erased iterator is undefined behaviour, not an exception.)\<close>

theorem no_exception_is_thrown:
  assumes "comm_plain os" and "pids_fit os" and "reachable os n initial_state s" and "is_pid_t tid"
  shows "no_exception (fst (run_state (do { handle_syscall os tid; detect_and_resolve_deadlocks os n }) s))"
proof -
  have init: "readable_state initial_state"
    by (simp add: readable_state_def initial_invs(1) names_initial) (simp add: cache_plain_def initial_state_def)
  have rehash: "readable_state s2" if "readable_state s1" "same_content s1 s2" for s1 s2
    using that by (auto simp: readable_state_def table_inv_rehash names_rehash)
      (simp add: cache_plain_def same_content_def um_sim_def)
  have "readable_state s"
    by (rule reachable_keeps [OF assms(3) init round_readable [OF assms(1,2)] rehash])
  then have "readable_state (snd (run_state (handle_syscall os tid) s))"
    by (rule preservesD [OF syscall_readable [OF assms(1,4)]])
  from validD [OF detect_readable [OF assms(1)] this, of n]
  show ?thesis by (cases "run_state (handle_syscall os tid) s") simp
qed

text \<open>Thread 7, whose name is \<open>worker\<close>, waits for a lock.\<close>

definition worker_os :: os where
  "worker_os = signal_os\<lparr>os_file := \<lambda>_ _. Some ''worker'',
     os_getregs := \<lambda>_ _. Some (User_Regs 202 0x20000 128 0)\<rparr>"

theorem no_exception_is_thrown_witness:
  "no_exception (fst (run_state (do { handle_syscall worker_os 7; detect_and_resolve_deadlocks worker_os 1 }) initial_state))"
  by (rule no_exception_is_thrown [OF _ _ reachable.start])
    (auto simp: comm_plain_def pids_fit_def is_pid_t_def no_brackets_def worker_os_def signal_os_def)

end
