(* ===== verification/Zero_Target.thy ===== *)
theory Zero_Target
  imports Main_Loop
begin

text \<open>
  What the shadowed \<open>target_pid\<close> of \<open>main\<close> comes to. The global variable keeps the value 0, and every
  resolution addresses the process with this number. Linux has no such process: \<open>process_vm_writev\<close> and ptrace
  fail with \<open>ESRCH\<close> and \<open>/proc/0/mem\<close> does not exist. Then the program never writes a word into any
  process, whatever it detects, in the monitor, in the shadow processes and in the guardian.
\<close>

definition no_process_zero :: "os \<Rightarrow> bool" where
  "no_process_zero os \<longleftrightarrow> (\<forall>tr. (\<forall>a v. \<not> os_vm_writev os tr 0 a v) \<and> (\<forall>a v. os_pwrite os tr (mem_path 0) a v = None)
     \<and> \<not> os_open os tr (mem_path 0) \<and> (\<forall>a v. os_ptrace os tr (PTRACE_POKEDATA a v) 0 \<noteq> 0))"

text \<open>A successful write into a process.\<close>

fun writes_word :: "event \<Rightarrow> bool" where
  "writes_word (Vm_writev p a v ok) = ok"
| "writes_word (Pwrite path a v r) = (r = Some True)"
| "writes_word (Ptrace (PTRACE_POKEDATA a v) p r) = (r = 0)"
| "writes_word _ = False"

definition untouched :: "gstate \<Rightarrow> bool" where
  "untouched s \<longleftrightarrow> target_pid s = 0 \<and> list_all (\<lambda>e. \<not> writes_word e) (trace s)"

subsection \<open>Calls that write nothing\<close>

lemma untouched_call: "(\<And>r. \<not> writes_word (ev r)) \<Longrightarrow> preserves untouched (call answer ev)"
  by (rule preservesI) (simp add: run_call untouched_def)

lemma untouched_calls:
  "preserves untouched (ptrace os (PTRACE_DETACH d) p)" "preserves untouched (ptrace os PTRACE_ATTACH p)"
  "preserves untouched (ptrace os PTRACE_CONT p)" "preserves untouched (ptrace os PTRACE_SYSCALL p)"
  "preserves untouched (ptrace os (PTRACE_SETOPTIONS opts) p)" "preserves untouched (ptrace os PTRACE_INTERRUPT p)"
  "preserves untouched (ptrace_getregs os p)" "preserves untouched (ptrace_peekdata os p a)"
  "preserves untouched (kill os p sig)" "preserves untouched (tgkill os q p sig)"
  "preserves untouched (waitpid os p options)" "preserves untouched (fork os)"
  "preserves untouched (usleep us)" "preserves untouched (read_file os path)" "preserves untouched (list_dir os path)"
  "preserves untouched (access os path)" "preserves untouched (process_vm_readv os p a)"
  "preserves untouched (pread os path a)" "preserves untouched (futex_wake a)" "preserves untouched (steady_clock_now os)"
  "preserves untouched (system_clock_now os)" "preserves untouched (write_file os path content)"
  "preserves untouched (open_rw os path)" "preserves untouched (getpid os)" "preserves untouched (uniform_int os lo hi)"
  "preserves untouched (interrupted os)"
  by (simp_all add: os_call_defs untouched_call getpid_def uniform_int_def interrupted_def keeps)

lemma untouched_emit: "\<not> writes_word e \<Longrightarrow> preserves untouched (emit e)"
  by (simp add: emit_def untouched_call)

lemma untouched_modify:
  "(\<And>s. target_pid (f s) = target_pid s) \<Longrightarrow> (\<And>s. trace (f s) = trace s) \<Longrightarrow> preserves untouched (modify f)"
  by (rule preserves_modify) (simp add: untouched_def)

text \<open>The variable is read as 0.\<close>

lemma untouched_target: "preserves untouched (f 0) \<Longrightarrow> preserves untouched (State_Monad.bind (gets target_pid) f)"
  by (auto simp: preserves_def valid_def untouched_def)

lemmas untouched_rules = untouched_target untouched_calls keeps

lemma untouched_zero:
  assumes "no_process_zero os"
  shows "preserves untouched (process_vm_writev os 0 a v)" "preserves untouched (pwrite os (mem_path 0) a v)"
    "preserves untouched (ptrace os (PTRACE_POKEDATA a w) 0)"
  using assms by (auto intro!: preservesI simp: os_call_defs run_call untouched_def no_process_zero_def)

subsection \<open>The unlocker\<close>

lemma untouched_unlock_once:
  assumes z: "no_process_zero os" and u: "u_target_pid u = 0"
  shows "preserves untouched (unlock_once os u a)"
proof -
  have retries: "preserves untouched (attach_retries os n p)" for n p
    unfolding attached_to_us_def by (induction n) (simp_all add: untouched_rules attached_to_us_def)
  have poke: "preserves untouched (poke_bytes os 0 as b)" for as b
    by (induction as arbitrary: b) (simp_all add: untouched_rules untouched_zero [OF z])
  have reads: "preserves untouched (is_unlocked os w a)" for w
    unfolding is_unlocked_def read_word_def by (rule untouched_rules)+
  show ?thesis
    unfolding unlock_once_def unlock_with_process_vm_def unlock_with_proc_mem_def unlock_with_ptrace_def u
    by (rule untouched_rules untouched_zero [OF z] retries poke reads)+
qed

text \<open>Every pass keeps the process of the object.\<close>

lemma zero_unlock_once: "u_target_pid u = 0 \<Longrightarrow> returns (\<lambda>r. u_target_pid (snd r) = 0) (unlock_once os u a)"
  using unlock_once_believed [of u a os] by (simp add: returns_def believed_def)

lemma zero_unlock: "u_target_pid u = 0 \<Longrightarrow> returns (\<lambda>r. u_target_pid (snd r) = 0) (unlock os n u a)"
  using unlock_believed [of u a os n] by (simp add: returns_def believed_def)

lemma untouched_attempts:
  assumes z: "no_process_zero os"
  shows "u_target_pid u = 0 \<Longrightarrow> preserves untouched (unlock_attempts os m n u a)"
proof (induction n arbitrary: u)
  case (Suc n)
  have pause: "preserves untouched (sleep_with_jitter os 10 k)" for k
    unfolding sleep_with_jitter_def Let_def by (rule untouched_rules)+
  show ?case
    unfolding unlock_attempts.simps
    by (rule preserves_step [OF zero_unlock_once untouched_unlock_once [OF z]])
      (auto intro!: untouched_rules pause Suc split: prod.splits simp: Suc.prems)
qed (simp add: keeps)

lemma untouched_unlock:
  assumes "no_process_zero os" and "u_target_pid u = 0"
  shows "preserves untouched (unlock os n u a)"
proof -
  have "preserves untouched (is_unlocked os w a)" for w
    unfolding is_unlocked_def read_word_def by (rule untouched_rules)+
  then show ?thesis
    unfolding unlock_def Let_def by (intro keeps untouched_attempts assms(1)) (simp_all add: assms(2))
qed

lemma untouched_unlock_multiple:
  assumes z: "no_process_zero os"
  shows "u_target_pid u = 0 \<Longrightarrow> preserves untouched (unlock_multiple os n u as)"
proof -
  have "u_target_pid u = 0 \<Longrightarrow> preserves untouched (for_acc as (c, u) (unlock_round os n))" for c
  proof (induction as arbitrary: c u)
    case (Cons a as)
    have "returns (\<lambda>r. u_target_pid (snd r) = 0) (unlock_round os n a (c, u))"
      unfolding unlock_round_def prod.case
      by (rule returns_step [OF zero_unlock [OF Cons.prems]]) (auto intro: returns_ret)
    moreover have "preserves untouched (unlock_round os n a (c, u))"
      unfolding unlock_round_def prod.case by (rule keeps untouched_unlock [OF z Cons.prems])+
    ultimately show ?case
      unfolding for_acc.simps by (rule preserves_step) (use Cons.IH in auto)
  qed (simp add: keeps)
  then show "u_target_pid u = 0 \<Longrightarrow> preserves untouched (unlock_multiple os n u as)"
    unfolding unlock_multiple_rounds .
qed

subsection \<open>The resolutions\<close>

lemma untouched_helpers:
  "preserves untouched (thread_exists os tid)" "preserves untouched (get_tracer_pid os tid)"
  "preserves untouched (is_thread_stopped os tid)" "preserves untouched (list_threads os p)"
  "preserves untouched (get_thread_identifier os tid)"
  unfolding thread_exists_def get_tracer_pid_def is_thread_stopped_def list_threads_def get_thread_identifier_def
    get_thread_name_def Let_def
  by (rule untouched_rules untouched_modify | simp)+

lemmas untouched_quiet = untouched_target untouched_helpers untouched_calls keeps

lemma untouched_first_live: "preserves untouched (first_live os ts)"
  by (induction ts) (simp_all add: untouched_quiet split: sum.split)

lemma untouched_cleanup_stuck: "preserves untouched (cleanup_stuck_threads os tids)"
  unfolding cleanup_stuck_threads_def cleanup_thread_def detach_foreign_def restart_ours_def reattach_once_def
  by (rule untouched_quiet)+

lemma untouched_reattach: "preserves untouched (reattach_and_resume_tracing os n tid)"
proof -
  have "preserves untouched (reattach_attempt os tid)"
    unfolding reattach_attempt_def after_attach_def after_eperm_def by (rule untouched_quiet)+
  then have "preserves untouched (reattach_attempts os m n tid)" for m n
    by (induction n) (simp_all add: untouched_quiet split: option.split)
  then show ?thesis
    unfolding reattach_and_resume_tracing_def resume_traced_def release_foreign_def last_resort_def
    by (simp add: untouched_quiet)
qed

lemma untouched_threads:
  "preserves untouched (detach_before_fork os tid)" "preserves untouched (continue_thread os tid)"
  "preserves untouched (reattach_others os victim tids)" "preserves untouched (reattach_victim os victim)"
  unfolding detach_before_fork_def continue_thread_def reattach_others_def reattach_victim_def
  by (rule untouched_quiet untouched_reattach)+

lemma untouched_active: "preserves untouched (set_active b)"
  unfolding set_active_def by (rule untouched_modify) simp_all

lemma untouched_shadow:
  assumes "no_process_zero os"
  shows "preserves untouched (shadow_process os locks tids)"
  unfolding shadow_process_def
  by (rule untouched_quiet untouched_threads untouched_unlock_multiple [OF assms] | simp add: new_unlocker_def)+

lemma untouched_resolve:
  assumes "no_process_zero os"
  shows "preserves untouched (resolve_deadlock_strategy1 os d)"
proof -
  have breaks: "preserves untouched (break_with_victim os d v)" for v
    unfolding break_with_victim_def after_shadow_def
    by (rule untouched_quiet untouched_threads untouched_active untouched_cleanup_stuck untouched_shadow [OF assms]
        untouched_modify | simp add: forget_victim_def)+
  show ?thesis
    unfolding resolve_deadlock_strategy1_def
    by (rule untouched_quiet untouched_active untouched_first_live breaks)+
qed

lemma untouched_kill_victim: "preserves untouched (modify (kill_victim name))"
  by (rule untouched_modify) (simp_all add: kill_victim_def)

lemma untouched_try:
  assumes "no_process_zero os"
  shows "preserves untouched (try_resolve os d)"
proof -
  have emergency: "preserves untouched (emergency_deadlock_break os d)"
    unfolding emergency_deadlock_break_def
    by (rule untouched_quiet untouched_first_live untouched_kill_victim)+
  have outcome: "preserves untouched (case r of Threw f \<Rightarrow> ret (g f) | Exited c \<Rightarrow> ret (h c) | Returned b \<Rightarrow> k b)"
    if "\<And>b. preserves untouched (k b)" for r g h and k :: "bool \<Rightarrow> (verdict + bool) prog"
    using that by (cases r) (simp_all add: keeps)
  show ?thesis
    unfolding try_resolve_def by (rule keeps untouched_resolve [OF assms] outcome emergency)+
qed

lemma untouched_scan:
  assumes "no_process_zero os"
  shows "preserves untouched (scan_threads os ts visited stack)"
proof -
  have report: "preserves untouched (report_cycle os cyc)" for cyc
    unfolding report_cycle_def Let_def
    by (rule untouched_quiet untouched_try [OF assms] untouched_modify | simp)+
  show ?thesis
    by (induction ts arbitrary: visited stack) (auto intro!: keeps report split: prod.split)
qed

lemma untouched_group:
  assumes z: "no_process_zero os"
  shows "preserves untouched (resolve_group_deadlock os n gd)"
proof -
  have detach: "preserves untouched (nuclear_detach os m tid)" for m tid
    by (induction m) (simp_all add: untouched_quiet)
  have steps: "preserves untouched (still_traced os 0 tids)" "preserves untouched (run_helper os 0 traced)"
    "preserves untouched (unlock_all os 0 locks)" "preserves untouched (wake_round os 0 tids)" for tids traced locks
    unfolding still_traced_def traced_by_us_def run_helper_def unlock_all_def wake_round_def
    by (rule untouched_zero [OF z] untouched_quiet untouched_emit | simp)+
  have loop: "preserves untouched (guardian_loop os m 0)" for m
    by (induction m) (simp_all add: untouched_quiet untouched_emit)
  have guard: "preserves untouched (guardian os n 0)"
    unfolding guardian_def by (rule loop untouched_quiet untouched_emit | simp)+
  show ?thesis
    unfolding resolve_group_deadlock_def
    by (rule untouched_quiet detach steps guard untouched_active)+
qed

lemma untouched_detect:
  assumes "no_process_zero os"
  shows "preserves untouched (detect_and_resolve_deadlocks os n)"
  unfolding detect_and_resolve_deadlocks_def resolve_by_groups_def
  by (rule untouched_quiet untouched_group [OF assms] untouched_scan [OF assms] untouched_modify | simp)+

subsection \<open>The whole program\<close>

lemma untouched_handle_syscall: "preserves untouched (handle_syscall os tid)"
  unfolding handle_syscall_def Let_def on_wait_def on_wake_def on_lock_def update_lock_stats_def
  by (intro untouched_quiet untouched_modify)
    (auto simp: lock_update_def stats_update_def wait_edge_def refresh_waiters_def Let_def split: option.splits)

lemma untouched_main:
  "preserves untouched (tid_alive os tid)" "preserves untouched (resume_tid os tid)"
  "preserves untouched (attach_all_threads os p)" "preserves untouched (shutdown_clean os p)"
  unfolding tid_alive_def resume_tid_def attach_all_threads_def attach_thread_def shutdown_clean_def if_alive_def
  by (rule untouched_quiet untouched_modify | simp)+

lemma untouched_round:
  assumes "no_process_zero os"
  shows "preserves untouched (main_round os n)"
  unfolding main_round_def handle_event_def
  by (rule untouched_main untouched_handle_syscall untouched_detect [OF assms] untouched_quiet)+

text \<open>C7: Linux has no process with the number 0, and \<open>target_pid\<close> is only ever assigned in the local
variable of \<open>main\<close> that shadows it. So the program resolves nothing: in every run, whatever it detects, no
\<open>process_vm_writev\<close>, no \<open>pwrite\<close> to \<open>/proc/pid/mem\<close> and no \<open>PTRACE_POKEDATA\<close> ever succeeds, in the
monitor, in the shadow processes and in the guardian.\<close>

theorem no_word_is_written:
  assumes "no_process_zero os"
  shows "list_all (\<lambda>e. \<not> writes_word e) (trace (snd (run_state (main_program os n k argv) initial_state)))"
proof -
  have "preserves untouched (main_loop os n k)"
    by (induction k) (auto intro!: untouched_quiet untouched_round [OF assms])
  then have "preserves untouched (main_program os n k argv)"
    unfolding main_program_def Let_def by (intro keeps untouched_main)
  moreover have "untouched initial_state" by (simp add: untouched_def initial_state_def)
  ultimately have "untouched (snd (run_state (main_program os n k argv) initial_state))"
    by (rule preservesD)
  then show ?thesis by (simp add: untouched_def)
qed

text \<open>A system where every call succeeds on every process but 0: there the unlocker of process 7 does write.\<close>

definition zero_os :: os where
  "zero_os = dead_os\<lparr>os_kill := \<lambda>_ _ _. 0, os_ptrace := \<lambda>_ _ p. if p = 0 then ESRCH else 0,
     os_waitpid := \<lambda>_ _ _. (7, 4991), os_vm_readv := \<lambda>_ p a. if p = 0 then None else Some 0,
     os_vm_writev := \<lambda>_ p _ _. p \<noteq> 0\<rparr>"

lemma zero_os_ok: "no_process_zero zero_os"
  by (simp add: no_process_zero_def zero_os_def dead_os_def)

lemma unlocker_of_seven_writes:
  "list_ex writes_word (trace (snd (run_state (unlock_once zero_os (new_unlocker 7) 0x5000) initial_state)))"
  by (simp add: unlock_once_def unlock_with_process_vm_def new_unlocker_def os_call_defs run_call zero_os_def dead_os_def
      initial_state_def is_unlocked_def read_word_def)

theorem no_word_is_written_witness:
  "list_all (\<lambda>e. \<not> writes_word e)
     (trace (snd (run_state (main_program zero_os 1 2 [''deadlock_interceptor'', ''7'']) initial_state)))"
  by (rule no_word_is_written [OF zero_os_ok])

end
