(* ===== verification/Lock_Report.thy ===== *)
theory Lock_Report
  imports Group_Cycles Wait_Graph
begin

text \<open>
  What two reports of \<open>detection.cpp\<close> compute: \<open>find_potential_deadlock_scenarios\<close> and the conflicts and the risk
  assessment of \<open>print_conflict_groups\<close>. The printing itself is left out.
\<close>

subsection \<open>Scenarios of two and three threads\<close>

definition find_potential_deadlock_scenarios :: "gstate \<Rightarrow> string list list" where
  "find_potential_deadlock_scenarios s =
     concat (map (\<lambda>(thread1, waits1). concat (map (\<lambda>target1.
       case um_find (waits_for s) target1 of
         None \<Rightarrow> []
       | Some waits2 \<Rightarrow> concat (map (\<lambda>target2.
           if target2 = thread1 then [[thread1, target1]]
           else (case um_find (waits_for s) target2 of
               None \<Rightarrow> []
             | Some waits3 \<Rightarrow> concat (map (\<lambda>target3.
                 if target3 = thread1 then [[thread1, target1, target2]] else []) waits3))) waits2)) waits1))
       (waits_for s))"

lemma um_find_at: "v \<in> set (um_at [] m k) \<longleftrightarrow> (\<exists>vs. um_find m k = Some vs \<and> v \<in> set vs)"
  by (cases "um_find m k") (simp_all add: um_at_def)

text \<open>Membership in what the nested loops collect.\<close>

lemma in_loops:
  "x \<in> set (concat (map f vs)) \<longleftrightarrow> (\<exists>v\<in>set vs. x \<in> set (f v))"
  "x \<in> set (concat (map (\<lambda>(a, w). h a w) m)) \<longleftrightarrow> (\<exists>a w. (a, w) \<in> set m \<and> x \<in> set (h a w))"
  "x \<in> set (case v of None \<Rightarrow> [] | Some w \<Rightarrow> g w) \<longleftrightarrow> (\<exists>w. v = Some w \<and> x \<in> set (g w))"
  "x \<in> set (if b then ys else zs) \<longleftrightarrow> (if b then x \<in> set ys else x \<in> set zs)"
  by (auto split: option.split)

lemma scenarios_spec:
  assumes "um_ok (waits_for s)"
  shows "scenario \<in> set (find_potential_deadlock_scenarios s) \<longleftrightarrow>
    (\<exists>a b. scenario = [a, b] \<and> b \<in> set (waits_of s a) \<and> a \<in> set (waits_of s b))
    \<or> (\<exists>a b c. scenario = [a, b, c] \<and> c \<noteq> a \<and> b \<in> set (waits_of s a) \<and> c \<in> set (waits_of s b) \<and> a \<in> set (waits_of s c))"
proof -
  have "scenario \<in> set (find_potential_deadlock_scenarios s) \<longleftrightarrow>
    (\<exists>a w1. um_find (waits_for s) a = Some w1 \<and> (\<exists>b\<in>set w1. \<exists>w2. um_find (waits_for s) b = Some w2 \<and> (\<exists>c\<in>set w2.
      if c = a then scenario \<in> set [[a, b]] else
      (\<exists>w3. um_find (waits_for s) c = Some w3 \<and> (\<exists>d\<in>set w3. if d = a then scenario \<in> set [[a, b, c]] else scenario \<in> set [])))))"
    unfolding find_potential_deadlock_scenarios_def in_loops(2)
    unfolding in_set_um_find [OF assms] in_loops(1,3,4) ..
  also have "\<dots> \<longleftrightarrow> (\<exists>a b. scenario = [a, b] \<and> b \<in> set (waits_of s a) \<and> a \<in> set (waits_of s b))
    \<or> (\<exists>a b c. scenario = [a, b, c] \<and> c \<noteq> a \<and> b \<in> set (waits_of s a) \<and> c \<in> set (waits_of s b) \<and> a \<in> set (waits_of s c))"
    unfolding um_find_at by (simp add: if_bool_eq_conj) blast
  finally show ?thesis .
qed

text \<open>The scenarios are exactly the pairs of threads that wait for each other and the triples that wait in
a circle, each from every one of its threads; no longer cycle is seen.\<close>

theorem scenarios_are_short_cycles:
  assumes "um_ok (waits_for s)"
  shows "set (find_potential_deadlock_scenarios s) =
    {[a, b] |a b. b \<in> set (waits_of s a) \<and> a \<in> set (waits_of s b)}
    \<union> {[a, b, c] |a b c. c \<noteq> a \<and> b \<in> set (waits_of s a) \<and> c \<in> set (waits_of s b) \<and> a \<in> set (waits_of s c)}"
  by (rule set_eqI) (simp add: scenarios_spec [OF assms])

theorem scenarios_are_short_cycles_witness:
  "[''a[1]'', ''b[2]''] \<in> set (find_potential_deadlock_scenarios deadlocked_pair)"
proof -
  have "um_ok (waits_for deadlocked_pair)" by (simp add: deadlocked_pair_def um_ok_def um_keys_def)
  from scenarios_are_short_cycles [OF this] show ?thesis
    by (simp add: deadlocked_pair_def um_at_def um_find_def)
qed

subsection \<open>The risk of two groups\<close>

datatype risk = High_risk | Medium_risk | Low_risk

definition conflict_locks :: "ConflictGroup \<Rightarrow> ConflictGroup \<Rightarrow> addr list" where
  "conflict_locks g other =
     filter (\<lambda>lock. lock \<in> set (locks_wanted other)) (locks_held g)
     @ filter (\<lambda>lock. lock \<in> set (locks_held other)) (locks_wanted g)"

definition waits_into :: "gstate \<Rightarrow> ConflictGroup \<Rightarrow> ConflictGroup \<Rightarrow> bool" where
  "waits_into s g h = list_ex (\<lambda>thread. list_ex (\<lambda>target. target \<in> set (threads h)) (waits_of s thread)) (threads g)"

definition risk_of :: "gstate \<Rightarrow> ConflictGroup \<Rightarrow> ConflictGroup \<Rightarrow> risk" where
  "risk_of s g h =
     (if waits_into s g h \<and> waits_into s h g then High_risk
      else if waits_into s g h \<or> waits_into s h g then Medium_risk
      else Low_risk)"

definition risk_assessment :: "gstate \<Rightarrow> ConflictGroup list \<Rightarrow> (nat \<times> nat \<times> risk) list" where
  "risk_assessment s groups = concat (map (\<lambda>(i, j).
     if conflicts_with (groups ! i) (groups ! j) then [(i, j, risk_of s (groups ! i) (groups ! j))] else [])
     (index_pairs (length groups)))"

text \<open>The locks that the report names for two conflicting groups: there is always one.\<close>

lemma conflict_locks_named: "conflicts_with g h \<longleftrightarrow> conflict_locks g h \<noteq> []"
  by (auto simp: conflicts_with_def conflict_locks_def list_ex_iff filter_empty_conv)

text \<open>A group waits into another exactly when the graph of the groups has this edge.\<close>

lemma waits_into_edge:
  assumes "wf_tables s" and "i < length (analyze_conflict_groups s)" and "j < length (analyze_conflict_groups s)"
    and "i \<noteq> j" and "length (analyze_conflict_groups s) \<le> size_max"
  shows "waits_into s (analyze_conflict_groups s ! i) (analyze_conflict_groups s ! j)
    \<longleftrightarrow> j \<in> set (um_at [] (group_wait_graph s) i)"
proof
  assume "waits_into s (analyze_conflict_groups s ! i) (analyze_conflict_groups s ! j)"
  then obtain t u where t: "t \<in> set (threads (analyze_conflict_groups s ! i))" "u \<in> set (waits_of s t)"
    "u \<in> set (threads (analyze_conflict_groups s ! j))" by (auto simp: waits_into_def list_ex_iff)
  then have "group_edge (analyze_conflict_groups s) t u i j"
    using assms by (simp add: group_edge_def group_of_member)
  with t(2) show "j \<in> set (um_at [] (group_wait_graph s) i)"
    unfolding group_wait_graph_set waits_for_entries [OF assms(1)] by blast
next
  assume "j \<in> set (um_at [] (group_wait_graph s) i)"
  from group_wait_graph_edge(4) [OF assms(1) this] show "waits_into s (analyze_conflict_groups s ! i) (analyze_conflict_groups s ! j)"
    by (auto simp: waits_into_def list_ex_iff)
qed

lemma risk_assessment_set:
  "(i, j, r) \<in> set (risk_assessment s gs) \<longleftrightarrow>
    i < j \<and> j < length gs \<and> conflicts_with (gs ! i) (gs ! j) \<and> r = risk_of s (gs ! i) (gs ! j)"
  by (auto simp: risk_assessment_def set_index_pairs split: if_splits)

text \<open>Two groups are assessed as a high risk exactly when they conflict and are a cycle of length two in
the graph that the group detection searches, and as a low risk when they conflict and have no edge.\<close>

theorem high_risk_is_group_cycle:
  assumes "wf_tables s" and "length (analyze_conflict_groups s) \<le> size_max"
    and "i < j" and "j < length (analyze_conflict_groups s)"
    and "conflicts_with (analyze_conflict_groups s ! i) (analyze_conflict_groups s ! j)"
  shows "((i, j, High_risk) \<in> set (risk_assessment s (analyze_conflict_groups s))
      \<longleftrightarrow> (i, j) \<in> edges (um_at [] (group_wait_graph s)) \<and> (j, i) \<in> edges (um_at [] (group_wait_graph s)))
    \<and> ((i, j, Low_risk) \<in> set (risk_assessment s (analyze_conflict_groups s))
      \<longleftrightarrow> (i, j) \<notin> edges (um_at [] (group_wait_graph s)) \<and> (j, i) \<notin> edges (um_at [] (group_wait_graph s)))"
  using assms waits_into_edge [OF assms(1), of i j] waits_into_edge [OF assms(1), of j i]
  by (simp add: risk_assessment_set risk_of_def edges_def)

theorem high_risk_is_group_cycle_witness:
  "(0, 1, High_risk) \<in> set (risk_assessment deadlocked_pair (analyze_conflict_groups deadlocked_pair))"
proof -
  let ?gs = "analyze_conflict_groups deadlocked_pair"
  have "conflicts_with (?gs ! 0) (?gs ! 1)" "length ?gs \<le> size_max" "1 < length ?gs"
    by (simp_all add: deadlocked_pair_groups conflicts_with_def size_max_def)
  moreover have "(0, 1) \<in> edges (um_at [] (group_wait_graph deadlocked_pair))" "(1, 0) \<in> edges (um_at [] (group_wait_graph deadlocked_pair))"
    by (simp_all add: deadlocked_pair_group_graph edges_def um_at_def um_find_def)
  ultimately show ?thesis using high_risk_is_group_cycle [OF deadlocked_pair_wf, of 0 1] by simp
qed

end
