(* ===== verification/Lock_Dependency.thy ===== *)
theory Lock_Dependency
  imports Lock_Report
begin

text \<open>
  \<open>analyze_lock_dependency_graph\<close> of \<open>detection.cpp\<close>: the waits between the groups, their graph, and the
  search for its cycles, without the printing. The search is the third depth-first search of the program.
  Each root starts afresh and stops at the first cycle; it makes the same steps as \<open>dfs_deadlock\<close>,
  so that what is proved of that search decides what this one finds. Waits inside a group, which
  \<open>find_group_cycles\<close> leaves out, are loops of this graph.
\<close>

subsection \<open>The graph\<close>

definition thread_to_group :: "ConflictGroup list \<Rightarrow> (string, nat) umap" where
  "thread_to_group groups = fold (\<lambda>g m. fold (\<lambda>thread. um_put thread (group_id g)) (threads g) m) groups []"

definition group_number :: "(string, nat) umap \<Rightarrow> string \<Rightarrow> nat" where
  "group_number tg thread = (case um_find tg thread of None \<Rightarrow> size_max | Some gid \<Rightarrow> gid)"

text \<open>The hash and the equality of the container of the waits between groups. The hash of the two parts is the
library's. The equality decides which entry is meant; the hash agrees with it.\<close>

definition pair_hash :: "('a \<Rightarrow> 64 word) \<Rightarrow> ('b \<Rightarrow> 64 word) \<Rightarrow> 'a \<times> 'b \<Rightarrow> 64 word" where
  "pair_hash h1 h2 p = xor (h1 (fst p)) (push_bit 1 (h2 (snd p)))"

definition pair_equal :: "'a \<times> 'b \<Rightarrow> 'a \<times> 'b \<Rightarrow> bool" where
  "pair_equal p q \<longleftrightarrow> fst p = fst q \<and> snd p = snd q"

lemma pair_container: "pair_equal p q \<longleftrightarrow> p = q" "pair_equal p q \<Longrightarrow> pair_hash h1 h2 p = pair_hash h1 h2 q"
  by (simp_all add: pair_equal_def pair_hash_def prod_eq_iff)

definition group_waits :: "gstate \<Rightarrow> (nat \<times> nat, (string \<times> string) list) umap" where
  "group_waits s =
     (let tg = thread_to_group (analyze_conflict_groups s)
      in fold (\<lambda>(waiter, waits) m. fold (\<lambda>target m.
           if group_number tg waiter \<noteq> size_max \<and> group_number tg target \<noteq> size_max
           then um_adjust (group_number tg waiter, group_number tg target) [] (\<lambda>l. l @ [(waiter, target)]) m
           else m) waits m) (waits_for s) [])"

definition group_waits_for :: "gstate \<Rightarrow> (nat, nat uset) umap" where
  "group_waits_for s = fold (\<lambda>(pair, _). um_adjust (fst pair) [] (us_insert (snd pair))) (group_waits s) []"

subsection \<open>The search\<close>

text \<open>The result: whether a cycle was found, the three containers, and the cycle.\<close>

function dep_dfs :: "(nat, nat uset) umap \<Rightarrow> nat \<Rightarrow> nat set \<Rightarrow> nat set \<Rightarrow> nat list
      \<Rightarrow> bool \<times> nat set \<times> nat set \<times> nat list \<times> nat list"
  and dep_loop :: "(nat, nat uset) umap \<Rightarrow> nat list \<Rightarrow> nat set \<Rightarrow> nat set \<Rightarrow> nat list
      \<Rightarrow> bool \<times> nat set \<times> nat set \<times> nat list \<times> nat list" where
  "dep_dfs g current visited in_stack path =
     (case dep_loop g (um_at [] g current) (insert current visited) (insert current in_stack) (path @ [current]) of
        (found, visited', in_stack', path', cyc) \<Rightarrow>
          if found then (True, visited', in_stack', path', cyc)
          else (False, visited', in_stack' - {current}, butlast path', []))"
| "dep_loop g [] visited in_stack path = (False, visited, in_stack, path, [])"
| "dep_loop g (neighbor # rest) visited in_stack path =
     (if neighbor \<notin> visited then
        (case dep_dfs g neighbor visited in_stack path of
           (found, visited', in_stack', path', cyc) \<Rightarrow>
             if found then (True, visited', in_stack', path', cyc)
             else dep_loop g rest visited' in_stack' path')
      else if neighbor \<in> in_stack \<and> neighbor \<in> set path then
        (True, visited, in_stack, path, dropWhile (\<lambda>x. x \<noteq> neighbor) path)
      else dep_loop g rest visited in_stack path)"
  by pat_completeness auto

lemma dep_grows_dom:
  "dep_dfs_dep_loop_dom (Inl (g, t, V, S, p)) \<Longrightarrow> V \<subseteq> fst (snd (dep_dfs g t V S p))"
  "dep_dfs_dep_loop_dom (Inr (g, ns, V, S, p)) \<Longrightarrow> V \<subseteq> fst (snd (dep_loop g ns V S p))"
proof (induction g t V S p and g ns V S p rule: dep_dfs_dep_loop.pinduct)
  case (1 g t V S p)
  then show ?case by (auto simp: dep_dfs.psimps split: prod.splits)
next
  case (2 g V S p)
  then show ?case by (simp add: dep_loop.psimps)
next
  case (3 g n ns V S p)
  show ?case
  proof (cases "n \<in> V")
    case True
    with 3 show ?thesis by (auto simp: dep_loop.psimps)
  next
    case False
    obtain f V' S' p' c where d: "dep_dfs g n V S p = (f, V', S', p', c)" by (metis surj_pair)
    with False 3 have "V \<subseteq> V'" by auto
    moreover have "\<not> f \<Longrightarrow> V' \<subseteq> fst (snd (dep_loop g ns V' S' p'))"
      using "3.IH"(2) [OF False d [symmetric] refl refl refl] by blast
    ultimately show ?thesis using False d "3.hyps" by (auto simp: dep_loop.psimps)
  qed
qed

definition dep_rank :: "(nat, nat uset) umap \<times> nat \<times> nat set \<times> nat set \<times> nat list
    + (nat, nat uset) umap \<times> nat list \<times> nat set \<times> nat set \<times> nat list \<Rightarrow> nat \<times> nat" where
  "dep_rank x = (case x of
     Inl (g, t, V, S, p) \<Rightarrow> (unvisited (um_at [] g) [t] V, if t \<in> V then Suc (length (um_at [] g t)) else 0)
   | Inr (g, ns, V, S, p) \<Rightarrow> (unvisited (um_at [] g) ns V, length ns))"

abbreviation dep_less where
  "dep_less x y \<equiv> (dep_rank x, dep_rank y) \<in> less_than <*lex*> less_than"

lemma dep_rank_enter: "dep_less (Inr (g, um_at [] g t, insert t V, S', p')) (Inl (g, t, V, S, p))"
  using adj.unvisited_visit [of t V g] adj.unvisited_again [of t V g]
  by (cases "t \<in> V") (auto simp: dep_rank_def)

lemma dep_rank_visit: "n \<notin> V \<Longrightarrow> dep_less (Inl (g, n, V, S, p)) (Inr (g, n # ns, V, S, p))"
  using adj.unvisited_hd [of g n V ns] by (auto simp: dep_rank_def)

lemma dep_rank_next: "V \<subseteq> V' \<Longrightarrow> dep_less (Inr (g, ns, V', S', p')) (Inr (g, n # ns, V, S, p))"
  using adj.unvisited_tl [of V V' g ns n] by (auto simp: dep_rank_def)

lemma dep_rank_rest:
  "dep_dfs_dep_loop_dom (Inl (g, n, V, S, p)) \<Longrightarrow> (f, V', S', p', c) = dep_dfs g n V S p \<Longrightarrow>
     dep_less (Inr (g, ns, V', S', p')) (Inr (g, n # ns, V, S, p))"
  using dep_grows_dom(1) [of g n V S p] by (intro dep_rank_next) (metis fst_conv snd_conv)

termination dep_dfs
  by (relation "inv_image (less_than <*lex*> less_than) dep_rank")
    (auto intro: dep_rank_enter dep_rank_visit dep_rank_next dep_rank_rest)

declare dep_dfs.simps [simp del] dep_loop.simps [simp del]

definition dependency_cycles :: "(nat, nat uset) umap \<Rightarrow> nat list list" where
  "dependency_cycles g = concat (map (\<lambda>root.
     case dep_dfs g root {} {} [] of (found, visited, in_stack, path, cyc) \<Rightarrow> if found then [cyc] else [])
     (um_keys g))"

subsection \<open>Agreement with the search of the wait-for graph\<close>

definition dep_post :: "(nat, nat uset) umap \<Rightarrow> nat set \<Rightarrow> nat set \<Rightarrow> nat list
    \<Rightarrow> bool \<times> nat set \<times> nat set \<times> nat list \<times> nat list \<Rightarrow> bool \<times> nat set \<times> nat set \<times> nat list \<Rightarrow> bool" where
  "dep_post g V S p r q \<longleftrightarrow> (case r of (f, V', S', p', cyc) \<Rightarrow> case q of (f2, V2, S2, c2) \<Rightarrow>
     f2 = f \<and> V2 = V' \<and> S2 = S' \<and> V \<subseteq> V' \<and> (\<not> f \<longrightarrow> p' = p \<and> S' = S) \<and> (f \<longrightarrow> simple_cycle (um_at [] g) cyc))"

lemma path_cycle:
  assumes "path_ok g V S p" "n \<in> S" "n \<in> set (um_at [] g (last p))"
  shows "simple_cycle (um_at [] g) (dropWhile (\<lambda>x. x \<noteq> n) p)"
  using record_cycle_ok(1) [OF assms, of "[]"] assms(1,2)
  by (simp add: cycles_ok_def record_cycle_def path_ok_def Let_def)

lemma dep_simulates:
  "t \<notin> V \<Longrightarrow> path_ok g V S p \<Longrightarrow> p = [] \<or> t \<in> set (um_at [] g (last p)) \<Longrightarrow>
     dep_post g V S p (dep_dfs g t V S p) (dfs_deadlock g t V S c)"
  "p \<noteq> [] \<Longrightarrow> path_ok g V S p \<Longrightarrow> set ns \<subseteq> set (um_at [] g (last p)) \<Longrightarrow>
     dep_post g V S p (dep_loop g ns V S p) (dfs_neighbours g u ns V S c)"
proof (induction g t V S p and g ns V S p arbitrary: c and c u rule: dep_dfs_dep_loop.induct)
  case (1 g t V S p)
  obtain f V' S' p' cyc where d: "dep_loop g (um_at [] g t) (insert t V) (insert t S) (p @ [t]) = (f, V', S', p', cyc)"
    by (metis surj_pair)
  obtain f2 V2 S2 c2 where q: "dfs_neighbours g t (um_at [] g t) (insert t V) (insert t S) c = (f2, V2, S2, c2)"
    by (metis surj_pair)
  have "dep_post g (insert t V) (insert t S) (p @ [t]) (f, V', S', p', cyc) (f2, V2, S2, c2)"
    unfolding d [symmetric] q [symmetric] using "1.prems" by (intro "1.IH" path_ok_snoc) auto
  moreover have "t \<notin> S" using "1.prems"(1,2) by (auto simp: path_ok_def)
  ultimately show ?case
    by (auto simp: dep_post_def dep_dfs.simps [of g t] dfs_deadlock.simps [of g t] d q)
next
  case (2 g V S p)
  then show ?case by (simp add: dep_post_def dep_loop.simps dfs_neighbours.simps)
next
  case (3 g n ns V S p)
  have SV: "S \<subseteq> V" "set p = S" using "3.prems"(2) by (auto simp: path_ok_def)
  consider (fresh) "n \<notin> V" | (active) "n \<in> V" "n \<in> S" | (seen) "n \<in> V" "n \<notin> S" by blast
  then show ?case
  proof cases
    case fresh
    obtain f V1 S1 p1 cyc where d: "dep_dfs g n V S p = (f, V1, S1, p1, cyc)" by (metis surj_pair)
    obtain f2 V2 S2 c2 where q: "dfs_deadlock g n V S c = (f2, V2, S2, c2)" by (metis surj_pair)
    have "dep_post g V S p (f, V1, S1, p1, cyc) (f2, V2, S2, c2)"
      unfolding d [symmetric] q [symmetric] using "3.prems" fresh by (intro "3.IH"(1)) auto
    then have one: "f2 = f" "V2 = V1" "S2 = S1" "V \<subseteq> V1" "\<not> f \<longrightarrow> p1 = p \<and> S1 = S" "f \<longrightarrow> simple_cycle (um_at [] g) cyc"
      by (simp_all add: dep_post_def)
    have "path_ok g V1 S p" using "3.prems"(2) one(4) by (auto simp: path_ok_def)
    then have "\<not> f \<Longrightarrow> dep_post g V1 S p (dep_loop g ns V1 S p) (dfs_neighbours g u ns V1 S c2)"
      using "3.IH"(2) [OF fresh d [symmetric] refl refl refl] "3.prems" one by auto
    note later = this
    have nS: "n \<notin> S" using fresh SV by auto
    have loop: "dep_loop g (n # ns) V S p = (if f then (True, V1, S1, p1, cyc) else dep_loop g ns V1 S1 p1)"
      using fresh by (simp add: dep_loop.simps(2) d)
    have nb: "dfs_neighbours g u (n # ns) V S c =
        (if f then (True, V1, S1, c2 @ [u]) else dfs_neighbours g u ns V1 S1 c2)"
      using fresh nS one(1-3) by (simp add: dfs_neighbours.simps(2) q)
    show ?thesis
    proof (cases f)
      case True
      with one loop nb show ?thesis by (simp add: dep_post_def)
    next
      case False
      with later one(4,5) show ?thesis unfolding loop nb by (auto simp: dep_post_def)
    qed
  next
    case active
    then show ?thesis
      using path_cycle [OF "3.prems"(2) active(2)] "3.prems"(3) SV
      by (auto simp: dep_post_def dep_loop.simps(2) dfs_neighbours.simps(2))
  next
    case seen
    have "dep_post g V S p (dep_loop g ns V S p) (dfs_neighbours g u ns V S c)"
      using "3.IH"(3) seen "3.prems" by auto
    then show ?thesis
      using seen by (auto simp: dep_post_def dep_loop.simps(2) dfs_neighbours.simps(2) split: prod.splits)
  qed
qed

lemma dep_root:
  "fst (dep_dfs g root {} {} []) = fst (dfs_deadlock g root {} {} [])"
  "fst (dep_dfs g root {} {} []) \<Longrightarrow> simple_cycle (um_at [] g) (snd (snd (snd (snd (dep_dfs g root {} {} [])))))"
  using dep_simulates(1) [of root "{}" g "{}" "[]" "[]"]
  by (simp_all add: path_ok_def dep_post_def split: prod.splits)

lemma dependency_cycles_set: "c \<in> set (dependency_cycles g) \<longleftrightarrow>
    (\<exists>root\<in>set (um_keys g). fst (dep_dfs g root {} {} []) \<and> c = snd (snd (snd (snd (dep_dfs g root {} {} [])))))"
proof -
  have "c \<in> set (case r of (found, visited, in_stack, path, cyc) \<Rightarrow> if found then [cyc] else [])
      \<longleftrightarrow> fst r \<and> c = snd (snd (snd (snd r)))" for r :: "bool \<times> nat set \<times> nat set \<times> nat list \<times> nat list"
    by (cases r) auto
  then show ?thesis unfolding dependency_cycles_def in_loops(1) by simp
qed

lemma dependency_cycles_decide:
  "\<forall>c\<in>set (dependency_cycles g). simple_cycle (um_at [] g) c"
  "dependency_cycles g = [] \<longleftrightarrow> acyclic (edges (um_at [] g))"
proof -
  show "\<forall>c\<in>set (dependency_cycles g). simple_cycle (um_at [] g) c"
    by (auto simp: dependency_cycles_set dep_root(2))
  have "dependency_cycles g = [] \<longleftrightarrow> (\<forall>c. c \<notin> set (dependency_cycles g))" by auto
  also have "\<dots> \<longleftrightarrow> (\<forall>root\<in>set (um_keys g). \<not> fst (dfs_deadlock g root {} {} []))"
    by (auto simp: dependency_cycles_set dep_root(1))
  also have "\<dots> \<longleftrightarrow> acyclic (edges (um_at [] g))"
  proof
    assume none: "\<forall>root\<in>set (um_keys g). \<not> fst (dfs_deadlock g root {} {} [])"
    show "acyclic (edges (um_at [] g))"
    proof (rule acyclicI, rule allI, rule notI)
      fix x assume x: "(x, x) \<in> (edges (um_at [] g))\<^sup>+"
      then obtain y where "(x, y) \<in> edges (um_at [] g)" by (meson tranclD)
      then have "x \<in> set (um_keys g)" by (cases "um_find g x") (auto simp: edges_def um_keys_find um_at_def)
      with none x show False using dfs_decides [of g "{}" x "[]"] by auto
    qed
  next
    assume "acyclic (edges (um_at [] g))"
    then show "\<forall>root\<in>set (um_keys g). \<not> fst (dfs_deadlock g root {} {} [])"
      using dfs_decides [of g "{}" _ "[]"] by (auto simp: acyclic_def)
  qed
  finally show "dependency_cycles g = [] \<longleftrightarrow> acyclic (edges (um_at [] g))" .
qed

subsection \<open>The edges of the graph\<close>

lemma group_waits_fold:
  "q \<in> set (um_at [] (fold (\<lambda>target m. if N t \<noteq> z \<and> N target \<noteq> z
       then um_adjust (N t, N target) [] (\<lambda>l. l @ [(t, target)]) m else m) ws m) (i, j)) \<longleftrightarrow>
     q \<in> set (um_at [] m (i, j)) \<or> (\<exists>u\<in>set ws. q = (t, u) \<and> N t = i \<and> N u = j \<and> i \<noteq> z \<and> j \<noteq> z)"
  by (induction ws arbitrary: m) auto

lemma group_waits_folds:
  "q \<in> set (um_at [] (fold (\<lambda>(t, ws) m. fold (\<lambda>target m. if N t \<noteq> z \<and> N target \<noteq> z
       then um_adjust (N t, N target) [] (\<lambda>l. l @ [(t, target)]) m else m) ws m) es m) (i, j)) \<longleftrightarrow>
     q \<in> set (um_at [] m (i, j)) \<or>
     (\<exists>(t, ws)\<in>set es. \<exists>u\<in>set ws. q = (t, u) \<and> N t = i \<and> N u = j \<and> i \<noteq> z \<and> j \<noteq> z)"
proof (induction es arbitrary: m)
  case (Cons e es)
  obtain t ws where e: "e = (t, ws)" by (cases e)
  show ?case unfolding e fold.simps comp_def prod.case Cons.IH group_waits_fold by auto
qed simp

lemma group_waits_set:
  "q \<in> set (um_at [] (group_waits s) (i, j)) \<longleftrightarrow>
     (let N = group_number (thread_to_group (analyze_conflict_groups s)) in
      \<exists>(t, ws)\<in>set (waits_for s). \<exists>u\<in>set ws. q = (t, u) \<and> N t = i \<and> N u = j \<and> i \<noteq> size_max \<and> j \<noteq> size_max)"
  unfolding group_waits_def Let_def group_waits_folds by (simp add: um_at_def)

lemma group_waits_for_set:
  "j \<in> set (um_at [] (group_waits_for s) i) \<longleftrightarrow> (i, j) \<in> set (um_keys (group_waits s))"
proof -
  have "j \<in> set (um_at [] (fold (\<lambda>(pair, _). um_adjust (fst pair) [] (us_insert (snd pair))) ps g) i) \<longleftrightarrow>
      j \<in> set (um_at [] g i) \<or> (i, j) \<in> set (map fst ps)" for ps :: "((nat \<times> nat) \<times> (string \<times> string) list) list" and g
    by (induction ps arbitrary: g) (auto split: if_splits)
  from this [of "group_waits s" "[]"] show ?thesis by (simp add: group_waits_for_def um_keys_def um_at_def)
qed

text \<open>A thread's number is that of its group.\<close>

lemma thread_to_group_fold:
  assumes "\<And>g h. g \<in> set gs \<Longrightarrow> h \<in> set gs \<Longrightarrow> t \<in> set (threads g) \<Longrightarrow> t \<in> set (threads h) \<Longrightarrow> group_id g = group_id h"
  shows "um_find (fold (\<lambda>g m. fold (\<lambda>thread. um_put thread (group_id g)) (threads g) m) gs m) t =
    (case find (\<lambda>g. t \<in> set (threads g)) gs of None \<Rightarrow> um_find m t | Some g \<Rightarrow> Some (group_id g))"
  using assms
proof (induction gs arbitrary: m)
  case (Cons g gs)
  have one: "um_find (fold (\<lambda>thread. um_put thread (group_id g)) ts m) t =
      (if t \<in> set ts then Some (group_id g) else um_find m t)" for ts m
    by (induction ts arbitrary: m) auto
  have IH: "um_find (fold (\<lambda>g m. fold (\<lambda>thread. um_put thread (group_id g)) (threads g) m) gs m') t =
    (case find (\<lambda>g. t \<in> set (threads g)) gs of None \<Rightarrow> um_find m' t | Some g \<Rightarrow> Some (group_id g))" for m'
    by (rule Cons.IH) (rule Cons.prems, simp_all)
  show ?case
  proof (cases "t \<in> set (threads g) \<and> find (\<lambda>h. t \<in> set (threads h)) gs \<noteq> None")
    case True
    then obtain h where h: "find (\<lambda>h. t \<in> set (threads h)) gs = Some h" by blast
    then have "h \<in> set gs" "t \<in> set (threads h)" by (auto simp: find_Some_iff)
    with True have "group_id h = group_id g" by (intro Cons.prems) simp_all
    with True h show ?thesis by (simp add: IH)
  next
    case False
    then show ?thesis by (auto simp: IH one split: option.split)
  qed
qed simp

lemma group_number_of:
  assumes "wf_tables s"
  shows "group_number (thread_to_group (analyze_conflict_groups s)) t = group_of (analyze_conflict_groups s) t"
proof -
  let ?gs = "analyze_conflict_groups s"
  have "group_id g = group_id h" if "g \<in> set ?gs" "h \<in> set ?gs" "t \<in> set (threads g)" "t \<in> set (threads h)" for g h
    using that analyze_member(2) [OF assms] by (metis in_set_conv_nth)
  note unique = this
  have "um_find (thread_to_group ?gs) t = (case find (\<lambda>g. t \<in> set (threads g)) ?gs of None \<Rightarrow> um_find [] t | Some g \<Rightarrow> Some (group_id g))"
    unfolding thread_to_group_def by (rule thread_to_group_fold [OF unique])
  then have "um_find (thread_to_group ?gs) t = (case find (\<lambda>g. t \<in> set (threads g)) ?gs of None \<Rightarrow> None | Some g \<Rightarrow> Some (group_id g))"
    by (simp add: um_find_Nil split: option.split)
  then show ?thesis by (simp add: group_number_def group_of_def split: option.split)
qed

text \<open>An entry is only made to add a wait to it.\<close>

lemma group_waits_nonempty: "um_find (group_waits s) k = Some l \<Longrightarrow> l \<noteq> []"
proof -
  let ?N = "group_number (thread_to_group (analyze_conflict_groups s))"
  define ok where "ok m = (\<forall>k l. um_find m k = Some l \<longrightarrow> l \<noteq> [])" for m :: "(nat \<times> nat, (string \<times> string) list) umap"
  have inner: "ok m \<Longrightarrow> ok (fold (\<lambda>target m. if ?N t \<noteq> size_max \<and> ?N target \<noteq> size_max
       then um_adjust (?N t, ?N target) [] (\<lambda>l. l @ [(t, target)]) m else m) ws m)" for t ws m
  proof (induction ws arbitrary: m)
    case (Cons a ws)
    have "ok (um_adjust (?N t, ?N a) [] (\<lambda>l. l @ [(t, a)]) m)" using Cons.prems by (simp add: ok_def)
    with Cons show ?case by simp
  qed simp
  have "ok m \<Longrightarrow> ok (fold (\<lambda>(t, ws) m. fold (\<lambda>target m. if ?N t \<noteq> size_max \<and> ?N target \<noteq> size_max
       then um_adjust (?N t, ?N target) [] (\<lambda>l. l @ [(t, target)]) m else m) ws m) es m)" for es m
    by (induction es arbitrary: m) (auto simp: inner)
  note outer = this
  have "ok (group_waits s)"
    unfolding group_waits_def Let_def by (rule outer) (simp add: ok_def um_find_Nil)
  then show "um_find (group_waits s) k = Some l \<Longrightarrow> l \<noteq> []" unfolding ok_def by blast
qed

lemma dependency_edge:
  assumes "wf_tables s"
  shows "j \<in> set (um_at [] (group_waits_for s) i) \<longleftrightarrow>
    j \<in> set (um_at [] (group_wait_graph s) i)
    \<or> i = j \<and> i \<noteq> size_max \<and> (\<exists>t u. u \<in> set (waits_of s t) \<and> group_of (analyze_conflict_groups s) t = i
      \<and> group_of (analyze_conflict_groups s) u = i)"
proof -
  let ?G = "group_of (analyze_conflict_groups s)"
  have "j \<in> set (um_at [] (group_waits_for s) i) \<longleftrightarrow> (\<exists>q. q \<in> set (um_at [] (group_waits s) (i, j)))"
    unfolding group_waits_for_set um_keys_find using group_waits_nonempty [of s "(i, j)"]
    by (cases "um_find (group_waits s) (i, j)") (simp_all add: um_at_def ex_in_conv del: split_paired_Ex)
  also have "\<dots> \<longleftrightarrow> (\<exists>t. \<exists>u\<in>set (waits_of s t). ?G t = i \<and> ?G u = j \<and> i \<noteq> size_max \<and> j \<noteq> size_max)"
    unfolding group_waits_set Let_def group_number_of [OF assms] waits_for_entries [OF assms] by blast
  also have "\<dots> \<longleftrightarrow> j \<in> set (um_at [] (group_wait_graph s) i)
    \<or> i = j \<and> i \<noteq> size_max \<and> (\<exists>t u. u \<in> set (waits_of s t) \<and> ?G t = i \<and> ?G u = i)"
    unfolding group_wait_graph_set waits_for_entries [OF assms] group_edge_def
    by (cases "i = j", simp_all add: Bex_def, blast)
  finally show ?thesis .
qed

text \<open>Two threads of one group, of which one waits for the other.\<close>

definition waits_inside_group :: "gstate \<Rightarrow> nat \<Rightarrow> bool" where
  "waits_inside_group s i \<longleftrightarrow> i \<noteq> size_max \<and> (\<exists>t u. u \<in> set (waits_of s t)
     \<and> group_of (analyze_conflict_groups s) t = i \<and> group_of (analyze_conflict_groups s) u = i)"

lemma dependency_cycles_spec:
  assumes "wf_tables s"
  shows "dependency_cycles (group_waits_for s) = [] \<longleftrightarrow>
    find_group_cycles s = [] \<and> (\<forall>i. \<not> waits_inside_group s i)"
proof -
  let ?D = "edges (um_at [] (group_waits_for s))" and ?E = "edges (um_at [] (group_wait_graph s))"
  have e: "(i, j) \<in> ?D \<longleftrightarrow> (i, j) \<in> ?E \<or> i = j \<and> waits_inside_group s i" for i j
    using dependency_edge [OF assms, of j i] by (simp add: edges_def waits_inside_group_def)
  then have "?E \<subseteq> ?D" by auto
  then have one: "acyclic ?D \<Longrightarrow> acyclic ?E" by (rule acyclic_subset [rotated])
  have two: "acyclic ?D \<Longrightarrow> \<not> waits_inside_group s i" for i
    using e [of i i] by (auto simp: acyclic_def)
  have "\<forall>i. \<not> waits_inside_group s i \<Longrightarrow> ?D = ?E" using e by auto
  with one two show ?thesis
    using dependency_cycles_decide(2) [of "group_waits_for s"] find_group_cycles_spec [OF assms] by metis
qed

text \<open>C35: The cycles that the dependency report names are simple cycles of its graph. There is one exactly when
the group detection finds one, or when a thread waits for another of its own group, which the report
calls a deadlock cycle too.\<close>

theorem dependency_cycles_correct:
  assumes "wf_tables s"
  shows "(\<forall>c\<in>set (dependency_cycles (group_waits_for s)). simple_cycle (um_at [] (group_waits_for s)) c)
    \<and> (dependency_cycles (group_waits_for s) = [] \<longleftrightarrow>
        find_group_cycles s = [] \<and> (\<forall>i. \<not> waits_inside_group s i))"
  using dependency_cycles_decide(1) dependency_cycles_spec [OF assms] by blast

theorem dependency_cycles_correct_witness:
  "0 < length (dependency_cycles (group_waits_for deadlocked_pair))"
  using dependency_cycles_correct [OF deadlocked_pair_wf] by (auto simp: deadlocked_pair_cycle)

subsection \<open>The threads that are named for a cycle\<close>

definition involved_threads :: "gstate \<Rightarrow> ConflictGroup list \<Rightarrow> nat list \<Rightarrow> string list" where
  "involved_threads s groups cyc = concat (map (\<lambda>gid.
     if gid < length groups
     then filter (\<lambda>thread. um_count (waits_for s) thread \<or> list_ex (\<lambda>(_, waiters). thread \<in> set waiters) (futex_waiters s))
            (threads (groups ! gid))
     else []) cyc)"

lemma simple_cycle_succ:
  assumes "simple_cycle succs c" and "x \<in> set c"
  shows "succs x \<noteq> []"
proof -
  from assms(2) obtain xs ys where c: "c = xs @ x # ys" by (auto simp: in_set_conv_decomp)
  show ?thesis
  proof (cases ys)
    case Nil
    with assms(1) c show ?thesis by (auto simp: simple_cycle_def)
  next
    case (Cons y zs)
    with assms(1) c show ?thesis by (auto simp: simple_cycle_def walk_append)
  qed
qed

text \<open>Every group of a reported cycle has a thread among those that are named.\<close>

lemma involved_threads_cover:
  assumes "wf_tables s" and "c \<in> set (dependency_cycles (group_waits_for s))" and "gid \<in> set c"
  shows "\<exists>t\<in>set (threads (analyze_conflict_groups s ! gid)). t \<in> set (involved_threads s (analyze_conflict_groups s) c)"
proof -
  have "um_at [] (group_waits_for s) gid \<noteq> []"
    by (rule simple_cycle_succ [OF _ assms(3)]) (use assms(2) dependency_cycles_decide(1) in blast)
  then obtain j where "j \<in> set (um_at [] (group_waits_for s) gid)" by (metis last_in_set)
  then obtain t u where t: "u \<in> set (waits_of s t)" "group_of (analyze_conflict_groups s) t = gid" "gid \<noteq> size_max"
    unfolding dependency_edge [OF assms(1)] group_wait_graph_set waits_for_entries [OF assms(1)] group_edge_def by blast
  then have "gid < length (analyze_conflict_groups s) \<and> t \<in> set (threads (analyze_conflict_groups s ! gid))"
    by (intro group_of_some [OF assms(1)])
  moreover have "um_count (waits_for s) t" using t(1) by (cases "um_find (waits_for s) t") (simp_all add: um_at_def um_count_def)
  ultimately show ?thesis using assms(3) by (force simp: involved_threads_def)
qed

end
