(* ===== verification/Report_Text.thy ===== *)
theory Report_Text
  imports Lock_Dependency Group_Resolution
begin

text \<open>
  The reports of \<open>detection.cpp\<close> as the texts they print: \<open>debug_wait_for_graph\<close>, \<open>print_conflict_groups\<close> and
  \<open>analyze_lock_dependency_graph\<close>, and \<open>ConflictGroup::to_string\<close>. Characters outside ASCII are
  their UTF-8 bytes. What a report says is compared with the tables it describes.
\<close>

subsection \<open>Pieces of text\<close>

definition utf8 :: "nat list \<Rightarrow> string" where
  "utf8 bytes = map char_of bytes"

text \<open>An escape sequence of the terminal, and \<open>std::setw\<close>.\<close>

definition color :: "string \<Rightarrow> string" where
  "color code = utf8 [27] @ ''['' @ code @ ''m''"

definition setw :: "nat \<Rightarrow> string \<Rightarrow> string" where
  "setw n t = replicate (n - length t) (CHR '' '') @ t"

definition number :: "nat \<Rightarrow> string" where
  "number n = to_string (int n)"

text \<open>Each word followed by a blank.\<close>

definition listed :: "string list \<Rightarrow> string" where
  "listed ws = concat (map (\<lambda>w. w @ '' '') ws)"

subsection \<open>The wait-for graph\<close>

definition debug_wait_for_graph :: "gstate \<Rightarrow> string" where
  "debug_wait_for_graph s =
     newline @ ''[DEBUG] Wait-for graph:'' @ newline
     @ concat (map (\<lambda>(waiter, waits). ''  '' @ waiter @ '' waits for:'' @ newline
         @ concat (map (\<lambda>target. ''    -> '' @ target @ newline) waits)) (waits_for s))
     @ newline @ ''[DEBUG] Lock owners:'' @ newline
     @ concat (map (\<lambda>(lock, owner). ''  Lock '' @ to_hex_string lock @ '' owned by '' @ owner @ newline) (lock_owners s))"

subsection \<open>The conflict groups\<close>

definition conflict_group_to_string :: "ConflictGroup \<Rightarrow> string" where
  "conflict_group_to_string g =
     ''Group '' @ number (group_id g) @ '': '' @ ''[Threads: '' @ listed (threads g)
     @ ''] [Held: '' @ listed (map to_hex_string (locks_held g))
     @ ''] [Wanted: '' @ listed (map to_hex_string (locks_wanted g)) @ '']''"

text \<open>A line of the frame: its left end, 66 horizontal strokes and its right end.\<close>

definition frame_line :: "nat list \<Rightarrow> nat list \<Rightarrow> string" where
  "frame_line left right = color ''1;36'' @ utf8 left @ concat (replicate 66 (utf8 [0xE2, 0x95, 0x90])) @ utf8 right
     @ color ''0'' @ newline"

definition conflict_text :: "ConflictGroup list \<Rightarrow> ConflictGroup \<Rightarrow> nat \<Rightarrow> string" where
  "conflict_text groups g conflict_id =
     (if conflict_id < length groups \<and> conflict_locks g (groups ! conflict_id) \<noteq> []
      then ''    - Conflict with Group '' @ number conflict_id @ '' over locks: ''
        @ listed (map to_hex_string (conflict_locks g (groups ! conflict_id))) @ newline
      else [])"

definition group_text :: "ConflictGroup list \<Rightarrow> ConflictGroup \<Rightarrow> string" where
  "group_text groups g =
     color ''1;33'' @ ''Group '' @ number (group_id g) @ '':'' @ color ''0'' @ newline
     @ ''  Threads ('' @ number (length (threads g)) @ ''): '' @ listed (threads g) @ newline
     @ (if locks_held g \<noteq> [] then ''  Locks held: '' @ listed (map to_hex_string (locks_held g)) @ newline else [])
     @ (if locks_wanted g \<noteq> [] then ''  Locks wanted: '' @ listed (map to_hex_string (locks_wanted g)) @ newline else [])
     @ (if conflicting_groups g \<noteq> []
        then ''  '' @ color ''31'' @ ''Conflicts with groups: '' @ listed (map number (conflicting_groups g)) @ color ''0'' @ newline
          @ concat (map (conflict_text groups g) (conflicting_groups g))
        else [])
     @ newline"

text \<open>The arrow of a one-way wait always points from the first group to the second.\<close>

definition risk_text :: "nat \<times> nat \<times> risk \<Rightarrow> string" where
  "risk_text pair = (case pair of (i, j, r) \<Rightarrow>
     ''  '' @ utf8 [0xE2, 0x9A, 0xA0] @ ''  '' @ (case r of
        High_risk \<Rightarrow> color ''1;31'' @ ''HIGH RISK: Group '' @ number i @ '' '' @ utf8 [0xE2, 0x86, 0x94] @ '' Group '' @ number j
          @ '' (circular wait detected!)''
      | Medium_risk \<Rightarrow> color ''1;33'' @ ''MEDIUM RISK: Group '' @ number i @ '' '' @ utf8 [0xE2, 0x86, 0x92] @ '' Group '' @ number j
          @ '' (one-way wait)''
      | Low_risk \<Rightarrow> color ''1;32'' @ ''LOW RISK: Group '' @ number i @ '' '' @ utf8 [0xE2, 0x86, 0x94] @ '' Group '' @ number j
          @ '' (potential conflict but no active wait)'')
     @ color ''0'' @ newline)"

definition print_conflict_groups :: "gstate \<Rightarrow> ConflictGroup list \<Rightarrow> string" where
  "print_conflict_groups s groups =
     newline @ frame_line [0xE2, 0x95, 0x94] [0xE2, 0x95, 0x97]
     @ color ''1;36'' @ utf8 [0xE2, 0x95, 0x91] @ ''                     CONFLICT GROUP ANALYSIS                      ''
       @ utf8 [0xE2, 0x95, 0x91] @ color ''0'' @ newline
     @ frame_line [0xE2, 0x95, 0xA0] [0xE2, 0x95, 0xA3]
     @ (if groups = [] then ''  No conflict groups detected'' @ newline else concat (map (group_text groups) groups))
     @ color ''1;31'' @ ''DEADLOCK RISK ASSESSMENT:'' @ color ''0'' @ newline
     @ concat (map risk_text (risk_assessment s groups))
     @ (if risk_assessment s groups = [] then ''  No high-risk group conflicts detected'' @ newline else [])
     @ frame_line [0xE2, 0x95, 0x9A] [0xE2, 0x95, 0x9D]"

subsection \<open>The dependency report\<close>

definition heading :: "string \<Rightarrow> string" where
  "heading title = newline @ color ''1;33'' @ title @ color ''0'' @ newline"

definition mapping_text :: "ConflictGroup list \<Rightarrow> string" where
  "mapping_text groups = concat (map (\<lambda>g. concat (map (\<lambda>thread.
     ''  '' @ thread @ '' -> Group '' @ number (group_id g) @ newline) (threads g))) groups)"

definition composition_text :: "ConflictGroup list \<Rightarrow> string" where
  "composition_text groups = concat (map (\<lambda>g.
     ''  Group '' @ number (group_id g) @ '' ('' @ number (length (threads g)) @ '' threads): ''
     @ listed (threads g) @ newline) groups)"

definition ownership_text :: "gstate \<Rightarrow> (string, nat) umap \<Rightarrow> string" where
  "ownership_text s tg = concat (map (\<lambda>(lock_addr, owner).
     ''  '' @ to_hex_string lock_addr @ '' -> '' @ owner @ '' (Group '' @ number (group_number tg owner) @ '')'' @ newline
     @ (case um_find (futex_waiters s) lock_addr of
          None \<Rightarrow> []
        | Some waiters \<Rightarrow>
            if waiters = [] then []
            else ''    Waiters: '' @ concat (map (\<lambda>waiter.
              waiter @ ''(G'' @ number (group_number tg waiter) @ '') '') waiters) @ newline)) (lock_owners s))"

text \<open>The locks of the target that the waiter waits for.\<close>

definition via_locks :: "gstate \<Rightarrow> string \<Rightarrow> string \<Rightarrow> string" where
  "via_locks s waiter target = concat (map (\<lambda>(lock_addr, owner).
     if owner = target \<and> waiter \<in> set (waiters_of s lock_addr)
     then ''(via lock '' @ to_hex_string lock_addr @ '') '' else []) (lock_owners s))"

definition waits_text :: "gstate \<Rightarrow> (string, nat) umap \<Rightarrow> string" where
  "waits_text s tg = concat (map (\<lambda>(waiter, waits).
     ''  '' @ waiter @ ''(G'' @ number (group_number tg waiter) @ '') waits for: ''
     @ concat (map (\<lambda>target. target @ ''(G'' @ number (group_number tg target) @ '') '' @ via_locks s waiter target) waits)
     @ newline) (waits_for s))"

subsection \<open>The conflict matrix\<close>

definition all_groups :: "gstate \<Rightarrow> nat uset" where
  "all_groups s = fold (\<lambda>(pair, _) gs. us_insert (snd pair) (us_insert (fst pair) gs)) (group_waits s) []"

definition matrix_cell :: "gstate \<Rightarrow> nat \<Rightarrow> nat \<Rightarrow> string" where
  "matrix_cell s row_group col_group =
     (case um_find (group_waits s) (row_group, col_group) of
        None \<Rightarrow> ''  . ''
      | Some waits \<Rightarrow>
          if length waits > 0 then color ''31'' @ setw 3 (number (length waits)) @ color ''0'' @ '' '' else ''  . '')"

definition matrix_text :: "gstate \<Rightarrow> string" where
  "matrix_text s =
     (if group_waits s = [] then []
      else heading ''Group-to-Group Conflict Matrix:''
        @ ''  Legend: Gx -> Gy means threads in Group x are waiting for threads in Group y'' @ newline
        @ ''      '' @ concat (map (\<lambda>col_group. ''G'' @ setw 2 (number col_group) @ '' '') (all_groups s)) @ newline
        @ concat (map (\<lambda>row_group. ''  G'' @ setw 2 (number row_group) @ '': ''
            @ concat (map (matrix_cell s row_group) (all_groups s)) @ newline) (all_groups s)))"

definition cycle_text :: "gstate \<Rightarrow> ConflictGroup list \<Rightarrow> nat \<Rightarrow> nat list \<Rightarrow> string" where
  "cycle_text s groups i cyc =
     ''  Scenario '' @ number (i + 1) @ '': '' @ concat (map (\<lambda>gid. ''G'' @ number gid @ '' -> '') cyc)
     @ ''G'' @ number (cyc ! 0) @ '' (CYCLE)'' @ newline
     @ ''    Threads involved: '' @ listed (involved_threads s groups cyc) @ newline"

definition cycles_text :: "gstate \<Rightarrow> ConflictGroup list \<Rightarrow> nat list list \<Rightarrow> string" where
  "cycles_text s groups cycs =
     (if cycs \<noteq> [] then concat (map (\<lambda>(i, cyc). cycle_text s groups i cyc) (enumerate 0 cycs))
      else ''  No inter-group deadlock cycles detected'' @ newline)"

definition analyze_lock_dependency_graph :: "gstate \<Rightarrow> string" where
  "analyze_lock_dependency_graph s =
     (let groups = analyze_conflict_groups s; tg = thread_to_group groups
      in newline @ color ''1;35'' @ ''[LOCK DEPENDENCY ANALYSIS]'' @ color ''0'' @ newline
       @ color ''1;33'' @ ''Thread to Group Mapping:'' @ color ''0'' @ newline @ mapping_text groups
       @ heading ''Group Composition:'' @ composition_text groups
       @ heading ''Lock Ownership (with Group Info):'' @ ownership_text s tg
       @ heading ''Wait-For Graph (with Group Info):'' @ waits_text s tg
       @ matrix_text s
       @ heading ''Potential Inter-Group Deadlocks:'' @ cycles_text s groups (dependency_cycles (group_waits_for s))
       @ print_conflict_groups s groups)"

subsection \<open>What the matrix counts\<close>

text \<open>Each wait between two threads with a group is entered once.\<close>

lemma cells_distinct_inner:
  assumes "distinct ws" and "\<And>k. distinct (um_at [] m k)" and "\<And>k u. u \<in> set ws \<Longrightarrow> (t, u) \<notin> set (um_at [] m k)"
  shows "distinct (um_at [] (fold (\<lambda>target m. if N t \<noteq> z \<and> N target \<noteq> z
       then um_adjust (N t, N target) [] (\<lambda>l. l @ [(t, target)]) m else m) ws m) k)"
  using assms
proof (induction ws arbitrary: m)
  case (Cons u ws)
  let ?m = "if N t \<noteq> z \<and> N u \<noteq> z then um_adjust (N t, N u) [] (\<lambda>l. l @ [(t, u)]) m else m"
  have "distinct (um_at [] ?m k)" for k using Cons.prems by simp
  moreover have "(t, v) \<notin> set (um_at [] ?m k)" if "v \<in> set ws" for k v using that Cons.prems by auto
  ultimately show ?case
    using Cons.prems(1) unfolding fold.simps comp_def by (intro Cons.IH) auto
qed simp

lemma cells_distinct:
  assumes "distinct (map fst es)" and "\<forall>(t, ws)\<in>set es. distinct ws" and "\<And>k. distinct (um_at [] m k)"
    and "\<And>k t u. t \<in> fst ` set es \<Longrightarrow> (t, u) \<notin> set (um_at [] m k)"
  shows "distinct (um_at [] (fold (\<lambda>(t, ws) m. fold (\<lambda>target m. if N t \<noteq> z \<and> N target \<noteq> z
       then um_adjust (N t, N target) [] (\<lambda>l. l @ [(t, target)]) m else m) ws m) es m) k)"
  using assms
proof (induction es arbitrary: m)
  case (Cons e es)
  obtain t ws where e: "e = (t, ws)" by (cases e)
  let ?m = "fold (\<lambda>target m. if N t \<noteq> z \<and> N target \<noteq> z
       then um_adjust (N t, N target) [] (\<lambda>l. l @ [(t, target)]) m else m) ws m"
  have "distinct (um_at [] ?m k)" for k
    using Cons.prems by (intro cells_distinct_inner) (auto simp: e)
  moreover have "(v, u) \<notin> set (um_at [] ?m k)" if "v \<in> fst ` set es" for k v u
    using that Cons.prems by (cases k) (auto simp: e group_waits_fold)
  ultimately show ?case
    using Cons.prems(1,2) unfolding e fold.simps comp_def prod.case by (intro Cons.IH) auto
qed simp

lemma group_waits_distinct:
  assumes "wf_tables s"
  shows "distinct (um_at [] (group_waits s) k)"
proof -
  have "\<forall>(t, ws)\<in>set (waits_for s). distinct ws"
    using assms by (auto simp: wf_tables_def in_set_um_find um_at_def split: option.splits)
  moreover have "distinct (map fst (waits_for s))" using assms by (simp add: wf_tables_def um_ok_def um_keys_def)
  ultimately show ?thesis
    unfolding group_waits_def Let_def by (intro cells_distinct) (simp_all add: um_at_def)
qed

definition waits_between :: "gstate \<Rightarrow> nat \<Rightarrow> nat \<Rightarrow> (string \<times> string) set" where
  "waits_between s i j = {(t, u). u \<in> set (waits_of s t) \<and> group_of (analyze_conflict_groups s) t = i
     \<and> group_of (analyze_conflict_groups s) u = j \<and> i \<noteq> size_max \<and> j \<noteq> size_max}"

lemma group_waits_between:
  assumes "wf_tables s"
  shows "set (um_at [] (group_waits s) (i, j)) = waits_between s i j"
  unfolding set_eq_iff group_waits_set Let_def group_number_of [OF assms] waits_for_entries [OF assms]
  by (auto simp: waits_between_def)

text \<open>C40: Each cell of the conflict matrix shows how many waits there are from the threads of the one group to
those of the other, and a dot when there is none.\<close>

theorem matrix_cell_counts:
  assumes "wf_tables s"
  shows "matrix_cell s i j =
    (if waits_between s i j = {} then ''  . ''
     else color ''31'' @ setw 3 (number (card (waits_between s i j))) @ color ''0'' @ '' '')"
proof -
  have c: "card (waits_between s i j) = length (um_at [] (group_waits s) (i, j))"
    unfolding group_waits_between [OF assms, symmetric] by (rule distinct_card [OF group_waits_distinct [OF assms]])
  show ?thesis
    using group_waits_between [OF assms, of i j] group_waits_nonempty [of s "(i, j)"]
    by (cases "um_find (group_waits s) (i, j)") (auto simp: matrix_cell_def c um_at_def)
qed

theorem matrix_cell_counts_witness:
  "matrix_cell deadlocked_pair 0 1 = color ''31'' @ ''  1'' @ color ''0'' @ '' ''"
proof -
  have "waits_between deadlocked_pair 0 1 = {(''b[2]'', ''a[1]'')}"
    unfolding waits_between_def deadlocked_pair_groups
    by (auto simp: group_of_def deadlocked_pair_def um_at_def um_find_def size_max_def split: if_splits)
  moreover have "setw 3 (number 1) = ''  1''" by code_simp
  ultimately show ?thesis using matrix_cell_counts [OF deadlocked_pair_wf, of 0 1] by simp
qed

text \<open>The rows and columns are the groups that have such waits.\<close>

lemma all_groups_set:
  assumes "wf_tables s"
  shows "set (all_groups s) = {i. \<exists>j. waits_between s i j \<noteq> {} \<or> waits_between s j i \<noteq> {}}"
proof -
  have "set (fold (\<lambda>(pair, _) gs. us_insert (snd pair) (us_insert (fst pair) gs)) ps gs)
      = set gs \<union> fst ` fst ` set ps \<union> snd ` fst ` set ps" for ps :: "((nat \<times> nat) \<times> (string \<times> string) list) list" and gs
    by (induction ps arbitrary: gs) (auto split: prod.splits)
  then have "i \<in> set (all_groups s) \<longleftrightarrow> (\<exists>j. (i, j) \<in> set (um_keys (group_waits s)) \<or> (j, i) \<in> set (um_keys (group_waits s)))" for i
    unfolding all_groups_def by (force simp: um_keys_def image_iff)
  moreover have "(i, j) \<in> set (um_keys (group_waits s)) \<longleftrightarrow> waits_between s i j \<noteq> {}" for i j
    unfolding group_waits_between [OF assms, symmetric] um_keys_find using group_waits_nonempty [of s "(i, j)"]
    by (cases "um_find (group_waits s) (i, j)") (auto simp: um_at_def)
  ultimately show ?thesis by blast
qed

text \<open>A one-way wait is reported by the same line whichever way it goes.\<close>

lemma medium_risk_both_ways:
  assumes "i < j" "j < length gs" "conflicts_with (gs ! i) (gs ! j)"
    and "waits_into s (gs ! i) (gs ! j) \<noteq> waits_into s (gs ! j) (gs ! i)"
  shows "(i, j, Medium_risk) \<in> set (risk_assessment s gs)"
  using assms by (auto simp: risk_assessment_set risk_of_def)

end
