(* ===== verification/Process_Memory.thy ===== *)
theory Process_Memory
  imports Helpers
begin

text \<open>
  \<open>read_process_memory\<close> and \<open>write_process_memory\<close> of \<open>helpers.cpp\<close>: memory of the traced process is read and
  written in words of eight bytes; a rest of fewer bytes is merged into the word that is there. Buffers are
  lists of bytes, and a word is its bytes in little-endian order. The memory of a process is what the
  successful \<open>PTRACE_POKEDATA\<close> calls of the trace have made of it; an operating system is \<open>faithful\<close> to it
  when every such call succeeds and \<open>PTRACE_PEEKDATA\<close> returns the bytes that are there.
\<close>

type_synonym byte = "8 word"

definition bytes_of :: "64 word \<Rightarrow> byte list" where
  "bytes_of w = map (\<lambda>i. ucast (drop_bit (8 * i) w)) [0..<8]"

fun word_of :: "byte list \<Rightarrow> 64 word" where
  "word_of [] = 0"
| "word_of (b # bs) = or (ucast b) (push_bit 8 (word_of bs))"

subsection \<open>The two functions\<close>

text \<open>The words are read into the buffer one by one; when a call fails, the buffer keeps what was read.\<close>

fun read_words :: "os \<Rightarrow> pid \<Rightarrow> addr \<Rightarrow> nat \<Rightarrow> byte list \<Rightarrow> (bool \<times> byte list) prog" where
  "read_words os p a 0 buffer = ret (True, buffer)"
| "read_words os p a (Suc n) buffer = do {
     w \<leftarrow> ptrace_peekdata os p a;
     case w of
       None \<Rightarrow> ret (False, buffer)
     | Some w \<Rightarrow> read_words os p (a + 8) n (buffer @ bytes_of w)
   }"

definition read_process_memory :: "os \<Rightarrow> pid \<Rightarrow> addr \<Rightarrow> nat \<Rightarrow> (bool \<times> byte list) prog" where
  "read_process_memory os p a count =
     (let words = count div 8; remainder = count mod 8
      in do {
        r \<leftarrow> read_words os p a words [];
        case r of (ok, buffer) \<Rightarrow>
          if \<not> ok then ret (False, buffer)
          else if remainder > 0 then do {
            w \<leftarrow> ptrace_peekdata os p (a + of_nat (8 * words));
            case w of
              None \<Rightarrow> ret (False, buffer)
            | Some w \<Rightarrow> ret (True, buffer @ take remainder (bytes_of w))
          }
          else ret (True, buffer)
      })"

fun write_words :: "os \<Rightarrow> pid \<Rightarrow> addr \<Rightarrow> nat \<Rightarrow> byte list \<Rightarrow> bool prog" where
  "write_words os p a 0 src = ret True"
| "write_words os p a (Suc n) src = do {
     r \<leftarrow> ptrace os (PTRACE_POKEDATA a (word_of (take 8 src))) p;
     if r \<noteq> 0 then ret False else write_words os p (a + 8) n (drop 8 src)
   }"

definition write_process_memory :: "os \<Rightarrow> pid \<Rightarrow> addr \<Rightarrow> byte list \<Rightarrow> bool prog" where
  "write_process_memory os p a src =
     (let words = length src div 8; remainder = length src mod 8; dest = a + of_nat (8 * words)
      in do {
        ok \<leftarrow> write_words os p a words src;
        if \<not> ok then ret False
        else if remainder > 0 then do {
          w \<leftarrow> ptrace_peekdata os p dest;
          case w of
            None \<Rightarrow> ret False
          | Some existing \<Rightarrow> do {
              r \<leftarrow> ptrace os (PTRACE_POKEDATA dest (word_of (drop (8 * words) src @ drop remainder (bytes_of existing)))) p;
              ret (r = 0)
            }
        }
        else ret True
      })"

subsection \<open>Bytes and words\<close>

lemma length_bytes_of [simp]: "length (bytes_of w) = 8"
  by (simp add: bytes_of_def)

lemma bit_word_of: "bit (word_of bs) n \<longleftrightarrow> n < 64 \<and> n div 8 < length bs \<and> bit (bs ! (n div 8)) (n mod 8)"
proof (induction bs arbitrary: n)
  case (Cons b bs)
  show ?case
  proof (cases "n < 8")
    case True
    then show ?thesis by (auto simp: bit_or_iff bit_push_bit_iff bit_ucast_iff)
  next
    case False
    then obtain k where n: "n = k + 8" by (metis add.commute le_Suc_ex not_less)
    have "\<not> bit b n" using False by (auto dest: bit_imp_le_length)
    have k: "(k + 8) div 8 = Suc (k div 8)" by simp
    then show ?thesis using \<open>\<not> bit b n\<close> Cons.IH [of k] by (auto simp: n k bit_or_iff bit_push_bit_iff bit_ucast_iff)
  qed
qed simp

lemma bit_bytes_of: "i < 8 \<Longrightarrow> bit (bytes_of w ! i) k \<longleftrightarrow> k < 8 \<and> bit w (8 * i + k)"
  by (auto simp: bytes_of_def bit_ucast_iff bit_drop_bit_eq add.commute)

lemma word_of_bytes_of: "word_of (bytes_of w) = w"
proof (rule bit_word_eqI)
  fix n assume "n < LENGTH(64)"
  then have "n div 8 < 8" "n < 64" by auto
  then show "bit (word_of (bytes_of w)) n \<longleftrightarrow> bit w n" by (simp add: bit_word_of bit_bytes_of)
qed

lemma bytes_of_word_of:
  assumes "length bs = 8"
  shows "bytes_of (word_of bs) = bs"
proof (rule nth_equalityI)
  fix i assume "i < length (bytes_of (word_of bs))"
  then have i: "i < 8" by simp
  show "bytes_of (word_of bs) ! i = bs ! i"
  proof (rule bit_word_eqI)
    fix k assume "k < LENGTH(8)"
    then have "k < 8" by simp
    moreover from this have "(8 * i + k) div 8 = i" "(8 * i + k) mod 8 = k" by simp_all
    ultimately show "bit (bytes_of (word_of bs) ! i) k \<longleftrightarrow> bit (bs ! i) k"
      using i assms by (auto simp: bit_bytes_of bit_word_of)
  qed
qed (simp add: assms)

subsection \<open>The memory of a process\<close>

text \<open>\<open>over m a bs\<close>: the memory \<open>m\<close> with the bytes \<open>bs\<close> written from \<open>a\<close> on.\<close>

definition over :: "(addr \<Rightarrow> byte) \<Rightarrow> addr \<Rightarrow> byte list \<Rightarrow> addr \<Rightarrow> byte" where
  "over m a bs x = (if unat (x - a) < length bs then bs ! unat (x - a) else m x)"

fun poked :: "pid \<Rightarrow> event \<Rightarrow> (addr \<Rightarrow> byte) \<Rightarrow> addr \<Rightarrow> byte" where
  "poked p (Ptrace (PTRACE_POKEDATA a v) q r) m = (if q = p \<and> r = 0 then over m a (bytes_of v) else m)"
| "poked p _ m = m"

definition memory :: "(addr \<Rightarrow> byte) \<Rightarrow> pid \<Rightarrow> event list \<Rightarrow> addr \<Rightarrow> byte" where
  "memory m0 p tr = foldr (poked p) tr m0"

definition bytes_at :: "(addr \<Rightarrow> byte) \<Rightarrow> addr \<Rightarrow> nat \<Rightarrow> byte list" where
  "bytes_at m a n = map (\<lambda>i. m (a + of_nat i)) [0..<n]"

definition faithful :: "os \<Rightarrow> pid \<Rightarrow> (addr \<Rightarrow> byte) \<Rightarrow> bool" where
  "faithful os p m0 \<longleftrightarrow> (\<forall>tr a. os_peekdata os tr p a = Some (word_of (bytes_at (memory m0 p tr) a 8)))
     \<and> (\<forall>tr a v. os_ptrace os tr (PTRACE_POKEDATA a v) p = 0)"

lemma memory_simps [simp]:
  "memory m0 p (Ptrace (PTRACE_POKEDATA a v) p 0 # tr) = over (memory m0 p tr) a (bytes_of v)"
  "memory m0 p (Peekdata q a r # tr) = memory m0 p tr"
  by (simp_all add: memory_def)

lemma over_Nil: "over m a [] = m"
  by (simp add: over_def fun_eq_iff)

lemma over_over:
  assumes "length xs + length ys \<le> 2 ^ 64"
  shows "over (over m a xs) (a + of_nat (length xs)) ys = over m a (xs @ ys)"
proof
  fix x :: addr
  let ?k = "unat (x - a)"
  have k: "?k < 2 ^ 64" using unsigned_less [of "x - a", where 'a = nat] by simp
  show "over (over m a xs) (a + of_nat (length xs)) ys x = over m a (xs @ ys) x"
  proof (cases "ys = []")
    case True
    then show ?thesis by (simp add: over_def)
  next
    case False
    then have n: "length xs < 2 ^ 64" using assms by (cases ys) auto
    then have u: "unat (of_nat (length xs) :: addr) = length xs" by (simp add: unsigned_of_nat take_bit_nat_eq_self)
    have e: "x - (a + of_nat (length xs)) = (x - a) - of_nat (length xs)" by simp
    have d: "unat (x - (a + of_nat (length xs))) = (if length xs \<le> ?k then ?k - length xs else ?k + 2 ^ 64 - length xs)"
      unfolding e unat_sub_if' u by simp
    then show ?thesis using assms n k by (auto simp: over_def nth_append)
  qed
qed

lemma bytes_at_append: "bytes_at m a (n + k) = bytes_at m a n @ bytes_at m (a + of_nat n) k"
  by (rule nth_equalityI) (auto simp: bytes_at_def nth_append add.assoc simp flip: of_nat_add)

lemma bytes_at_over:
  assumes "length bs \<le> 2 ^ 64"
  shows "bytes_at (over m a bs) a (length bs) = bs"
proof (rule nth_equalityI)
  fix i assume "i < length (bytes_at (over m a bs) a (length bs))"
  then have i: "i < length bs" by (simp add: bytes_at_def)
  with assms have "unat (of_nat i :: addr) = i" by (simp add: unsigned_of_nat take_bit_nat_eq_self)
  with i show "bytes_at (over m a bs) a (length bs) ! i = bs ! i" by (simp add: bytes_at_def over_def)
qed (simp add: bytes_at_def)

lemma length_bytes_at [simp]: "length (bytes_at m a n) = n"
  by (simp add: bytes_at_def)

lemma take_bytes_at: "k \<le> n \<Longrightarrow> take k (bytes_at m a n) = bytes_at m a k"
  by (rule nth_equalityI) (simp_all add: bytes_at_def)

lemma over_keeps_rest:
  assumes "length xs \<le> n" and "n \<le> 2 ^ 64"
  shows "over m a (xs @ drop (length xs) (bytes_at m a n)) = over m a xs"
proof
  fix x :: addr
  let ?k = "unat (x - a)"
  have x: "a + of_nat ?k = x" by simp
  have "(xs @ drop (length xs) (bytes_at m a n)) ! ?k = m x" if "\<not> ?k < length xs" "?k < n"
  proof -
    from that have "(xs @ drop (length xs) (bytes_at m a n)) ! ?k = bytes_at m a n ! ?k"
      by (simp add: nth_append)
    also have "\<dots> = m x" using that(2) x by (simp add: bytes_at_def)
    finally show ?thesis .
  qed
  moreover have "(xs @ drop (length xs) (bytes_at m a n)) ! ?k = xs ! ?k" if "?k < length xs"
    using that by (simp add: nth_append)
  moreover have len: "length (xs @ drop (length xs) (bytes_at m a n)) = n" using assms(1) by simp
  moreover have "?k < length xs \<Longrightarrow> ?k < n" using assms(1) by linarith
  ultimately show "over m a (xs @ drop (length xs) (bytes_at m a n)) x = over m a xs x"
    unfolding over_def len by presburger
qed

subsection \<open>Reading and writing\<close>

lemma faithful_calls:
  assumes "faithful os p m0"
  shows "run_state (ptrace_peekdata os p a) s = (Some (word_of (bytes_at (memory m0 p (trace s)) a 8)),
      s\<lparr>trace := Peekdata p a (Some (word_of (bytes_at (memory m0 p (trace s)) a 8))) # trace s\<rparr>)"
    and "run_state (ptrace os (PTRACE_POKEDATA a v) p) s = (0, s\<lparr>trace := Ptrace (PTRACE_POKEDATA a v) p 0 # trace s\<rparr>)"
  using assms by (simp_all add: faithful_def os_call_defs run_call)

lemma read_words_faithful:
  assumes "faithful os p m0"
  shows "\<exists>tr. run_state (read_words os p a n buffer) s =
      ((True, buffer @ bytes_at (memory m0 p (trace s)) a (8 * n)), s\<lparr>trace := tr\<rparr>)
    \<and> memory m0 p tr = memory m0 p (trace s)"
proof (induction n arbitrary: a buffer s)
  case 0
  have "s = s\<lparr>trace := trace s\<rparr>" by simp
  then show ?case by (auto simp: bytes_at_def intro!: exI [of _ "trace s"])
next
  case (Suc n)
  let ?w = "word_of (bytes_at (memory m0 p (trace s)) a 8)"
  let ?s = "s\<lparr>trace := Peekdata p a (Some ?w) # trace s\<rparr>"
  obtain tr where "run_state (read_words os p (a + 8) n (buffer @ bytes_of ?w)) ?s =
      ((True, (buffer @ bytes_of ?w) @ bytes_at (memory m0 p (trace ?s)) (a + 8) (8 * n)), ?s\<lparr>trace := tr\<rparr>)"
    "memory m0 p tr = memory m0 p (trace ?s)"
    using Suc.IH by blast
  then show ?case
    using bytes_at_append [of "memory m0 p (trace s)" a 8 "8 * n"]
    by (intro exI [of _ tr]) (simp add: faithful_calls [OF assms] bytes_of_word_of)
qed

lemma read_faithful:
  assumes "faithful os p m0"
  shows "\<exists>tr. run_state (read_process_memory os p a n) s = ((True, bytes_at (memory m0 p (trace s)) a n), s\<lparr>trace := tr\<rparr>)
    \<and> memory m0 p tr = memory m0 p (trace s)"
proof -
  let ?m = "memory m0 p (trace s)" and ?k = "n div 8" and ?r = "n mod 8"
  have n: "8 * ?k + ?r = n" by simp
  obtain tr where r: "run_state (read_words os p a ?k []) s = ((True, bytes_at ?m a (8 * ?k)), s\<lparr>trace := tr\<rparr>)"
    and m: "memory m0 p tr = ?m"
    using read_words_faithful [OF assms, of a ?k "[]" s] by auto
  show ?thesis
  proof (cases "?r = 0")
    case True
    then have "8 * ?k = n" using n by simp
    with r m True show ?thesis by (auto simp: read_process_memory_def Let_def)
  next
    case False
    have e: "bytes_at ?m a n = bytes_at ?m a (8 * ?k) @ bytes_at ?m (a + of_nat (8 * ?k)) ?r"
      using bytes_at_append [of ?m a "8 * ?k" ?r] unfolding n .
    have "take ?r (bytes_at ?m (a + of_nat (8 * ?k)) 8) = bytes_at ?m (a + of_nat (8 * ?k)) ?r"
      by (rule take_bytes_at) simp
    with r m False show ?thesis
      by (intro exI [of _ "Peekdata p (a + of_nat (8 * ?k)) (Some (word_of (bytes_at ?m (a + of_nat (8 * ?k)) 8))) # tr"])
        (simp add: read_process_memory_def Let_def faithful_calls [OF assms] bytes_of_word_of e)
  qed
qed

lemma write_words_faithful:
  assumes "faithful os p m0"
  shows "8 * n \<le> length src \<Longrightarrow> 8 * n \<le> 2 ^ 64 \<Longrightarrow> \<exists>tr. run_state (write_words os p a n src) s = (True, s\<lparr>trace := tr\<rparr>)
    \<and> memory m0 p tr = over (memory m0 p (trace s)) a (take (8 * n) src)"
proof (induction n arbitrary: a src s)
  case 0
  show ?case by (intro exI [of _ "trace s"]) (simp add: over_Nil)
next
  case (Suc n)
  let ?v = "word_of (take 8 src)"
  let ?s = "s\<lparr>trace := Ptrace (PTRACE_POKEDATA a ?v) p 0 # trace s\<rparr>"
  have len: "length (take 8 src) = 8" using Suc.prems by simp
  obtain tr where tr: "run_state (write_words os p (a + 8) n (drop 8 src)) ?s = (True, ?s\<lparr>trace := tr\<rparr>)"
    "memory m0 p tr = over (memory m0 p (trace ?s)) (a + 8) (take (8 * n) (drop 8 src))"
  proof -
    have "8 * n \<le> length (drop 8 src)" "8 * n \<le> 2 ^ 64" using Suc.prems by simp_all
    from Suc.IH [OF this, of "a + 8" ?s] show ?thesis using that by blast
  qed
  have "take 8 src @ take (8 * n) (drop 8 src) = take (8 + 8 * n) src" by (rule take_add [symmetric])
  then have "take 8 src @ take (8 * n) (drop 8 src) = take (8 * Suc n) src" by simp
  then have "memory m0 p tr = over (memory m0 p (trace s)) a (take (8 * Suc n) src)"
    using over_over [of "take 8 src" "take (8 * n) (drop 8 src)" "memory m0 p (trace s)" a] tr(2) Suc.prems len
    by (simp add: bytes_of_word_of)
  with tr(1) show ?case by (intro exI [of _ tr]) (simp add: faithful_calls [OF assms])
qed

lemma write_faithful:
  assumes "faithful os p m0" and "length src \<le> 2 ^ 64"
  shows "\<exists>tr. run_state (write_process_memory os p a src) s = (True, s\<lparr>trace := tr\<rparr>)
    \<and> memory m0 p tr = over (memory m0 p (trace s)) a src"
proof -
  let ?m = "memory m0 p (trace s)" and ?k = "8 * (length src div 8)" and ?r = "length src mod 8"
  have n: "?k + ?r = length src" by simp
  then have k: "?k \<le> length src" by linarith
  then have "?k \<le> 2 ^ 64" using assms(2) by linarith
  with write_words_faithful [OF assms(1) k]
  obtain tr where w: "run_state (write_words os p a (length src div 8) src) s = (True, s\<lparr>trace := tr\<rparr>)"
    and m: "memory m0 p tr = over ?m a (take ?k src)" by blast
  show ?thesis
  proof (cases "?r = 0")
    case True
    then have "take ?k src = src" using n by simp
    with w m True show ?thesis by (auto simp: write_process_memory_def Let_def)
  next
    case False
    let ?dest = "a + of_nat ?k" and ?rest = "drop ?k src"
    let ?m1 = "over ?m a (take ?k src)"
    have rest: "length ?rest = ?r" using n by (simp add: minus_mult_div_eq_mod)
    have l: "length (?rest @ drop ?r (bytes_at ?m1 ?dest 8)) = 8" using rest by simp
    have k: "length (take ?k src) = ?k" using n by simp
    have "over ?m1 ?dest (?rest @ drop ?r (bytes_at ?m1 ?dest 8)) = over ?m1 ?dest ?rest"
      using over_keeps_rest [of ?rest 8 ?m1 ?dest] rest by simp
    also have "\<dots> = over ?m a (take ?k src @ ?rest)"
      using over_over [of "take ?k src" ?rest ?m a] assms(2) unfolding k rest n by simp
    finally have "over ?m1 ?dest (?rest @ drop ?r (bytes_at ?m1 ?dest 8)) = over ?m a src" by simp
    with w m False l show ?thesis
      by (intro exI [of _ "Ptrace (PTRACE_POKEDATA ?dest (word_of (?rest @ drop ?r (bytes_at ?m1 ?dest 8)))) p 0
          # Peekdata p ?dest (Some (word_of (bytes_at ?m1 ?dest 8))) # tr"])
        (simp add: write_process_memory_def Let_def faithful_calls [OF assms(1)] bytes_of_word_of)
  qed
qed

text \<open>C34: On a process whose memory can be accessed, writing a buffer changes exactly its bytes, the bytes behind a
rest of fewer than eight included, and reading the same range gives the buffer back.\<close>

theorem memory_roundtrip:
  assumes "faithful os p m0" and "length src \<le> 2 ^ 64"
    and "run_state (write_process_memory os p a src) s = (ok, s')"
  shows "ok \<and> memory m0 p (trace s') = over (memory m0 p (trace s)) a src
    \<and> fst (run_state (read_process_memory os p a (length src)) s') = (True, src)"
proof -
  from write_faithful [OF assms(1,2), of a s] assms(3)
  have w: "ok" "memory m0 p (trace s') = over (memory m0 p (trace s)) a src" by auto
  moreover obtain tr where "run_state (read_process_memory os p a (length src)) s' =
      ((True, bytes_at (memory m0 p (trace s')) a (length src)), s'\<lparr>trace := tr\<rparr>)"
    using read_faithful [OF assms(1), of a "length src" s'] by blast
  ultimately show ?thesis using bytes_at_over [OF assms(2)] by simp
qed

definition memory_os :: os where
  "memory_os = dead_os\<lparr>os_ptrace := \<lambda>_ _ _. 0,
     os_peekdata := \<lambda>tr p a. Some (word_of (bytes_at (memory (\<lambda>_. 0) p tr) a 8))\<rparr>"

theorem memory_roundtrip_witness:
  "fst (run_state (do {
     ok \<leftarrow> write_process_memory memory_os 7 0x10003 [1, 2, 3, 4, 5, 6, 7, 8, 9, 10];
     read_process_memory memory_os 7 0x10003 10 }) initial_state) = (True, [1, 2, 3, 4, 5, 6, 7, 8, 9, 10])"
proof -
  let ?src = "[1, 2, 3, 4, 5, 6, 7, 8, 9, 10] :: byte list"
  have f: "faithful memory_os 7 (\<lambda>_. 0)" by (simp add: faithful_def memory_os_def)
  obtain ok s' where w: "run_state (write_process_memory memory_os 7 0x10003 ?src) initial_state = (ok, s')"
    by (metis prod.collapse)
  have l: "length ?src = 10" by simp
  from memory_roundtrip [OF f _ w] have "fst (run_state (read_process_memory memory_os 7 0x10003 (length ?src)) s') = (True, ?src)"
    by simp
  with w show ?thesis unfolding l by simp
qed

end
