(* ===== verification/Process_Maps.thy ===== *)
theory Process_Maps
  imports Helpers
begin

text \<open>
  \<open>read_process_maps\<close> of \<open>helpers.cpp\<close>: every line of \<open>/proc/<pid>/maps\<close> is scanned with the format
  \<open>%lx-%lx %7s %*x %*x:%*x %*d %255[^\n]\<close>; the line counts when the two addresses and the permissions
  could be read, and the name stays empty when the scan stops before it. Each directive takes the rest of
  the input and gives what it converts and the rest behind it, or \<open>None\<close> when it does not match.
\<close>

definition is_hex :: "char \<Rightarrow> bool" where
  "is_hex c = (let n = (of_char c :: nat) in 48 \<le> n \<and> n \<le> 57 \<or> 97 \<le> n \<and> n \<le> 102 \<or> 65 \<le> n \<and> n \<le> 70)"

definition hex_digit_value :: "char \<Rightarrow> nat" where
  "hex_digit_value c = (let n = of_char c in if n \<le> 57 then n - 48 else if n \<le> 70 then n - 55 else n - 87)"

definition skip_space :: "string \<Rightarrow> string" where
  "skip_space s = dropWhile is_space s"

text \<open>An optional sign, and the optional prefix \<open>0x\<close> of a hexadecimal number.\<close>

definition split_sign :: "string \<Rightarrow> bool \<times> string" where
  "split_sign s = (case s of
     c # t \<Rightarrow> if c = CHR ''-'' then (True, t) else if c = CHR ''+'' then (False, t) else (False, s)
   | [] \<Rightarrow> (False, s))"

definition skip_0x :: "string \<Rightarrow> string" where
  "skip_0x s = (case s of
     z # x # d # t \<Rightarrow> if z = CHR ''0'' \<and> (x = CHR ''x'' \<or> x = CHR ''X'') \<and> is_hex d then d # t else s
   | _ \<Rightarrow> s)"

text \<open>\<open>%lx\<close>: a value that is too large becomes the largest one, and a minus sign negates it.\<close>

definition scan_hex :: "string \<Rightarrow> (addr \<times> string) option" where
  "scan_hex s =
     (let (neg, t) = split_sign (skip_space s); t = skip_0x t;
          ds = takeWhile is_hex t; v = digits_value 16 (map hex_digit_value ds);
          w = (if v < 2 ^ 64 then of_nat v else - 1) :: addr
      in if ds = [] then None else Some (if neg \<and> v < 2 ^ 64 then - w else w, dropWhile is_hex t))"

text \<open>\<open>%*d\<close> skips a number, a literal character must follow at once, \<open>%ns\<close> reads up to \<open>n\<close> characters of a
word, and \<open>%n[^\n]\<close> up to \<open>n\<close> characters of the line.\<close>

definition scan_int :: "string \<Rightarrow> string option" where
  "scan_int s = (let (_, t) = split_sign (skip_space s)
     in if takeWhile is_digit t = [] then None else Some (dropWhile is_digit t))"

definition scan_char :: "char \<Rightarrow> string \<Rightarrow> string option" where
  "scan_char c s = (case s of [] \<Rightarrow> None | d # t \<Rightarrow> if d = c then Some t else None)"

definition scan_word :: "nat \<Rightarrow> string \<Rightarrow> (string \<times> string) option" where
  "scan_word n s = (let t = skip_space s; w = take n (takeWhile (\<lambda>c. \<not> is_space c) t)
     in if w = [] then None else Some (w, drop (length w) t))"

definition scan_line :: "nat \<Rightarrow> string \<Rightarrow> (string \<times> string) option" where
  "scan_line n s = (let w = take n (takeWhile (\<lambda>c. c \<noteq> CHR 0x0A) s)
     in if w = [] then None else Some (w, drop (length w) s))"

text \<open>The name: offset, device and inode are skipped first.\<close>

definition scan_name :: "string \<Rightarrow> string option" where
  "scan_name s = do {
     (_, s) \<leftarrow> scan_hex s;
     (_, s) \<leftarrow> scan_hex s;
     s \<leftarrow> scan_char CHR '':'' s;
     (_, s) \<leftarrow> scan_hex s;
     s \<leftarrow> scan_int s;
     (name, _) \<leftarrow> scan_line 255 (skip_space s);
     Some name
   }"

definition scan_region :: "string \<Rightarrow> MemoryRegion option" where
  "scan_region line = do {
     (first, s) \<leftarrow> scan_hex line;
     s \<leftarrow> scan_char CHR ''-'' s;
     (last, s) \<leftarrow> scan_hex s;
     (permissions, s) \<leftarrow> scan_word 7 s;
     Some \<lparr>region_start = first, region_end = last, perms = permissions,
       region_name = (case scan_name s of None \<Rightarrow> [] | Some name \<Rightarrow> name)\<rparr>
   }"

definition read_process_maps :: "os \<Rightarrow> pid \<Rightarrow> MemoryRegion list prog" where
  "read_process_maps os p = do {
     file \<leftarrow> read_file os (''/proc/'' @ to_string p @ ''/maps'');
     ret (case file of None \<Rightarrow> [] | Some text \<Rightarrow> List.map_filter scan_region (fgets_lines 512 text))
   }"

subsection \<open>Scanning what the kernel prints\<close>

text \<open>
  The format of \<open>/proc/<pid>/maps\<close> (\<open>show_map_vma\<close> of the kernel, see proc(5)): the addresses and the offset have at
  least eight hexadecimal digits, the device numbers at least two, filled with zeros from the left. A name starts in
  column 73, or after one more blank when the line is longer by then; a line without a name ends with a blank.
\<close>

definition hex_field :: "nat \<Rightarrow> nat \<Rightarrow> string" where
  "hex_field width n = (let ds = map digit_char (digits_of 16 n) in replicate (width - length ds) (CHR ''0'') @ ds)"

definition maps_head :: "MemoryRegion \<Rightarrow> nat \<Rightarrow> nat \<Rightarrow> nat \<Rightarrow> nat \<Rightarrow> string" where
  "maps_head r offset major minor inode =
     hex_field 8 (unat (region_start r)) @ ''-'' @ hex_field 8 (unat (region_end r)) @ '' '' @ perms r @ '' ''
     @ hex_field 8 offset @ '' '' @ hex_field 2 major @ '':'' @ hex_field 2 minor @ '' '' @ to_string (int inode) @ '' ''"

definition maps_line :: "MemoryRegion \<Rightarrow> nat \<Rightarrow> nat \<Rightarrow> nat \<Rightarrow> nat \<Rightarrow> string" where
  "maps_line r offset major minor inode =
     (let head = maps_head r offset major minor inode
      in head @ (if region_name r = [] then []
           else replicate (72 - length head) (CHR '' '') @ '' '' @ region_name r) @ [CHR 0x0A])"

text \<open>What the code can hold: a name of at most 255 characters. The kernel prints four letters for the permissions and
no line break in a name (it writes \<open>\012\<close>).\<close>

definition printable_region :: "MemoryRegion \<Rightarrow> bool" where
  "printable_region r \<longleftrightarrow> length (perms r) = 4 \<and> set (perms r) \<subseteq> set ''rwxsp-''
     \<and> length (region_name r) \<le> 255 \<and> CHR 0x0A \<notin> set (region_name r)
     \<and> (region_name r \<noteq> [] \<longrightarrow> \<not> is_space (hd (region_name r)))"

lemma digit_chars:
  "digit_char 0 = CHR ''0''" "digit_char (Suc 0) = CHR ''1''" "digit_char 2 = CHR ''2''" "digit_char 3 = CHR ''3''"
  "digit_char 4 = CHR ''4''" "digit_char 5 = CHR ''5''" "digit_char 6 = CHR ''6''" "digit_char 7 = CHR ''7''"
  "digit_char 8 = CHR ''8''" "digit_char 9 = CHR ''9''" "digit_char 10 = CHR ''a''" "digit_char 11 = CHR ''b''"
  "digit_char 12 = CHR ''c''" "digit_char 13 = CHR ''d''" "digit_char 14 = CHR ''e''" "digit_char 15 = CHR ''f''"
  by code_simp+

lemma hex_digit:
  assumes "d < 16"
  shows "is_hex (digit_char d)" "hex_digit_value (digit_char d) = d" "\<not> is_space (digit_char d)"
    "digit_char d \<noteq> CHR ''-''" "digit_char d \<noteq> CHR ''+''" "digit_char d \<noteq> CHR ''x''" "digit_char d \<noteq> CHR ''X''"
proof -
  show hex: "is_hex (digit_char d)" "hex_digit_value (digit_char d) = d" "\<not> is_space (digit_char d)"
    using assms by (auto simp: digit_char_def is_hex_def hex_digit_value_def is_space_def Let_def)
  have "\<not> is_hex (CHR ''-'')" "\<not> is_hex (CHR ''+'')" "\<not> is_hex (CHR ''x'')" "\<not> is_hex (CHR ''X'')"
    by (simp_all add: is_hex_def)
  with hex(1) show "digit_char d \<noteq> CHR ''-''" "digit_char d \<noteq> CHR ''+''" "digit_char d \<noteq> CHR ''x''" "digit_char d \<noteq> CHR ''X''"
    by metis+
qed

text \<open>What may follow a number: nothing that could belong to it.\<close>

definition ends_hex :: "string \<Rightarrow> bool" where
  "ends_hex rest \<longleftrightarrow> rest = [] \<or> \<not> is_hex (hd rest) \<and> hd rest \<noteq> CHR ''x'' \<and> hd rest \<noteq> CHR ''X''"

lemma scan_hex_digits:
  assumes "ds \<noteq> []" "\<forall>d\<in>set ds. d < 16" "digits_value 16 ds < 2 ^ 64" "ends_hex rest"
  shows "scan_hex (map digit_char ds @ rest) = Some (of_nat (digits_value 16 ds), rest)"
proof -
  obtain d es where d: "ds = d # es" using assms(1) by (cases ds) auto
  have d16: "d < 16" "\<forall>e\<in>set es. e < 16" using assms(2) by (simp_all add: d)
  note h = hex_digit [OF d16(1)]
  let ?s = "map digit_char ds @ rest"
  have s: "?s = digit_char d # map digit_char es @ rest" by (simp add: d)
  have space: "skip_space ?s = ?s" unfolding s skip_space_def using h by simp
  have sign: "split_sign ?s = (False, ?s)" unfolding s split_sign_def using h by simp
  have x: "skip_0x ?s = ?s"
  proof (cases es)
    case Nil
    with assms(4) show ?thesis unfolding s by (cases rest) (auto simp: skip_0x_def ends_hex_def split: list.splits)
  next
    case (Cons e fs)
    then have "e < 16" using d16(2) by simp
    with Cons hex_digit [OF this] show ?thesis unfolding s by (auto simp: skip_0x_def split: list.splits)
  qed
  have tw: "takeWhile is_hex ?s = map digit_char ds" "dropWhile is_hex ?s = rest"
    using assms(2,4) hex_digit(1) by (cases rest; auto simp: ends_hex_def takeWhile_append dropWhile_append)+
  have "map hex_digit_value (map digit_char ds) = ds"
    using assms(2) by (induction ds) (simp_all add: hex_digit)
  then show ?thesis
    using assms(1,3) by (simp add: scan_hex_def space sign x tw)
qed

lemma hex_field_digits:
  obtains ds where "hex_field w n = map digit_char ds" "ds \<noteq> []" "\<forall>d\<in>set ds. d < 16" "digits_value 16 ds = n"
proof -
  let ?ds = "replicate (w - length (digits_of 16 n)) 0 @ digits_of 16 n"
  have "digits_value 16 (replicate k 0 @ digits_of 16 n) = digits_value 16 (digits_of 16 n)" for k
    by (induction k) (simp_all add: digits_value_def)
  then have "digits_value 16 ?ds = n" by (simp add: digits_value_of)
  moreover have "hex_field w n = map digit_char ?ds" by (simp add: hex_field_def Let_def digit_chars)
  moreover have "\<forall>d\<in>set ?ds. d < 16" by (auto dest: digits_of_bound [rotated])
  ultimately show thesis using that [of ?ds] digits_of_nonempty [of 16 n] by simp
qed

lemma scan_hex_field:
  assumes "n < 2 ^ 64" and "ends_hex rest"
  shows "scan_hex (hex_field w n @ rest) = Some (of_nat n, rest)"
  using hex_field_digits [of w n] scan_hex_digits [OF _ _ _ assms(2)] assms(1) by metis

lemma length_hex_field: "n < 16 ^ Suc k \<Longrightarrow> w \<le> Suc k \<Longrightarrow> length (hex_field w n) \<le> Suc k"
  using length_hex_digits [of n k] by (simp add: hex_field_def Let_def)

lemma scan_hex_space: "scan_hex (CHR '' '' # s) = scan_hex s"
  by (simp add: scan_hex_def skip_space_def is_space_def)

lemma scan_int_space:
  assumes "rest = [] \<or> \<not> is_digit (hd rest)"
  shows "scan_int (CHR '' '' # to_string (int k) @ rest) = Some rest"
proof -
  have ds: "d < 10" if "d \<in> set (digits_of 10 k)" for d using that by (auto dest: digits_of_bound [rotated])
  obtain d es where d: "digits_of 10 k = d # es" using digits_of_nonempty [of 10 k] by (cases "digits_of 10 k") auto
  have t: "to_string (int k) = map digit_char (digits_of 10 k)" by (simp add: to_string_def)
  have "d < 16" using ds [of d] d by simp
  note h = hex_digit [OF this]
  have dig: "is_digit c" if "c \<in> set (to_string (int k))" for c
    using that ds unfolding t by (auto simp: is_digit_digit_char)
  have space: "skip_space (CHR '' '' # to_string (int k) @ rest) = to_string (int k) @ rest"
    using h by (simp add: skip_space_def is_space_def [of "CHR '' ''"] t d)
  have sign: "split_sign (to_string (int k) @ rest) = (False, to_string (int k) @ rest)"
    using h by (simp add: split_sign_def t d)
  have "takeWhile is_digit (to_string (int k) @ rest) = to_string (int k)"
    "dropWhile is_digit (to_string (int k) @ rest) = rest"
    using assms dig by (cases rest; auto simp: takeWhile_append dropWhile_append)+
  moreover have "to_string (int k) \<noteq> []" by (simp add: t d)
  ultimately show ?thesis by (simp add: scan_int_def space sign)
qed

lemma skip_pad: "set pad \<subseteq> {CHR '' ''} \<Longrightarrow> skip_space (pad @ rest) = skip_space rest"
  by (induction pad) (auto simp: skip_space_def is_space_def)

lemma scan_name_line:
  assumes "offset < 2 ^ 64" "major < 2 ^ 64" "minor < 2 ^ 64" "set pad \<subseteq> {CHR '' ''}" "pad \<noteq> []"
    and "length name \<le> 255" "CHR 0x0A \<notin> set name" "name \<noteq> [] \<longrightarrow> \<not> is_space (hd name)"
  shows "scan_name (CHR '' '' # hex_field 8 offset @ CHR '' '' # hex_field 2 major @ CHR '':'' # hex_field 2 minor
      @ CHR '' '' # to_string (int inode) @ pad @ name @ [CHR 0x0A]) = (if name = [] then None else Some name)"
proof -
  have e: "ends_hex (CHR '' '' # r)" "ends_hex (CHR '':'' # r)" for r by (simp_all add: ends_hex_def is_hex_def)
  obtain c cs where pad: "pad = c # cs" using assms(5) by (cases pad) auto
  with assms(4) have c: "c = CHR '' ''" by simp
  have i: "scan_int (CHR '' '' # to_string (int inode) @ pad @ name @ [CHR 0x0A]) = Some (pad @ name @ [CHR 0x0A])"
    by (rule scan_int_space) (simp add: pad c is_digit_def)
  have n: "scan_line 255 (skip_space (pad @ name @ [CHR 0x0A])) = (if name = [] then None else Some (name, [CHR 0x0A]))"
  proof (cases name)
    case Nil
    then show ?thesis unfolding skip_pad [OF assms(4)] by (simp add: scan_line_def skip_space_def is_space_def)
  next
    case (Cons d ds)
    have "takeWhile (\<lambda>c. c \<noteq> CHR 0x0A) (name @ [CHR 0x0A]) = name"
      using assms(7) by (simp add: takeWhile_append)
    then show ?thesis using assms(6,8) Cons unfolding skip_pad [OF assms(4)]
      by (simp add: scan_line_def skip_space_def)
  qed
  show ?thesis
    by (simp add: scan_name_def scan_hex_space scan_hex_field [OF assms(1) e(1)] scan_hex_field [OF assms(2) e(2)]
        scan_hex_field [OF assms(3) e(1)] scan_char_def i n)
qed

lemma scan_word_line:
  assumes "w \<noteq> []" "length w \<le> n" "\<forall>c\<in>set w. \<not> is_space c"
  shows "scan_word n (CHR '' '' # w @ CHR '' '' # rest) = Some (w, CHR '' '' # rest)"
proof -
  have "takeWhile (\<lambda>c. \<not> is_space c) (w @ CHR '' '' # rest) = w"
    using assms(3) by (simp add: takeWhile_append is_space_def [of "CHR '' ''"])
  moreover have "skip_space (CHR '' '' # w @ CHR '' '' # rest) = w @ CHR '' '' # rest"
    using assms(1,3) by (cases w) (simp_all add: skip_space_def is_space_def [of "CHR '' ''"])
  moreover have "0 < n" using assms(1,2) by (cases w) auto
  ultimately show ?thesis using assms(1,2) by (simp add: scan_word_def)
qed

lemma printable_perms: "printable_region r \<Longrightarrow> c \<in> set (perms r) \<Longrightarrow> \<not> is_space c"
  by (auto simp: printable_region_def is_space_def dest!: subsetD)

lemma scan_region_line:
  assumes "printable_region r" "offset < 2 ^ 64" "major < 2 ^ 64" "minor < 2 ^ 64"
  shows "scan_region (maps_line r offset major minor inode) = Some r"
proof -
  have e: "ends_hex (CHR ''-'' # q)" "ends_hex (CHR '' '' # q)" for q by (simp_all add: ends_hex_def is_hex_def)
  have u: "unat x < 2 ^ 64" for x :: addr using unsigned_less [of x, where 'a = nat] by simp
  have h: "scan_hex (hex_field 8 (unat x) @ CHR ''-'' # q) = Some (x, CHR ''-'' # q)"
    "scan_hex (hex_field 8 (unat x) @ CHR '' '' # q) = Some (x, CHR '' '' # q)" for x :: addr and q
    using scan_hex_field [OF u e(1)] scan_hex_field [OF u e(2)] by simp_all
  have w: "scan_word 7 (CHR '' '' # perms r @ CHR '' '' # q) = Some (perms r, CHR '' '' # q)" for q
    using assms(1) printable_perms [OF assms(1)] by (intro scan_word_line) (auto simp: printable_region_def)
  have line: "scan_region (hex_field 8 (unat (region_start r)) @ CHR ''-'' # hex_field 8 (unat (region_end r))
      @ CHR '' '' # perms r @ CHR '' '' # hex_field 8 offset @ CHR '' '' # hex_field 2 major @ CHR '':'' # hex_field 2 minor
      @ CHR '' '' # to_string (int inode) @ pad @ region_name r @ [CHR 0x0A]) = Some r"
    if pad: "set pad \<subseteq> {CHR '' ''}" "pad \<noteq> []" for pad
    using scan_name_line [OF assms(2-4) pad, of "region_name r" inode] assms(1)
    by (simp add: scan_region_def h w scan_char_def printable_region_def)
  define k where "k = 72 - length (maps_head r offset major minor inode)"
  let ?pad = "CHR '' '' # (if region_name r = [] then [] else replicate k (CHR '' '') @ '' '')"
  have "set ?pad \<subseteq> {CHR '' ''}" by auto
  note blank = line [OF this, simplified]
  have "maps_line r offset major minor inode = maps_head r offset major minor inode
      @ (if region_name r = [] then [] else replicate k (CHR '' '') @ '' '' @ region_name r) @ [CHR 0x0A]"
    by (simp add: maps_line_def Let_def k_def)
  with blank show ?thesis by (cases "region_name r = []") (simp_all add: maps_head_def)
qed

subsection \<open>The whole file\<close>

lemma fgets_line: "CHR 0x0A \<notin> set l \<Longrightarrow> length l < n \<Longrightarrow> fgets n (l @ CHR 0x0A # rest) = (l @ [CHR 0x0A], rest)"
  by (induction l arbitrary: n) (case_tac [!] n, auto)

lemma fgets_lines_concat:
  "\<forall>l\<in>set ls. (\<exists>t. l = t @ [CHR 0x0A] \<and> CHR 0x0A \<notin> set t) \<and> length l < n \<Longrightarrow> fgets_lines n (concat ls) = ls"
proof (induction ls)
  case Nil
  then show ?case by (simp add: fgets_lines.simps)
next
  case (Cons l ls)
  then obtain t where t: "l = t @ [CHR 0x0A]" "CHR 0x0A \<notin> set t" "length l < n" by auto
  have f: "fgets (n - 1) (concat (l # ls)) = (l, concat ls)"
    using fgets_line [of t "n - 1" "concat ls"] t by simp
  have "fgets_lines n (concat (l # ls)) = l # fgets_lines n (concat ls)"
    using t f by (subst fgets_lines.simps) auto
  then show ?case using Cons by simp
qed

text \<open>An entry of the file: a region with the numbers of its line. Linux has 12 bits for a major and 20 for a
minor device number.\<close>

type_synonym maps_entry = "MemoryRegion \<times> nat \<times> nat \<times> nat \<times> nat"

definition entry_line :: "maps_entry \<Rightarrow> string" where
  "entry_line e = (case e of (r, offset, major, minor, inode) \<Rightarrow> maps_line r offset major minor inode)"

definition entry_ok :: "maps_entry \<Rightarrow> bool" where
  "entry_ok e \<longleftrightarrow> (case e of (r, offset, major, minor, inode) \<Rightarrow>
     printable_region r \<and> offset < 2 ^ 64 \<and> major < 2 ^ 12 \<and> minor < 2 ^ 20 \<and> inode < 2 ^ 64)"

lemma hex_field_no_newline: "CHR 0x0A \<notin> set (hex_field w n)"
proof
  assume c: "CHR 0x0A \<in> set (hex_field w n)"
  obtain ds where "hex_field w n = map digit_char ds" "\<forall>d\<in>set ds. d < 16" by (rule hex_field_digits)
  with c obtain d where "d < 16" "CHR 0x0A = digit_char d" by auto
  then have "is_hex (CHR 0x0A)" using hex_digit(1) [of d] by simp
  then show False by (simp add: is_hex_def)
qed

lemma entry_line_shape:
  assumes "entry_ok e"
  shows "\<exists>t. entry_line e = t @ [CHR 0x0A] \<and> CHR 0x0A \<notin> set t"
proof -
  obtain r offset major minor inode where e: "e = (r, offset, major, minor, inode)" by (cases e)
  have "CHR 0x0A \<notin> set (perms r)" "CHR 0x0A \<notin> set (region_name r)"
    using assms printable_perms [of r "CHR 0x0A"] by (auto simp: e entry_ok_def printable_region_def is_space_def)
  moreover have "CHR 0x0A \<notin> set (to_string (int inode))"
    using to_string_chars [of "CHR 0x0A" "int inode"] by (auto simp: is_digit_def)
  ultimately show ?thesis
    by (intro exI [of _ "butlast (entry_line e)"])
      (simp add: e entry_line_def maps_line_def maps_head_def Let_def hex_field_no_newline butlast_append)
qed

text \<open>No line fills the buffer of 512 characters: 87 before the name, one blank, the name and the line break.\<close>

lemma length_digits_10: "n < 10 ^ Suc k \<Longrightarrow> length (digits_of 10 n) \<le> Suc k"
proof (induction k arbitrary: n)
  case 0
  then show ?case by (simp add: digits_of.simps [of 10 n])
next
  case (Suc k)
  then have "n div 10 < 10 ^ Suc k" by (simp add: less_mult_imp_div_less mult.commute)
  from Suc.IH [OF this] show ?case by (subst digits_of.simps) auto
qed

lemma entry_line_length:
  assumes "entry_ok e"
  shows "length (entry_line e) < 512"
proof -
  obtain r offset major minor inode where e: "e = (r, offset, major, minor, inode)" by (cases e)
  note ok = assms [unfolded e entry_ok_def prod.case]
  have u: "unat x < 16 ^ Suc 15" for x :: addr using unsigned_less [of x, where 'a = nat] by simp
  have addr: "length (hex_field 8 (unat x)) \<le> 16" for x :: addr using length_hex_field [OF u, of 8 x] by simp
  have "length (hex_field 8 offset) \<le> 16" using length_hex_field [of offset 15 8] ok by simp
  moreover have "length (hex_field 2 major) \<le> 3" using length_hex_field [of major 2 2] ok by simp
  moreover have "length (hex_field 2 minor) \<le> 5" using length_hex_field [of minor 4 2] ok by simp
  moreover have "length (to_string (int inode)) \<le> 20"
    using length_digits_10 [of inode 19] ok by (simp add: to_string_def)
  ultimately have "length (maps_head r offset major minor inode) \<le> 87"
    using addr [of "region_start r"] addr [of "region_end r"] ok by (simp add: maps_head_def printable_region_def)
  then have "length (entry_line e) \<le> 87 + Suc (length (region_name r)) + 1"
    by (simp add: e entry_line_def maps_line_def Let_def) arith
  then show ?thesis using ok by (simp add: printable_region_def)
qed

text \<open>C37: From a maps file in the format of the kernel, with names of at most 255 characters,
\<open>read_process_maps\<close> reads back the bounds, the permissions and the name (or its absence) of every region, in
order.\<close>

theorem maps_roundtrip:
  assumes "os_file os (trace s) (''/proc/'' @ to_string p @ ''/maps'') = Some (concat (map entry_line entries))"
    and "\<forall>e\<in>set entries. entry_ok e"
  shows "fst (run_state (read_process_maps os p) s) = map fst entries"
proof -
  have lines: "fgets_lines 512 (concat (map entry_line entries)) = map entry_line entries"
    using assms(2) entry_line_shape entry_line_length by (intro fgets_lines_concat) auto
  have one: "scan_region (entry_line e) = Some (fst e)" if "entry_ok e" for e
  proof (cases e)
    case (fields r offset major minor inode)
    with that have "scan_region (maps_line r offset major minor inode) = Some r"
      by (intro scan_region_line) (auto simp: entry_ok_def)
    with fields show ?thesis by (simp add: entry_line_def)
  qed
  have "List.map_filter scan_region (map entry_line entries) = map fst entries"
    using assms(2) by (induction entries) (simp_all add: one)
  with assms(1) lines show ?thesis by (simp add: read_process_maps_def os_call_defs run_call)
qed

text \<open>Two lines as proc(5) shows them, one with a name and one without.\<close>

definition sample_maps :: "maps_entry list" where
  "sample_maps = [
     (\<lparr>region_start = 0x400000, region_end = 0x452000, perms = ''r-xp'', region_name = ''/usr/bin/dbus-daemon''\<rparr>,
        0, 8, 2, 173521),
     (\<lparr>region_start = 0x35b1a21000, region_end = 0x35b1a22000, perms = ''rw-p'', region_name = []\<rparr>, 0, 0, 0, 0)]"

lemma digits_step:
  "2 \<le> b \<Longrightarrow> n < b \<Longrightarrow> digits_of b n = [n]"
  "2 \<le> b \<Longrightarrow> \<not> n < b \<Longrightarrow> digits_of b n = digits_of b (n div b) @ [n mod b]"
  by (simp_all add: digits_of.simps [of b n])

lemma replicate_numbers:
  "replicate 2 c = [c, c]" "replicate 7 c = [c, c, c, c, c, c, c]"
  "replicate 27 c = [c, c, c, c, c, c, c, c, c, c, c, c, c, c, c, c, c, c, c, c, c, c, c, c, c, c, c]"
  by (simp_all add: numeral_eq_Suc)

lemma sample_fields:
  "hex_field 8 0x400000 = ''00400000''" "hex_field 8 0x452000 = ''00452000''"
  "hex_field 8 0x35b1a21000 = ''35b1a21000''" "hex_field 8 0x35b1a22000 = ''35b1a22000''"
  "hex_field 8 0 = ''00000000''" "hex_field 2 0 = ''00''" "hex_field 2 2 = ''02''" "hex_field 2 8 = ''08''"
  "to_string 173521 = ''173521''" "to_string 0 = ''0''"
  by (simp_all add: hex_field_def to_string_def Let_def digits_step digit_chars replicate_numbers)

lemma sample_maps_text: "map entry_line sample_maps =
   [''00400000-00452000 r-xp 00000000 08:02 173521                             /usr/bin/dbus-daemon'' @ [CHR 0x0A],
    ''35b1a21000-35b1a22000 rw-p 00000000 00:00 0 '' @ [CHR 0x0A]]"
  by (simp add: sample_maps_def entry_line_def maps_line_def maps_head_def Let_def sample_fields replicate_numbers)

theorem maps_roundtrip_witness:
  "fst (run_state (read_process_maps (dead_os\<lparr>os_file := \<lambda>_ _. Some (concat (map entry_line sample_maps))\<rparr>) 7) initial_state)
    = map fst sample_maps"
  by (rule maps_roundtrip) (simp_all add: sample_maps_def entry_ok_def printable_region_def is_space_def)

end
