(* ===== verification/Private_Memory.thy ===== *)
theory Private_Memory
  imports Helpers
begin

text \<open>
  The code for the monitor's own pages: \<open>initialize_private_memory\<close>, \<open>force_unlock_futexes\<close> and
  \<open>unlock_futex_safely\<close> of \<open>strategy1.cpp\<close>, and \<open>should_duplicate_page\<close> and \<open>shadow_sigsegv_handler\<close> of
  \<open>memory_duplication.cpp\<close>. The page size is a field of the operating system; where it matters it is a power
  of two. What the last calls have made of the protection of a page is read off the trace.
\<close>

subsection \<open>Pages\<close>

text \<open>The start of a page, computed with a mask in \<open>strategy1.cpp\<close> and by division in \<open>memory_duplication.cpp\<close>.\<close>

definition page_start :: "os \<Rightarrow> addr \<Rightarrow> addr" where
  "page_start os a = and a (not (os_page_size os - 1))"

definition page_base :: "os \<Rightarrow> addr \<Rightarrow> addr" where
  "page_base os a = a div os_page_size os * os_page_size os"

definition power_of_two_pages :: "os \<Rightarrow> bool" where
  "power_of_two_pages os \<longleftrightarrow> (\<exists>k. k < 64 \<and> os_page_size os = 2 ^ k)"

subsection \<open>The protected regions\<close>

definition protected_region :: "os \<Rightarrow> addr \<Rightarrow> MemoryRegion" where
  "protected_region os lock_addr = \<lparr>region_start = page_start os lock_addr,
     region_end = page_start os lock_addr + os_page_size os, perms = ''---'',
     region_name = ''protected_lock_'' @ to_hex_string lock_addr\<rparr>"

definition protect_lock :: "os \<Rightarrow> addr \<Rightarrow> MemoryRegion list \<Rightarrow> MemoryRegion list prog" where
  "protect_lock os lock_addr protected_regions = do {
     ok \<leftarrow> mprotect os (page_start os lock_addr) Prot_none;
     if ok then do {
       modify (\<lambda>s. s\<lparr>g_protected_regions := g_protected_regions s @ [protected_region os lock_addr]\<rparr>);
       ret (protected_regions @ [protected_region os lock_addr])
     } else ret protected_regions
   }"

definition initialize_private_memory :: "os \<Rightarrow> addr list \<Rightarrow> MemoryRegion list prog" where
  "initialize_private_memory os locks = do {
     installed \<leftarrow> sigaction_segv os;
     if \<not> installed then ret [] else for_acc locks [] (protect_lock os)
   }"

definition should_duplicate_page :: "gstate \<Rightarrow> addr \<Rightarrow> bool" where
  "should_duplicate_page s a = list_ex (\<lambda>region. region_start region \<le> a \<and> a < region_end region) (g_protected_regions s)"

subsection \<open>Unlocking in the own address space\<close>

definition force_unlock :: "os \<Rightarrow> addr \<Rightarrow> unit prog" where
  "force_unlock os lock_addr = do {
     ok \<leftarrow> mprotect os (page_start os lock_addr) Prot_read_write;
     if ok then do {
       emit (Store lock_addr 0);
       p \<leftarrow> mprotect os (page_start os lock_addr) Prot_none;
       ret ()
     } else ret ()
   }"

definition force_unlock_futexes :: "os \<Rightarrow> addr list \<Rightarrow> unit prog" where
  "force_unlock_futexes os locks = for_each locks (force_unlock os)"

text \<open>The fallback through \<open>/proc\<close>: \<open>open\<close>, \<open>lseek\<close> and \<open>write\<close> of four zero bytes.\<close>

definition unlock_futex_safely :: "os \<Rightarrow> addr \<Rightarrow> bool prog" where
  "unlock_futex_safely os lock_addr =
     (let page = page_start os lock_addr; page_end = page + os_page_size os
      in if lock_addr < page \<or> page_end \<le> lock_addr then ret False
         else do {
           ok \<leftarrow> mprotect os page Prot_read_write;
           if \<not> ok then do {
             target \<leftarrow> gets target_pid;
             w \<leftarrow> pwrite os (''/proc/'' @ to_string target @ ''/mem'') lock_addr 0;
             ret (w = Some True)
           }
           else do {
             emit (Store lock_addr 0);
             p \<leftarrow> mprotect os page Prot_read;
             ret True
           }
         })"

subsection \<open>The handler of SIGSEGV\<close>

fun page_protection :: "event list \<Rightarrow> addr \<Rightarrow> protection option" where
  "page_protection [] page = None"
| "page_protection (Mprotect p prot True # tr) page = (if p = page then Some prot else page_protection tr page)"
| "page_protection (Mmap_fixed p True # tr) page = (if p = page then Some Prot_read_write else page_protection tr page)"
| "page_protection (_ # tr) page = page_protection tr page"

text \<open>The handler runs with \<open>SA_NODEFER\<close>: when the page cannot be read, its own \<open>memcpy\<close> from the page faults and
enters it again, and is repeated when that returns. One unit of fuel per entry, \<open>None\<close> when it is used up.\<close>

fun shadow_sigsegv_handler :: "os \<Rightarrow> nat \<Rightarrow> addr \<Rightarrow> unit option prog" where
  "shadow_sigsegv_handler os 0 fault_addr = ret None"
| "shadow_sigsegv_handler os (Suc n) fault_addr = do {
     known \<leftarrow> gets (\<lambda>s. should_duplicate_page s (page_base os fault_addr));
     if \<not> known then ret (Some ())
     else do {
       readable \<leftarrow> gets (\<lambda>s. page_protection (trace s) (page_base os fault_addr) \<noteq> Some Prot_none);
       if \<not> readable then do {
         r \<leftarrow> shadow_sigsegv_handler os n (page_base os fault_addr);
         case r of None \<Rightarrow> ret None | Some _ \<Rightarrow> shadow_sigsegv_handler os n fault_addr
       }
       else do {
         page_copy \<leftarrow> load_page os (page_base os fault_addr);
         ok \<leftarrow> mmap_fixed os (page_base os fault_addr);
         if \<not> ok then ret (Some ())
         else do { emit (Store_page (page_base os fault_addr) page_copy); ret (Some ()) }
       }
     }
   }"

subsection \<open>Pages of a power of two\<close>

lemma page_split:
  assumes "os_page_size os = 2 ^ k" "k < 64"
  shows "page_start os a = push_bit k (drop_bit k a)" "page_start os a = page_base os a"
    "a = page_start os a + take_bit k a"
proof -
  show s: "page_start os a = push_bit k (drop_bit k a)"
  proof (rule bit_word_eqI)
    fix n assume "n < LENGTH(64)"
    then show "bit (page_start os a) n \<longleftrightarrow> bit (push_bit k (drop_bit k a)) n"
      unfolding page_start_def assms(1) mask_eq_exp_minus_1 [symmetric]
      by (auto simp: bit_and_iff bit_not_iff bit_mask_iff bit_push_bit_iff bit_drop_bit_eq)
  qed
  show "page_start os a = page_base os a"
    unfolding s page_base_def assms(1) by (simp add: push_bit_eq_mult drop_bit_eq_div)
  show "a = page_start os a + take_bit k a" unfolding s by (simp add: bits_ident)
qed

lemma page_base_idem:
  assumes "power_of_two_pages os"
  shows "page_base os (page_base os a) = page_base os a"
proof -
  from assms obtain k where k: "os_page_size os = 2 ^ k" "k < 64" by (auto simp: power_of_two_pages_def)
  show ?thesis
    unfolding page_split(2) [OF k, symmetric] page_split(1) [OF k]
    by (rule bit_word_eqI) (auto simp: bit_push_bit_iff bit_drop_bit_eq)
qed

lemma page_bounds:
  assumes "power_of_two_pages os"
  shows "page_start os a \<le> a" "a < page_start os a + os_page_size os \<longleftrightarrow> page_start os a + os_page_size os \<noteq> 0"
    "page_start os a + os_page_size os \<noteq> 0 \<Longrightarrow> page_start os a < page_start os a + os_page_size os"
proof -
  from assms obtain k where k: "os_page_size os = 2 ^ k" "k < 64" by (auto simp: power_of_two_pages_def)
  let ?p = "page_start os a" and ?n = "2 ^ k :: nat"
  show le: "?p \<le> a" unfolding page_start_def by (rule word_and_le2)
  have n: "unat (2 ^ k :: addr) = ?n"
  proof -
    have "?n < 2 ^ 64" using k(2) by (rule power_strict_increasing) simp
    then have "unat (of_nat ?n :: addr) = ?n" unfolding unsigned_of_nat
      by (subst take_bit_nat_eq_self) simp_all
    then show ?thesis by simp
  qed
  have "unat (take_bit k a) < ?n" by (simp add: unsigned_take_bit_eq)
  moreover have "unat a = unat ?p + unat (take_bit k a)"
  proof -
    have "unat (a - ?p) = unat a - unat ?p" using le by (rule unat_sub)
    moreover have "a - ?p = take_bit k a" using page_split(3) [OF k, of a] by (metis add_diff_cancel_left')
    moreover have "unat ?p \<le> unat a" using le by (simp add: word_le_nat_alt)
    ultimately show ?thesis by simp
  qed
  moreover have p: "unat ?p + ?n \<le> 2 ^ 64"
  proof -
    have up: "unat ?p = unat a div ?n * ?n"
    proof -
      have "unat a div ?n * ?n < 2 ^ 64"
        by (rule le_less_trans [OF div_times_less_eq_dividend]) (use unsigned_less [of a, where 'a = nat] in simp)
      moreover have "unat a div ?n < 2 ^ 64"
        by (rule le_less_trans [OF div_le_dividend]) (use unsigned_less [of a, where 'a = nat] in simp)
      ultimately show ?thesis
        unfolding page_split(2) [OF k] page_base_def k(1) by (simp add: unat_word_ariths unat_div n)
    qed
    have e: "(2::nat) ^ 64 = 2 ^ (64 - k) * ?n" using k(2) by (simp flip: power_add)
    have "unat a < 2 ^ (64 - k) * ?n" using unsigned_less [of a, where 'a = nat] unfolding e [symmetric] by simp
    then have "unat a div ?n < 2 ^ (64 - k)" by (simp add: less_mult_imp_div_less)
    then have "Suc (unat a div ?n) * ?n \<le> 2 ^ (64 - k) * ?n" by (intro mult_right_mono) simp_all
    then show ?thesis unfolding up e by simp
  qed
  moreover have sum: "unat (?p + 2 ^ k) = (if unat ?p + ?n < 2 ^ 64 then unat ?p + ?n else 0)"
    using p by (auto simp: unat_word_ariths n)
  moreover have z: "?p + 2 ^ k = 0 \<longleftrightarrow> unat (?p + 2 ^ k) = 0" by (simp add: word_unat_eq_iff)
  ultimately show "a < ?p + os_page_size os \<longleftrightarrow> ?p + os_page_size os \<noteq> 0"
    unfolding k(1) word_less_nat_alt by auto
  show "?p + os_page_size os \<noteq> 0 \<Longrightarrow> ?p < ?p + os_page_size os"
    using sum z unfolding k(1) word_less_nat_alt by (auto split: if_splits)
qed

text \<open>The check of \<open>unlock_futex_safely\<close> that is to find invalid addresses fails for no address but those
of the very last page, where the end of the page wraps around to 0; elsewhere the result is that of the
write.\<close>

theorem unlock_check_is_vacuous:
  assumes "power_of_two_pages os"
  shows "fst (run_state (unlock_futex_safely os a) s) \<longleftrightarrow>
    page_start os a + os_page_size os \<noteq> 0
    \<and> (os_mprotect os (trace s) (page_start os a) Prot_read_write
       \<or> os_pwrite os (Mprotect (page_start os a) Prot_read_write False # trace s)
           (''/proc/'' @ to_string (target_pid s) @ ''/mem'') a 0 = Some True)"
proof -
  have "(a < page_start os a \<or> page_start os a + os_page_size os \<le> a) \<longleftrightarrow> page_start os a + os_page_size os = 0"
    using page_bounds(1,2) [OF assms, of a] by (meson leD leI)
  then show ?thesis
    by (cases "os_mprotect os (trace s) (page_start os a) Prot_read_write")
      (auto simp: unlock_futex_safely_def Let_def os_call_defs run_call)
qed

lemma small_pages: "os_page_size os = 4096 \<Longrightarrow> power_of_two_pages os"
  unfolding power_of_two_pages_def by (rule exI [of _ 12]) simp

theorem unlock_check_is_vacuous_witness:
  "fst (run_state (unlock_futex_safely (dead_os\<lparr>os_mprotect := \<lambda>_ _ _. True\<rparr>) 0x12345) initial_state)"
proof -
  let ?os = "dead_os\<lparr>os_mprotect := \<lambda>_ _ _. True\<rparr>"
  have "power_of_two_pages ?os" by (rule small_pages) (simp add: dead_os_def)
  moreover have "page_start ?os 0x12345 = 0x12000"
    unfolding page_start_def by (simp add: dead_os_def)
  ultimately show ?thesis using unlock_check_is_vacuous [of ?os "0x12345" initial_state] by (simp add: dead_os_def)
qed

subsection \<open>Protecting the locks\<close>

text \<open>The loop adds the same regions to its result and to the global list, and the pages of the result are
left without any access.\<close>

lemma protect_lock_run:
  "run_state (protect_lock os a rs) s =
    (let ok = os_mprotect os (trace s) (page_start os a) Prot_none;
         s' = s\<lparr>trace := Mprotect (page_start os a) Prot_none ok # trace s\<rparr>
     in if ok then (rs @ [protected_region os a],
          s'\<lparr>g_protected_regions := g_protected_regions s @ [protected_region os a]\<rparr>)
        else (rs, s'))"
  by (simp add: protect_lock_def os_call_defs run_call Let_def)

lemma protect_locks_run:
  "run_state (for_acc locks rs (protect_lock os)) s = (rs', s') \<Longrightarrow>
   (\<forall>r\<in>set rs. page_protection (trace s) (region_start r) = Some Prot_none) \<Longrightarrow>
   \<exists>new. rs' = rs @ new \<and> g_protected_regions s' = g_protected_regions s @ new
     \<and> set new \<subseteq> protected_region os ` set locks
     \<and> (\<forall>r\<in>set rs'. page_protection (trace s') (region_start r) = Some Prot_none)"
proof (induction locks arbitrary: rs s)
  case Nil
  then show ?case by simp
next
  case (Cons a locks)
  let ?ok = "os_mprotect os (trace s) (page_start os a) Prot_none"
  let ?s = "s\<lparr>trace := Mprotect (page_start os a) Prot_none ?ok # trace s\<rparr>"
  note step = protect_lock_run [of os a rs s]
  show ?case
  proof (cases ?ok)
    case True
    let ?s1 = "?s\<lparr>g_protected_regions := g_protected_regions s @ [protected_region os a]\<rparr>"
    have r: "run_state (for_acc locks (rs @ [protected_region os a]) (protect_lock os)) ?s1 = (rs', s')"
      using Cons.prems(1) True step by simp
    have "\<forall>r\<in>set (rs @ [protected_region os a]). page_protection (trace ?s1) (region_start r) = Some Prot_none"
      using Cons.prems(2) True by (auto simp: protected_region_def)
    from Cons.IH [OF r this] obtain new where "rs' = (rs @ [protected_region os a]) @ new"
      "g_protected_regions s' = g_protected_regions ?s1 @ new" "set new \<subseteq> protected_region os ` set locks"
      "\<forall>r\<in>set rs'. page_protection (trace s') (region_start r) = Some Prot_none" by blast
    then show ?thesis by (intro exI [of _ "protected_region os a # new"]) auto
  next
    case False
    have r: "run_state (for_acc locks rs (protect_lock os)) ?s = (rs', s')"
      using Cons.prems(1) False step by simp
    have "\<forall>r\<in>set rs. page_protection (trace ?s) (region_start r) = Some Prot_none"
      using Cons.prems(2) False by simp
    from Cons.IH [OF r this] obtain new where "rs' = rs @ new"
      "g_protected_regions s' = g_protected_regions ?s @ new" "set new \<subseteq> protected_region os ` set locks"
      "\<forall>r\<in>set rs'. page_protection (trace s') (region_start r) = Some Prot_none" by blast
    then show ?thesis by (intro exI [of _ new]) auto
  qed
qed

lemma initialize_run:
  assumes "run_state (initialize_private_memory os locks) s = (rs, s')"
  shows "g_protected_regions s' = g_protected_regions s @ rs \<and> set rs \<subseteq> protected_region os ` set locks
    \<and> (\<forall>r\<in>set rs. page_protection (trace s') (region_start r) = Some Prot_none)"
proof (cases "os_sigaction os (trace s)")
  case True
  let ?s = "s\<lparr>trace := Sigaction True # trace s\<rparr>"
  have "run_state (for_acc locks [] (protect_lock os)) ?s = (rs, s')"
    using assms True by (simp add: initialize_private_memory_def os_call_defs run_call)
  from protect_locks_run [OF this] show ?thesis by auto
next
  case False
  then show ?thesis using assms by (auto simp: initialize_private_memory_def os_call_defs run_call)
qed

lemma handler_on_unreadable:
  assumes "power_of_two_pages os" and "should_duplicate_page s page" and "page_protection (trace s) page = Some Prot_none"
  shows "page_base os a = page \<Longrightarrow> run_state (shadow_sigsegv_handler os n a) s = (None, s)"
proof (induction n arbitrary: a)
  case (Suc n)
  have "page_base os page = page" using page_base_idem [OF assms(1), of a] Suc.prems by simp
  from Suc.IH [OF this] show ?case using assms(2,3) Suc.prems by simp
qed simp

text \<open>C36: The handler never returns from a fault in a page that \<open>initialize_private_memory\<close> has protected: its own
copy of the page faults again, for every amount of fuel.\<close>

theorem handler_never_returns:
  assumes "power_of_two_pages os" and "run_state (initialize_private_memory os locks) s = (rs, s')"
    and "protected_region os a \<in> set rs" and "page_start os a + os_page_size os \<noteq> 0"
  shows "fst (run_state (shadow_sigsegv_handler os n a) s') = None"
proof -
  from assms(1) obtain k where k: "os_page_size os = 2 ^ k" "k < 64" by (auto simp: power_of_two_pages_def)
  note base = page_split(2) [OF k, of a]
  note i = initialize_run [OF assms(2)]
  have "page_protection (trace s') (page_base os a) = Some Prot_none"
    using i assms(3) by (auto simp: protected_region_def base)
  moreover have "should_duplicate_page s' (page_base os a)"
    using i assms(3) page_bounds(3) [OF assms(1,4)]
    by (auto simp: should_duplicate_page_def list_ex_iff base protected_region_def intro!: bexI [of _ "protected_region os a"])
  ultimately show ?thesis using handler_on_unreadable [OF assms(1) _ _ refl] by simp
qed

theorem handler_never_returns_witness:
  "fst (run_state (do {
     rs \<leftarrow> initialize_private_memory (dead_os\<lparr>os_sigaction := \<lambda>_. True, os_mprotect := \<lambda>_ _ _. True\<rparr>) [0x12345];
     shadow_sigsegv_handler (dead_os\<lparr>os_sigaction := \<lambda>_. True, os_mprotect := \<lambda>_ _ _. True\<rparr>) 1000 0x12345 })
     initial_state) = None"
proof -
  let ?os = "dead_os\<lparr>os_sigaction := \<lambda>_. True, os_mprotect := \<lambda>_ _ _. True\<rparr>"
  have p: "power_of_two_pages ?os" by (rule small_pages) (simp add: dead_os_def)
  obtain rs s' where r: "run_state (initialize_private_memory ?os [0x12345]) initial_state = (rs, s')" by (metis prod.collapse)
  then have "rs = [protected_region ?os 0x12345]"
    by (auto simp: initialize_private_memory_def protect_lock_def os_call_defs run_call)
  moreover have "page_start ?os 0x12345 = 0x12000" unfolding page_start_def by (simp add: dead_os_def)
  ultimately show ?thesis using handler_never_returns [OF p r, of "0x12345" 1000] r
    by (simp add: dead_os_def del: shadow_sigsegv_handler.simps)
qed

end
