(* ===== verification/Snapshot.thy ===== *)
theory Snapshot
  imports Helpers
begin

text \<open>
  \<open>snapshot.cpp\<close>: the registers of a thread, taken and given back. The fields of \<open>ThreadSnapshot\<close> that no
  function touches are left out; registers that were never written are \<open>None\<close>, and a read of
  them, which is undefined, is the result \<open>None\<close> of \<open>restore_thread_state\<close>.
\<close>

record ThreadSnapshot =
  regs :: "user_regs option"
  snapshot_time :: time

definition snapshot_thread_state :: "os \<Rightarrow> pid \<Rightarrow> ThreadSnapshot prog" where
  "snapshot_thread_state os tid = do {
     now \<leftarrow> system_clock_now os;
     there \<leftarrow> thread_exists os tid;
     if \<not> there then ret \<lparr>regs = None, snapshot_time = now\<rparr>
     else do {
       r \<leftarrow> ptrace_getregs os tid;
       ret \<lparr>regs = r, snapshot_time = now\<rparr>
     }
   }"

definition restore_thread_state :: "os \<Rightarrow> pid \<Rightarrow> ThreadSnapshot \<Rightarrow> bool option prog" where
  "restore_thread_state os tid snap = do {
     there \<leftarrow> thread_exists os tid;
     if \<not> there then ret (Some False)
     else case regs snap of
       None \<Rightarrow> ret None
     | Some r \<Rightarrow>
         if rip r = 0 then ret (Some False)
         else do {
           e \<leftarrow> ptrace os (PTRACE_SETREGS r) tid;
           ret (Some (e = 0))
         }
   }"

text \<open>A restored snapshot gives the thread exactly the registers that were read from it: the restore succeeds
when and only when the registers were read, have a program counter and are accepted by the last call. It
reads uninitialised registers when and only when the thread is there at the restore and its registers could not be taken.\<close>

theorem snapshot_restores_registers:
  "case run_state (do { snap \<leftarrow> snapshot_thread_state os tid; restore_thread_state os tid snap }) s of (r, s') \<Rightarrow>
     (r = Some True \<longleftrightarrow> (\<exists>t regs. rip regs \<noteq> 0 \<and> trace s' =
        [Ptrace (PTRACE_SETREGS regs) tid 0, Access (status_path tid) True, Getregs tid (Some regs),
         Access (status_path tid) True, System_clock t] @ trace s))
   \<and> (r = None \<longleftrightarrow> (\<exists>t. trace s' =
        [Access (status_path tid) True, Access (status_path tid) False, System_clock t] @ trace s
        \<or> trace s' = [Access (status_path tid) True, Getregs tid None, Access (status_path tid) True, System_clock t] @ trace s))"
  by (simp add: snapshot_thread_state_def restore_thread_state_def thread_exists_def os_call_defs run_call
      split: option.split) 

end
