(* ===== verification/Shadow_Process.thy ===== *)
theory Shadow_Process
  imports Global_State
begin

text \<open>
  \<open>ShadowProcess\<close> of \<open>deadlock_resolver.h\<close> with the move operations of \<open>strategy1.cpp\<close>. The objects live in
  a store, so that an object can be moved to itself. What a move assignment leaves in the two vectors of its source is
  not specified by the language: it is an argument here. No function of the program builds such an object.
\<close>

record ResourceCopy =
  original_addr :: addr
  copy_addr :: addr
  copy_size :: nat
  copy_data :: "8 word list"
  copy_time :: time
  copy_lock_addr :: addr

record ShadowProcess =
  shadow_pid :: pid
  shadow_victim_tid :: pid
  resource_copies :: "ResourceCopy list"
  protected_regions :: "MemoryRegion list"
  creation_time :: time
  running :: bool
  control_fd :: int

type_synonym shadow_store = "nat \<Rightarrow> ShadowProcess option"

text \<open>The new object takes everything over; the vectors of the other one are left empty.\<close>

definition move_construct :: "shadow_store \<Rightarrow> nat \<Rightarrow> nat \<Rightarrow> shadow_store" where
  "move_construct st this other =
     (case st other of
        None \<Rightarrow> st
      | Some p \<Rightarrow> st(this \<mapsto> p, other \<mapsto> p\<lparr>resource_copies := [], protected_regions := [], control_fd := - 1\<rparr>))"

definition move_assign ::
    "ResourceCopy list \<Rightarrow> MemoryRegion list \<Rightarrow> shadow_store \<Rightarrow> nat \<Rightarrow> nat \<Rightarrow> shadow_store" where
  "move_assign copies regions st this other =
     (if this = other then st
      else case st other of
        None \<Rightarrow> st
      | Some p \<Rightarrow> st(this \<mapsto> p,
          other \<mapsto> p\<lparr>resource_copies := copies, protected_regions := regions, control_fd := - 1\<rparr>))"

text \<open>The objects that own a file descriptor.\<close>

definition fd_owners :: "shadow_store \<Rightarrow> int \<Rightarrow> nat set" where
  "fd_owners st fd = {a. \<exists>p. st a = Some p \<and> control_fd p = fd}"

definition fd_exclusive :: "shadow_store \<Rightarrow> bool" where
  "fd_exclusive st \<longleftrightarrow> (\<forall>fd a b. fd \<noteq> - 1 \<and> a \<in> fd_owners st fd \<and> b \<in> fd_owners st fd \<longrightarrow> a = b)"

text \<open>No move lets two objects own the same descriptor: not even an object moved to itself loses its own.\<close>

theorem moves_keep_fd_exclusive:
  assumes "fd_exclusive st"
  shows "st this = None \<Longrightarrow> fd_exclusive (move_construct st this other)"
    and "fd_exclusive (move_assign copies regions st this other)"
    and "move_assign copies regions st this this = st"
  using assms
  by (auto simp: fd_exclusive_def fd_owners_def move_construct_def move_assign_def split: option.splits if_splits)

theorem moves_keep_fd_exclusive_witness:
  "fd_exclusive (move_assign [] [] (\<lambda>_. None) 1 2)"
  by (rule moves_keep_fd_exclusive(2)) (simp add: fd_exclusive_def fd_owners_def)

text \<open>The descriptor of the object that is assigned to is lost without being closed.\<close>

theorem move_assign_drops_fd:
  assumes "fd_exclusive st" and "this \<noteq> other" and "st other \<noteq> None" and "this \<in> fd_owners st fd" and "fd \<noteq> - 1"
  shows "fd_owners (move_assign copies regions st this other) fd = {}"
  using assms
  by (fastforce simp: fd_exclusive_def fd_owners_def move_assign_def split: option.splits if_splits)

end
