(* ===== verification/Spec2Isabelle.thy ===== *)
theory Spec2Isabelle
  imports Wait_Graph False_Alarm No_Exceptions Zero_Target Report_Text Process_Memory Process_Maps Private_Memory Snapshot Shadow_Process
begin

text \<open>
  A deadlock monitor for running processes, after the C++ sources under \<open>src/\<close>. The monitor attaches
  to every thread of a target with ptrace, stops it at each system call, keeps tables of the futex
  locks and of who waits for whom, looks for cycles after every event, and breaks the ones it finds.

  \<^bold>\<open>How the parts interact.\<close> \<open>main.cpp\<close> waits for a thread that stopped, hands it to the
  monitoring, then to the detection, and lets it run again. \<open>monitoring.cpp\<close> changes the global tables
  (\<open>lock_owners\<close>, \<open>thread_locks\<close>, \<open>futex_waiters\<close>, \<open>waits_for\<close>, \<open>lock_stats\<close>). \<open>detection.cpp\<close> first
  groups threads by shared locks and searches the graph of the groups; a cycle there is
  resolved by \<open>resolve_group_deadlock\<close>, which gives the target up. Otherwise it searches the
  wait-for graph of the threads; a new cycle goes to \<open>resolve_deadlock_strategy1\<close> of \<open>strategy1.cpp\<close>, or
  to its emergency break. Both write zeroes into futex words of the target through
  \<open>futex_unlocker.h\<close>. All of them use the global variables and \<open>helpers.cpp\<close>.

  \<^bold>\<open>The model.\<close> The global variables are one record, \<open>gstate\<close>, and code that uses them is a
  program of the state monad. The operating system is a parameter \<open>os\<close>: functions from the trace of all
  calls made so far to the next answer, so that a theorem without a hypothesis about \<open>os\<close> holds for
  every kernel, clock and target. The trace is the last field of \<open>gstate\<close>. Exceptions and the
  undefined behaviour that the code can run into are values of \<open>fault\<close>, \<open>outcome\<close> and \<open>verdict\<close>; after
  \<open>fork\<close> a run is the run of one of the two processes. Hash containers are lists in iteration order, which
  no theorem fixes; \<open>Main_Loop.step\<close> lets the order change between any two rounds. Addresses are
  \<open>64 word\<close>, thread ids and the results of system calls are \<open>int\<close> (an error number, 0 for success).

  \<^bold>\<open>Foundations.\<close>
  \<^item> \<open>Prelude\<close>: types, faults, loops of the monad, the Hoare rules in the collection \<open>keeps\<close>.
  \<^item> \<open>Containers\<close>: \<open>unordered_map\<close> and \<open>unordered_set\<close>, and the interface \<open>assoc_container\<close>.
  \<^item> \<open>Text_Parsing\<close>: numbers, \<open>find\<close>, \<open>substr\<close>, \<open>stoi\<close>, \<open>fgets\<close>.
  \<^item> \<open>Global_State\<close>: the structures of \<open>deadlock_resolver.h\<close> and \<open>helpers.h\<close>, \<open>global_state.cpp\<close>.
  \<^item> \<open>Os_Calls\<close>: the system calls; the interface \<open>env_frame\<close> of invariants that no call can break; the
    calculus of silent programs (\<open>silent\<close>, \<open>runs_from\<close>) and of the number of calls (\<open>costs\<close>).
  \<^item> \<open>Digraph\<close>: walks, simple cycles and the interface \<open>digraph\<close> with the termination measure that
    the three depth-first searches share.

  \<^bold>\<open>Components.\<close>
  \<^item> \<open>Helpers\<close>, \<open>Process_Memory\<close>, \<open>Process_Maps\<close>: \<open>helpers.cpp\<close>. Identifiers, memory and maps are read
    back as they were written.
  \<^item> \<open>Monitoring\<close>, \<open>Monitor_Invariants\<close>: \<open>monitoring.cpp\<close>. The handlers refine an abstract monitor over
    finite maps and sets, and keep \<open>table_inv\<close> and \<open>owner_inv\<close>.
  \<^item> \<open>Wait_Graph\<close>, \<open>Involved_Locks\<close>: \<open>dfs_deadlock\<close> and \<open>find_locks_in_deadlock\<close>. The search terminates and
    decides whether a cycle can be reached; what it reports, and which locks are found for it.
  \<^item> \<open>Conflict_Groups\<close>, \<open>Group_Cycles\<close>, \<open>Group_Detection\<close>: the grouping of the threads is a partition with
    the locks and the conflict marks of its members; the search over the groups is complete; a
    reported group deadlock has a resolution for each of its groups.
  \<^item> \<open>Lock_Report\<close>, \<open>Lock_Dependency\<close>, \<open>Report_Text\<close>: what the analysis reports compute, compared with the
    detection, and the texts that they print.
  \<^item> \<open>Futex_Unlocker\<close>: \<open>futex_unlocker.h\<close>. Success is reported only after the word has been read as 0;
    counters, and the number of calls of each kind. An event of the trace stands for a system call, or for the opening,
    the access and the closing of one file.
  \<^item> \<open>Strategy1\<close>, \<open>Private_Memory\<close>, \<open>Snapshot\<close>, \<open>Shadow_Process\<close>: \<open>strategy1.cpp\<close>,
    \<open>memory_duplication.cpp\<close>, \<open>snapshot.cpp\<close>. The effect of a resolution on all variables, and the victim that
    is on no cycle afterwards.
  \<^item> \<open>Group_Resolution\<close>, \<open>Detection\<close>: the resolution of a group deadlock and
    \<open>detect_and_resolve_deadlocks\<close>. Every deadlock of threads is detected, none is invented by the thread
    search, the tables stay well formed; where detection is undefined or throws.
  \<^item> \<open>Trace_Growth\<close>, \<open>Main_Loop\<close>: \<open>main.cpp\<close>. Invariants of all reachable states, that every stop is
    answered, and the exact calls of the attachment and of the shutdown.
  \<^item> \<open>Monitor_Life\<close>: a whole run. The target exists and its threads are attached to before the first round, the
    threads are let go before the monitor exits, and the program ends after a signal.
  \<^item> \<open>Deadlock_Watch\<close>, \<open>No_Exceptions\<close>: the composition. The names in the tables of a reachable state are
    identifiers, no deadlock escapes a monitor that is switched on, and with names that have no brackets the
    \<open>catch (...)\<close> of \<open>main.cpp\<close> has nothing to catch.
  \<^item> \<open>False_Alarm\<close>: two groups that wait for each other are a deadlock for the detection, whether their threads
    are on a cycle or not; a run of six futex calls leads to such a state without a cycle.
  \<^item> \<open>Zero_Target\<close>: since \<open>main\<close> shadows \<open>target_pid\<close>, every resolution addresses process 0, which Linux does not have;
    a run of the program never writes a word into any process.

  \<^bold>\<open>Interfaces.\<close> \<open>env_frame\<close> is extended by \<open>cache_frame\<close>, \<open>resolution_frame\<close>, \<open>detection_frame\<close> and
  \<open>monitor_frame\<close>: each adds what the next layer of the program writes to the
  conditions on an invariant, and proves that the layer keeps it. Their interpretations are the
  invariants of the model (\<open>table_inv\<close>, \<open>owner_inv\<close>, \<open>distinct_cycles\<close>, the value of \<open>target_pid\<close> and so on).
  \<open>name_source\<close> is the contract between the makers of identifiers and the tables, \<open>priced_calls\<close> that of the unlocker
  with a price for each call, which \<open>kinds\<close> instantiates with the kinds of calls.

  \<^bold>\<open>Fuel.\<close> Three loops may run for ever and count down: the guardian process left behind by
  \<open>resolve_group_deadlock\<close>, the event loop, and the entries of the \<open>SIGSEGV\<close> handler, which can nest; the
  result \<open>None\<close> (or the verdict of a guardian that still runs) says that the number was used up.
  \<open>Monitor_Life\<close> shows that \<open>L + 1\<close> rounds are enough for the event loop when the signal comes within
  \<open>L\<close> calls; \<open>Private_Memory\<close> shows that no number is enough for the handler on a protected page; the
  guardian may run for ever by design. All other loops are structural or have a termination proof.

  \<^bold>\<open>Not modelled.\<close> The progress messages and the printed summaries of the detection, the resolutions and
  the unlocker, apart from the four reports of \<open>Report_Text\<close>; the output streams of \<open>global_state.cpp\<close>, which nothing
  opens. Mutexes, since the monitor has one thread. Freed memory and the allocation of containers. \<open>DeadlockResolution\<close> of
  \<open>deadlock_resolver.h\<close>, which nothing uses. The examples, scripts and the build file are not part of the
  implementation.
\<close>

end
